(* ===== verification/Libkern_Prelude.thy ===== *)
theory Libkern_Prelude
  imports Main "HOL-Library.Word" "HOL-Library.Monad_Syntax"
begin

unbundle bit_operations_syntax

text \<open>
  Shared ground of the development: the names of the C integer types on the LP64 target
  (\<^verbatim>\<open>__WORDSIZE == 64\<close>), pointers, typed heaps with failing accesses, arrays of machine words
  in a store (so that two pointer arguments may name the same array), and the generic lemmas
  on bits, lists and cyclic successions that the component theories use.
\<close>

section \<open>Machine types\<close>

type_synonym u8 = "8 word"
type_synonym u16 = "16 word"
type_synonym u32 = "32 word"
type_synonym u64 = "64 word"
type_synonym addr = "64 word"

abbreviation NULL :: addr where
  "NULL \<equiv> 0"

named_theorems heap_simps \<open>evaluation of reads and writes through valid pointers\<close>
named_theorems arr_simps \<open>evaluation of reads and writes of array cells in range\<close>

section \<open>Typed heaps\<close>

text \<open>
  One heap per struct type: a partial map from addresses to struct values. An access through
  \<^verbatim>\<open>NULL\<close> or through an address that holds no struct of that type is undefined behaviour in C
  and is \<^const>\<open>None\<close> here, so that a theorem whose conclusion is \<open>Some\<close> includes memory safety.
\<close>

type_synonym 's heap = "addr \<rightharpoonup> 's"

definition valid :: "'s heap \<Rightarrow> addr \<Rightarrow> bool" where
  "valid h p \<longleftrightarrow> p \<noteq> NULL \<and> p \<in> dom h"

definition deref :: "'s heap \<Rightarrow> addr \<Rightarrow> 's option" where
  "deref h p = (if p = NULL then None else h p)"

definition getf :: "('s \<Rightarrow> 'f) \<Rightarrow> 's heap \<Rightarrow> addr \<Rightarrow> 'f option" where
  "getf f h p = map_option f (deref h p)"

definition modf :: "('s \<Rightarrow> 's) \<Rightarrow> addr \<Rightarrow> 's heap \<Rightarrow> 's heap option" where
  "modf u p h = (case deref h p of None \<Rightarrow> None | Some n \<Rightarrow> Some (h(p \<mapsto> u n)))"

lemma valid_deref: "valid h p \<longleftrightarrow> (\<exists>n. deref h p = Some n)"
  by (auto simp: valid_def deref_def)

lemma deref_Some_iff: "deref h p = Some n \<longleftrightarrow> p \<noteq> NULL \<and> h p = Some n"
  by (auto simp: deref_def)

lemma deref_NULL [simp]: "deref h 0 = None"
  by (simp add: deref_def)

lemma getf_NULL [simp]: "getf f h 0 = None"
  by (simp add: getf_def)

lemma modf_NULL [simp]: "modf u 0 h = None"
  by (simp add: modf_def)

lemma deref_upd: "deref (h(p \<mapsto> n)) q = (if q = p \<and> p \<noteq> NULL then Some n else deref h q)"
  by (simp add: deref_def)

lemma getf_Some_valid: "getf f h p = Some v \<Longrightarrow> valid h p"
  by (auto simp: getf_def valid_deref)

lemma valid_getfE:
  assumes "valid h p"
  obtains v where "getf f h p = Some v"
  using assms by (auto simp: getf_def valid_deref)

lemma bind_Some_eq: "Option.bind m f = Some y \<longleftrightarrow> (\<exists>x. m = Some x \<and> f x = Some y)"
  by (cases m) auto

section \<open>Arrays of words in a store\<close>

text \<open>
  A store maps the base pointer of an array to its cells. Routines take base pointers, so the
  destination may be one of the sources, as the C code allows; an index outside the array, or
  a pointer to no array, makes the access fail.
\<close>

type_synonym store = "addr \<rightharpoonup> u64 list"

definition aget :: "store \<Rightarrow> addr \<Rightarrow> nat \<Rightarrow> u64 option" where
  "aget m p k = (case m p of None \<Rightarrow> None | Some a \<Rightarrow> if k < length a then Some (a ! k) else None)"

definition aset :: "store \<Rightarrow> addr \<Rightarrow> nat \<Rightarrow> u64 \<Rightarrow> store option" where
  "aset m p k v = (case m p of None \<Rightarrow> None
     | Some a \<Rightarrow> if k < length a then Some (m(p \<mapsto> a[k := v])) else None)"

lemma aget_Some [arr_simps]: "m p = Some a \<Longrightarrow> k < length a \<Longrightarrow> aget m p k = Some (a ! k)"
  by (simp add: aget_def)

lemma aset_Some [arr_simps]:
  "m p = Some a \<Longrightarrow> k < length a \<Longrightarrow> aset m p k v = Some (m(p \<mapsto> a[k := v]))"
  by (simp add: aset_def)

text \<open>
  The two shapes of the counting loops over array cells: \<^verbatim>\<open>for (k = i; k < n; k++) body\<close>, and the
  same with an early \<^verbatim>\<open>return\<close> on a test (the result says whether it was taken).
\<close>

function for_up :: "nat \<Rightarrow> nat \<Rightarrow> (nat \<Rightarrow> 's \<Rightarrow> 's option) \<Rightarrow> 's \<Rightarrow> 's option" where
  "for_up i n body s = (if i < n then do { s \<leftarrow> body i s; for_up (Suc i) n body s } else Some s)"
  by pat_completeness auto
termination by (relation "measure (\<lambda>(i, n, body, s). n - i)") auto

function exit_up :: "nat \<Rightarrow> nat \<Rightarrow> (nat \<Rightarrow> bool option) \<Rightarrow> bool option" where
  "exit_up i n test = (if i < n then do { b \<leftarrow> test i; if b then Some True else exit_up (Suc i) n test }
     else Some False)"
  by pat_completeness auto
termination by (relation "measure (\<lambda>(i, n, test). n - i)") auto

declare for_up.simps [simp del] exit_up.simps [simp del]

lemma exit_up_iff:
  assumes "\<And>k. i \<le> k \<Longrightarrow> k < n \<Longrightarrow> test k = Some (t k)"
  shows "exit_up i n test = Some (\<exists>k. i \<le> k \<and> k < n \<and> t k)"
  using assms
proof (induction i n test rule: exit_up.induct)
  case (1 i n test)
  show ?case
  proof (cases "i < n")
    case True
    show ?thesis
    proof (cases "t i")
      case False
      then have "exit_up (Suc i) n test = Some (\<exists>k. Suc i \<le> k \<and> k < n \<and> t k)" using 1 True by auto
      moreover have "(\<exists>k. Suc i \<le> k \<and> k < n \<and> t k) = (\<exists>k. i \<le> k \<and> k < n \<and> t k)"
        using False by (metis Suc_leD not_less_eq_eq order_antisym)
      ultimately show ?thesis using 1(2) True False by (subst exit_up.simps) simp
    qed (use 1(2) True in \<open>subst exit_up.simps; auto\<close>)
  qed (subst exit_up.simps; auto)
qed

lemma for_up_inv:
  assumes "\<And>k s. i \<le> k \<Longrightarrow> k < n \<Longrightarrow> P k s \<Longrightarrow> \<exists>s'. body k s = Some s' \<and> P (Suc k) s'"
    and "P i s" and "i \<le> n"
  shows "\<exists>s'. for_up i n body s = Some s' \<and> P n s'"
  using assms
proof (induction i n body s rule: for_up.induct)
  case (1 i n body s)
  show ?case
  proof (cases "i < n")
    case True
    then obtain s' where s': "body i s = Some s'" "P (Suc i) s'" using 1(2) [of i s] 1(3) by auto
    moreover have "\<exists>s''. for_up (Suc i) n body s' = Some s'' \<and> P n s''"
      using 1(1) [OF True s'(1)] 1(2) s'(2) True by auto
    ultimately show ?thesis using True by (subst for_up.simps) auto
  qed (use 1(3,4) in \<open>subst for_up.simps; auto\<close>)
qed

text \<open>
  A loop that writes cell \<open>k\<close> of one array in pass \<open>k\<close>, from cells not yet written, and
  accumulates a value.
\<close>

definition blit :: "nat \<Rightarrow> (nat \<Rightarrow> 'a) \<Rightarrow> nat \<Rightarrow> 'a list \<Rightarrow> 'a list" where
  "blit i f n a = take i a @ map f [i..<n] @ drop n a"

lemma blit_props:
  assumes "i \<le> n" and "n \<le> length a"
  shows "length (blit i f n a) = length a"
    and "k < length a \<Longrightarrow> blit i f n a ! k = (if i \<le> k \<and> k < n then f k else a ! k)"
    and "i \<le> n \<Longrightarrow> n < length a \<Longrightarrow> (blit i f n a)[n := f n] = blit i f (Suc n) a"
proof -
  show l: "length (blit i f n a) = length a" using assms by (simp add: blit_def)
  show nth: "blit i f n a ! k = (if i \<le> k \<and> k < n then f k else a ! k)" if "k < length a" for k
    using assms that by (auto simp: blit_def nth_append)
  show "(blit i f n a)[n := f n] = blit i f (Suc n) a" if "i \<le> n" "n < length a"
    using that by (simp add: blit_def list_update_append Cons_nth_drop_Suc [symmetric])
qed

lemma for_up_blit:
  assumes body: "\<And>k a' r. i \<le> k \<Longrightarrow> k < n \<Longrightarrow> length a' = length a \<Longrightarrow>
      (\<And>j. k \<le> j \<Longrightarrow> j < length a \<Longrightarrow> a' ! j = a ! j) \<Longrightarrow>
      body k (r, m(d \<mapsto> a')) = Some (h k r, m(d \<mapsto> a'[k := f k]))"
    and n: "i \<le> n" "n \<le> length a" and m: "m d = Some a"
  shows "for_up i n body (r, m) = Some (fold h [i..<n] r, m(d \<mapsto> blit i f n a))"
proof -
  have "\<exists>s'. for_up i n body (r, m) = Some s' \<and> s' = (fold h [i..<n] r, m(d \<mapsto> blit i f n a))"
  proof (rule for_up_inv)
    fix k s assume k: "i \<le> k" "k < n" and s: "s = (fold h [i..<k] r, m(d \<mapsto> blit i f k a))"
    have "body k s = Some (h k (fold h [i..<k] r), m(d \<mapsto> (blit i f k a)[k := f k]))"
      unfolding s using k n by (intro body) (simp_all add: blit_props)
    then show "\<exists>s'. body k s = Some s' \<and> s' = (fold h [i..<Suc k] r, m(d \<mapsto> blit i f (Suc k) a))"
      using k n by (simp add: blit_props)
  qed (use n m in \<open>simp_all add: blit_def fun_upd_idem\<close>)
  then show ?thesis by blast
qed

lemma for_up_blit_store:
  assumes body: "\<And>k a'. i \<le> k \<Longrightarrow> k < n \<Longrightarrow> length a' = length a \<Longrightarrow>
      (\<And>j. k \<le> j \<Longrightarrow> j < length a \<Longrightarrow> a' ! j = a ! j) \<Longrightarrow>
      body k (m(d \<mapsto> a')) = Some (m(d \<mapsto> a'[k := f k]))"
    and n: "i \<le> n" "n \<le> length a" and m: "m d = Some a"
  shows "for_up i n body m = Some (m(d \<mapsto> blit i f n a))"
proof -
  have "\<exists>s'. for_up i n body m = Some s' \<and> s' = m(d \<mapsto> blit i f n a)"
  proof (rule for_up_inv)
    fix k s assume k: "i \<le> k" "k < n" and s: "s = m(d \<mapsto> blit i f k a)"
    have "body k s = Some (m(d \<mapsto> (blit i f k a)[k := f k]))"
      unfolding s using k n by (intro body) (simp_all add: blit_props)
    then show "\<exists>s'. body k s = Some s' \<and> s' = m(d \<mapsto> blit i f (Suc k) a)"
      using k n by (simp add: blit_props)
  qed (use n m in \<open>simp_all add: blit_def fun_upd_idem\<close>)
  then show ?thesis by blast
qed

section \<open>Bits of words\<close>

lemma bit_word_zero_iff: "(w :: 'a::len word) = 0 \<longleftrightarrow> (\<forall>n < LENGTH('a). \<not> bit w n)"
  by (metis bit_0_eq bit_word_eqI bot_apply bot_bool_def)

lemma word_neq0_bit: "(w :: 'a::len word) \<noteq> 0 \<longleftrightarrow> (\<exists>n < LENGTH('a). bit w n)"
  by (simp add: bit_word_zero_iff)

lemma bit_exp_word [simp]: "bit (2 ^ n :: 'a::len word) i \<longleftrightarrow> i = n \<and> n < LENGTH('a)"
  by (auto simp: bit_exp_iff possible_bit_word)

lemma bit_all_ones [simp]: "bit (-1 :: 'a::len word) i \<longleftrightarrow> i < LENGTH('a)"
  by (simp add: bit_minus_1_iff possible_bit_word)

lemma unat_and_mask: "unat (x AND mask k) = unat x mod 2 ^ k" for x :: "'a::len word"
  unfolding take_bit_eq_mask [symmetric] unsigned_take_bit_eq by (simp add: take_bit_eq_mod)

lemma and_not_mask_eq: "x AND NOT (mask k) = x - (x AND mask k)" for x :: "'a::len word"
proof -
  have "(x AND mask k) + (x AND NOT (mask k)) = (x AND mask k) OR (x AND NOT (mask k))"
    by (rule disjunctive_add_eq_or) (auto simp: bit_eq_iff bit_simps)
  also have "\<dots> = x" by (auto simp: bit_eq_iff bit_simps)
  finally show ?thesis by (metis add_diff_cancel_left')
qed

lemma unat_and_not_mask: "unat (x AND NOT (mask k)) = unat x - unat x mod 2 ^ k" for x :: "'a::len word"
proof -
  have "x AND mask k \<le> x" unfolding word_le_nat_alt unat_and_mask by simp
  then show ?thesis by (simp only: and_not_mask_eq unat_sub unat_and_mask)
qed

lemma unat_and_63: "unat (x AND 63 :: u64) = unat x mod 64"
  using unat_and_mask [of x 6] by (simp add: mask_eq_exp_minus_1)

lemma unat_and_not_63: "unat (x AND NOT 63 :: u64) = 64 * (unat x div 64)"
  using unat_and_not_mask [of x 6] by (simp add: mask_eq_exp_minus_1 minus_mod_eq_mult_div)

lemma unat_bound: "unat w < 2 ^ LENGTH('a)" for w :: "'a::len word"
  by (rule unsigned_less)

lemma unat_of_nat_le: "n \<le> unat w \<Longrightarrow> unat (of_nat n :: 'a word) = n" for w :: "'a::len word"
  by (metis le_less_trans mod_less unat_bound unat_of_nat)

lemma word_of_unat: "unat w = n \<Longrightarrow> w = of_nat n" for w :: "'a::len word"
  by (metis of_nat_unat ucast_id)

lemma unat_Suc: "unat b < unat w \<Longrightarrow> unat (b + 1) = Suc (unat b)" for b w :: "'a::len word"
proof -
  assume "unat b < unat w"
  then have "unat b + unat (1 :: 'a word) < 2 ^ LENGTH('a)" using unat_bound [of w] unat_1 [where 'a = 'a] by linarith
  then show ?thesis using unat_add_lem [of b 1] by simp
qed

section \<open>The first node of a sequence\<close>

definition first_of :: "addr list \<Rightarrow> addr" where
  "first_of xs = (case xs of [] \<Rightarrow> NULL | x # _ \<Rightarrow> x)"

lemma first_of_simps [simp]: "first_of [] = NULL" "first_of (x # xs) = x"
  by (simp_all add: first_of_def)

section \<open>Chains of successors and predecessors\<close>

text \<open>
  Every two neighbours of the list are linked in both directions by the successor function
  \<open>f\<close> and the predecessor function \<open>g\<close>; a cyclic list repeats its first element at the end.
\<close>

fun links :: "('a \<Rightarrow> 'a option) \<Rightarrow> ('a \<Rightarrow> 'a option) \<Rightarrow> 'a list \<Rightarrow> bool" where
  "links f g (a # b # xs) \<longleftrightarrow> f a = Some b \<and> g b = Some a \<and> links f g (b # xs)"
| "links f g xs \<longleftrightarrow> True"

lemma links_append: "links f g (xs @ y # ys) \<longleftrightarrow> links f g (xs @ [y]) \<and> links f g (y # ys)"
proof (induction xs)
  case Nil
  then show ?case by simp
next
  case (Cons x xs)
  then show ?case by (cases xs) auto
qed

lemma links_upd_succ: "p \<notin> set (butlast xs) \<Longrightarrow> links (f(p := v)) g xs = links f g xs"
  by (induction f g xs rule: links.induct) auto

lemma links_upd_pred: "p \<notin> set (tl xs) \<Longrightarrow> links f (g(p := v)) xs = links f g xs"
  by (induction f g xs rule: links.induct) auto

lemma links_snoc: "links f g (xs @ [y, z]) \<longleftrightarrow>
    links f g (xs @ [y]) \<and> f y = Some z \<and> g z = Some y"
  by (subst links_append) simp

lemma links_cong:
  "(\<And>a. a \<in> set (butlast xs) \<Longrightarrow> f a = f' a) \<Longrightarrow> (\<And>a. a \<in> set (tl xs) \<Longrightarrow> g a = g' a) \<Longrightarrow>
   links f g xs = links f' g' xs"
  by (induction f g xs rule: links.induct) auto

lemma notin_tl: "x \<notin> set xs \<Longrightarrow> x \<notin> set (tl xs)"
  by (cases xs) auto

lemma notin_butlast: "x \<notin> set xs \<Longrightarrow> x \<notin> set (butlast xs)"
  by (auto dest: in_set_butlastD)

lemma links_join:
  assumes "links f g (us @ [a])" and "links f g (b # vs)"
    and "a \<notin> set us" and "a \<notin> set (butlast (b # vs))"
    and "b \<notin> set (tl (us @ [a]))" and "b \<notin> set vs"
  shows "links (f(a \<mapsto> b)) (g(b \<mapsto> a)) (us @ a # b # vs)"
proof -
  have "links (f(a \<mapsto> b)) (g(b \<mapsto> a)) (us @ [a])"
    using assms by (simp add: links_upd_succ links_upd_pred)
  moreover have "links (f(a \<mapsto> b)) (g(b \<mapsto> a)) (b # vs)"
    using assms by (simp add: links_upd_succ links_upd_pred)
  ultimately show ?thesis
    by (subst links_append) simp
qed

lemma links_insert:
  assumes "links f g (us @ [a])" and "links f g (b # vs)"
    and "a \<notin> set us" and "a \<notin> set (butlast (b # vs))"
    and "b \<notin> set (tl (us @ [a]))" and "b \<notin> set vs"
    and n: "n \<notin> set us" "n \<notin> set vs" "n \<noteq> a" "n \<noteq> b"
  shows "links (f(n \<mapsto> b, a \<mapsto> n)) (g(b \<mapsto> n, n \<mapsto> a)) (us @ a # n # b # vs)"
proof -
  have "links (f(n \<mapsto> b)) (g(b \<mapsto> n)) ([] @ n # b # vs)"
    by (rule links_join) (use assms in \<open>auto simp: notin_butlast\<close>)
  moreover have "links (f(n \<mapsto> b)) (g(b \<mapsto> n)) (us @ [a])"
    using assms by (simp add: links_upd_succ links_upd_pred)
  ultimately show ?thesis
    using assms by (intro links_join) (auto simp: notin_butlast notin_tl)
qed

text \<open>A sequence of fallible steps, one per element.\<close>

fun steps :: "('a \<Rightarrow> 's \<Rightarrow> 's option) \<Rightarrow> 'a list \<Rightarrow> 's \<Rightarrow> 's option" where
  "steps f [] s = Some s"
| "steps f (x # xs) s = f x s \<bind> steps f xs"

section \<open>Comparison functions\<close>

text \<open>A user's comparison of keys: its sign orders them, as for \<^verbatim>\<open>strcmp\<close>.\<close>

definition cmp_ok :: "('k::linorder \<Rightarrow> 'k \<Rightarrow> int) \<Rightarrow> bool" where
  "cmp_ok cmp \<longleftrightarrow> (\<forall>a b. (cmp a b < 0 \<longleftrightarrow> a < b) \<and> (cmp a b > 0 \<longleftrightarrow> a > b))"

lemma cmp_cases:
  assumes "cmp_ok cmp"
  shows "cmp a b < 0 \<longleftrightarrow> a < b" and "cmp a b > 0 \<longleftrightarrow> b < a"
  using assms by (auto simp: cmp_ok_def)

text \<open>The least such comparison.\<close>

definition cmp3 :: "'k::linorder \<Rightarrow> 'k \<Rightarrow> int" where
  "cmp3 a b = (if a < b then -1 else if a > b then 1 else 0)"

lemma cmp_ok_cmp3 [simp]: "cmp_ok cmp3"
  by (auto simp: cmp_ok_def cmp3_def)

end
