(* ===== verification/Linked_Seq.thy ===== *)
theory Linked_Seq
  imports Libkern_Prelude
begin

text \<open>
  The contract that the two intrusive lists of libkern (\<^verbatim>\<open>list.h\<close> and \<^verbatim>\<open>hlist.h\<close>) share: a heap
  that represents sequences of nodes under head addresses, with insertion at the front, removal
  of a known entry and an emptiness test, each leaving lists with other nodes alone. The client
  facts proved here once are about a whole array of such lists in one heap, which is what the
  hash table keeps.
\<close>

locale linked_seq =
  fixes repr :: "'h \<Rightarrow> addr \<Rightarrow> addr list \<Rightarrow> bool"
    and usable :: "'h \<Rightarrow> addr \<Rightarrow> bool"
    and push :: "addr \<Rightarrow> addr \<Rightarrow> 'h \<Rightarrow> 'h option"
    and unlink :: "addr \<Rightarrow> 'h \<Rightarrow> 'h option"
    and is_empty :: "addr \<Rightarrow> 'h \<Rightarrow> bool option"
  assumes push_repr: "repr h p xs \<Longrightarrow> usable h n \<Longrightarrow> n \<notin> set (p # xs) \<Longrightarrow>
      \<exists>h'. push n p h = Some h' \<and> repr h' p (n # xs) \<and> (\<forall>x. usable h' x = usable h x) \<and>
        (\<forall>q ws. repr h q ws \<longrightarrow> set (q # ws) \<inter> insert n (set (p # xs)) = {} \<longrightarrow> repr h' q ws)"
    and unlink_repr: "repr h p (ys @ x # zs) \<Longrightarrow>
      \<exists>h'. unlink x h = Some h' \<and> repr h' p (ys @ zs) \<and> (\<forall>x. usable h' x = usable h x) \<and>
        (\<forall>q ws. repr h q ws \<longrightarrow> set (q # ws) \<inter> set (p # ys @ x # zs) = {} \<longrightarrow> repr h' q ws)"
    and is_empty_repr: "repr h p xs \<Longrightarrow> is_empty p h = Some (xs = [])"
    and repr_unique: "repr h p xs \<Longrightarrow> repr h p ys \<Longrightarrow> xs = ys"
begin

definition repr_all :: "'h \<Rightarrow> addr list \<Rightarrow> addr list list \<Rightarrow> bool" where
  "repr_all h ps xss \<longleftrightarrow> length xss = length ps \<and> (\<forall>i < length ps. repr h (ps ! i) (xss ! i)) \<and>
     (\<forall>i < length ps. \<forall>j < length ps. i \<noteq> j \<longrightarrow>
        set (ps ! i # xss ! i) \<inter> set (ps ! j # xss ! j) = {})"

lemma repr_all_upd:
  assumes r: "repr_all h ps xss" and i: "i < length ps" and new: "repr h' (ps ! i) ws"
    and fresh: "\<And>j. j < length ps \<Longrightarrow> j \<noteq> i \<Longrightarrow> set (ps ! j # xss ! j) \<inter> set ws = {}"
    and keep: "\<And>j. j < length ps \<Longrightarrow> j \<noteq> i \<Longrightarrow> repr h' (ps ! j) (xss ! j)"
  shows "repr_all h' ps (xss[i := ws])"
  unfolding repr_all_def
proof (intro conjI allI impI)
  show "length (xss[i := ws]) = length ps" using r by (simp add: repr_all_def)
next
  fix j assume "j < length ps"
  then show "repr h' (ps ! j) (xss[i := ws] ! j)"
    using r i new keep by (cases "j = i") (simp_all add: repr_all_def)
next
  fix j k assume jk: "j < length ps" "k < length ps" "j \<noteq> k"
  have old: "set (ps ! a # xss ! a) \<inter> set (ps ! b # xss ! b) = {}"
    if "a < length ps" "b < length ps" "a \<noteq> b" for a b
    using r that by (auto simp: repr_all_def)
  have len: "length xss = length ps" using r by (simp add: repr_all_def)
  show "set (ps ! j # xss[i := ws] ! j) \<inter> set (ps ! k # xss[i := ws] ! k) = {}"
    using old [OF jk] fresh [of j] fresh [of k] jk i len by (auto simp: nth_list_update)
qed

lemma push_all:
  assumes r: "repr_all h ps xss" and i: "i < length ps" and u: "usable h n"
    and n: "\<And>j. j < length ps \<Longrightarrow> n \<notin> set (ps ! j # xss ! j)"
  shows "\<exists>h'. push n (ps ! i) h = Some h' \<and> repr_all h' ps (xss[i := n # xss ! i]) \<and>
           (\<forall>x. usable h' x = usable h x)"
proof -
  have ri: "repr h (ps ! i) (xss ! i)" using r i by (simp add: repr_all_def)
  obtain h' where h': "push n (ps ! i) h = Some h'" "repr h' (ps ! i) (n # xss ! i)"
      "\<forall>x. usable h' x = usable h x"
      "\<forall>q ws. repr h q ws \<longrightarrow> set (q # ws) \<inter> insert n (set (ps ! i # xss ! i)) = {} \<longrightarrow> repr h' q ws"
    using push_repr [OF ri u n [OF i]] by blast
  have "repr_all h' ps (xss[i := n # xss ! i])"
    using r i h'(2)
  proof (rule repr_all_upd)
    fix j assume j: "j < length ps" "j \<noteq> i"
    have d: "set (ps ! j # xss ! j) \<inter> set (ps ! i # xss ! i) = {}" "repr h (ps ! j) (xss ! j)"
      using r i j by (auto simp: repr_all_def)
    with n [OF j(1)] show "set (ps ! j # xss ! j) \<inter> set (n # xss ! i) = {}" by auto
    from d n [OF j(1)] h'(4) show "repr h' (ps ! j) (xss ! j)" by auto
  qed
  with h' show ?thesis by blast
qed

lemma unlink_all:
  assumes r: "repr_all h ps xss" and i: "i < length ps" and x: "xss ! i = ys @ x # zs"
  shows "\<exists>h'. unlink x h = Some h' \<and> repr_all h' ps (xss[i := ys @ zs]) \<and>
           (\<forall>x. usable h' x = usable h x)"
proof -
  have ri: "repr h (ps ! i) (ys @ x # zs)" using r i unfolding repr_all_def x [symmetric] by blast
  obtain h' where h': "unlink x h = Some h'" "repr h' (ps ! i) (ys @ zs)"
      "\<forall>x. usable h' x = usable h x"
      "\<forall>q ws. repr h q ws \<longrightarrow> set (q # ws) \<inter> set (ps ! i # ys @ x # zs) = {} \<longrightarrow> repr h' q ws"
    using unlink_repr [OF ri] by blast
  have "repr_all h' ps (xss[i := ys @ zs])"
    using r i h'(2)
  proof (rule repr_all_upd)
    fix j assume j: "j < length ps" "j \<noteq> i"
    have d: "set (ps ! j # xss ! j) \<inter> set (ps ! i # xss ! i) = {}" "repr h (ps ! j) (xss ! j)"
      using r i j by (auto simp: repr_all_def)
    then show "set (ps ! j # xss ! j) \<inter> set (ys @ zs) = {}" using x by auto
    from d h'(4) show "repr h' (ps ! j) (xss ! j)" using x by auto
  qed
  with h' show ?thesis by blast
qed

text \<open>Insertion and removal are inverse on the represented sequence.\<close>

lemma push_unlink:
  assumes "repr h p xs" and "usable h n" and "n \<notin> set (p # xs)"
  shows "\<exists>h' h''. push n p h = Some h' \<and> unlink n h' = Some h'' \<and> repr h'' p xs"
  using push_repr [OF assms] unlink_repr [of _ p "[]" n xs] by fastforce

end

end
