(* ===== verification/List_Head.thy ===== *)
theory List_Head
  imports Linked_Seq
begin

text \<open>
  \<^verbatim>\<open>include/list.h\<close>: the circular doubly linked list. The heap of \<^verbatim>\<open>struct list_head\<close> is the
  state; every inline function is one definition, with its assignments in the order of the
  source; the iteration macros are loops over a body that may change the heap. The predicate
  \<open>clist h p xs\<close> says that the list headed by \<open>p\<close> holds the entries \<open>xs\<close>, and the lemmas show
  what each operation does to \<open>xs\<close>. A leading \<open>uu_\<close> stands for the two underscores of the C
  name.
\<close>

section \<open>Data and field accesses\<close>

record list_head =
  list_next :: addr
  list_prev :: addr

type_synonym list_heap = "list_head heap"

abbreviation rnext :: "list_heap \<Rightarrow> addr \<Rightarrow> addr option" where
  "rnext \<equiv> getf list_next"

abbreviation rprev :: "list_heap \<Rightarrow> addr \<Rightarrow> addr option" where
  "rprev \<equiv> getf list_prev"

definition set_next :: "addr \<Rightarrow> addr \<Rightarrow> list_heap \<Rightarrow> list_heap option" where
  "set_next p v = modf (list_next_update (\<lambda>_. v)) p"

definition set_prev :: "addr \<Rightarrow> addr \<Rightarrow> list_heap \<Rightarrow> list_heap option" where
  "set_prev p v = modf (list_prev_update (\<lambda>_. v)) p"

section \<open>Operations\<close>

text \<open>A declaration \<^verbatim>\<open>LIST_HEAD(name)\<close> gives new memory at the address of the variable its initial value.\<close>

definition LIST_HEAD_INIT :: "addr \<Rightarrow> list_head" where
  "LIST_HEAD_INIT name = \<lparr>list_next = name, list_prev = name\<rparr>"

definition LIST_HEAD :: "addr \<Rightarrow> list_heap \<Rightarrow> list_heap" where
  "LIST_HEAD name h = h(name \<mapsto> LIST_HEAD_INIT name)"

definition INIT_LIST_HEAD :: "addr \<Rightarrow> list_heap \<Rightarrow> list_heap option" where
  "INIT_LIST_HEAD list h = do {
     h \<leftarrow> set_next list list h;
     set_prev list list h }"

definition uu_list_add :: "addr \<Rightarrow> addr \<Rightarrow> addr \<Rightarrow> list_heap \<Rightarrow> list_heap option" where
  "uu_list_add new prev nxt h = do {
     h \<leftarrow> set_prev nxt new h;
     h \<leftarrow> set_next new nxt h;
     h \<leftarrow> set_prev new prev h;
     set_next prev new h }"

definition uu_list_del :: "addr \<Rightarrow> addr \<Rightarrow> list_heap \<Rightarrow> list_heap option" where
  "uu_list_del prev nxt h = do {
     h \<leftarrow> set_prev nxt prev h;
     set_next prev nxt h }"

definition uu_list_splice :: "addr \<Rightarrow> addr \<Rightarrow> addr \<Rightarrow> list_heap \<Rightarrow> list_heap option" where
  "uu_list_splice list prev nxt h = do {
     first \<leftarrow> rnext h list;
     last \<leftarrow> rprev h list;
     h \<leftarrow> set_prev first prev h;
     h \<leftarrow> set_next prev first h;
     h \<leftarrow> set_next last nxt h;
     set_prev nxt last h }"

definition uu_list_cut_position :: "addr \<Rightarrow> addr \<Rightarrow> addr \<Rightarrow> list_heap \<Rightarrow> list_heap option" where
  "uu_list_cut_position list head entry h = do {
     new_first \<leftarrow> rnext h entry;
     hn \<leftarrow> rnext h head;
     h \<leftarrow> set_next list hn h;
     ln \<leftarrow> rnext h list;
     h \<leftarrow> set_prev ln list h;
     h \<leftarrow> set_prev list entry h;
     h \<leftarrow> set_next entry list h;
     h \<leftarrow> set_next head new_first h;
     set_prev new_first head h }"

definition list_add :: "addr \<Rightarrow> addr \<Rightarrow> list_heap \<Rightarrow> list_heap option" where
  "list_add new head h = do {
     hn \<leftarrow> rnext h head;
     uu_list_add new head hn h }"

definition list_add_tail :: "addr \<Rightarrow> addr \<Rightarrow> list_heap \<Rightarrow> list_heap option" where
  "list_add_tail new head h = do {
     hp \<leftarrow> rprev h head;
     uu_list_add new hp head h }"

definition list_del :: "addr \<Rightarrow> list_heap \<Rightarrow> list_heap option" where
  "list_del entry h = do {
     ep \<leftarrow> rprev h entry;
     en \<leftarrow> rnext h entry;
     h \<leftarrow> uu_list_del ep en h;
     h \<leftarrow> set_next entry NULL h;
     set_prev entry NULL h }"

definition list_del_init :: "addr \<Rightarrow> list_heap \<Rightarrow> list_heap option" where
  "list_del_init entry h = do {
     ep \<leftarrow> rprev h entry;
     en \<leftarrow> rnext h entry;
     h \<leftarrow> uu_list_del ep en h;
     INIT_LIST_HEAD entry h }"

definition list_replace :: "addr \<Rightarrow> addr \<Rightarrow> list_heap \<Rightarrow> list_heap option" where
  "list_replace old new h = do {
     on \<leftarrow> rnext h old;
     h \<leftarrow> set_next new on h;
     nn \<leftarrow> rnext h new;
     h \<leftarrow> set_prev nn new h;
     op \<leftarrow> rprev h old;
     h \<leftarrow> set_prev new op h;
     np \<leftarrow> rprev h new;
     set_next np new h }"

definition list_replace_init :: "addr \<Rightarrow> addr \<Rightarrow> list_heap \<Rightarrow> list_heap option" where
  "list_replace_init old new h = do {
     h \<leftarrow> list_replace old new h;
     INIT_LIST_HEAD old h }"

definition list_move :: "addr \<Rightarrow> addr \<Rightarrow> list_heap \<Rightarrow> list_heap option" where
  "list_move list head h = do {
     lp \<leftarrow> rprev h list;
     ln \<leftarrow> rnext h list;
     h \<leftarrow> uu_list_del lp ln h;
     list_add list head h }"

definition list_move_tail :: "addr \<Rightarrow> addr \<Rightarrow> list_heap \<Rightarrow> list_heap option" where
  "list_move_tail list head h = do {
     lp \<leftarrow> rprev h list;
     ln \<leftarrow> rnext h list;
     h \<leftarrow> uu_list_del lp ln h;
     list_add_tail list head h }"

definition list_is_last :: "addr \<Rightarrow> addr \<Rightarrow> list_heap \<Rightarrow> bool option" where
  "list_is_last list head h = do {
     ln \<leftarrow> rnext h list;
     Some (ln = head) }"

definition list_empty :: "addr \<Rightarrow> list_heap \<Rightarrow> bool option" where
  "list_empty head h = do {
     hn \<leftarrow> rnext h head;
     Some (hn = head) }"

definition list_empty_careful :: "addr \<Rightarrow> list_heap \<Rightarrow> bool option" where
  "list_empty_careful head h = do {
     nxt \<leftarrow> rnext h head;
     if nxt = head then do { hp \<leftarrow> rprev h head; Some (nxt = hp) } else Some False }"

definition list_rotate_left :: "addr \<Rightarrow> list_heap \<Rightarrow> list_heap option" where
  "list_rotate_left head h = do {
     e \<leftarrow> list_empty head h;
     if \<not> e then do { first \<leftarrow> rnext h head; list_move_tail first head h } else Some h }"

definition list_is_singular :: "addr \<Rightarrow> list_heap \<Rightarrow> bool option" where
  "list_is_singular head h = do {
     e \<leftarrow> list_empty head h;
     if \<not> e then do { hn \<leftarrow> rnext h head; hp \<leftarrow> rprev h head; Some (hn = hp) } else Some False }"

text \<open>
  \<^verbatim>\<open>list_length\<close> counts in \<^verbatim>\<open>size_t\<close>. The loop follows \<^verbatim>\<open>next\<close> pointers until it meets the head
  again, which no syntactic measure bounds: not returning is \<^const>\<open>None\<close>.
\<close>

partial_function (option) list_length_loop :: "addr \<Rightarrow> list_heap \<Rightarrow> addr \<Rightarrow> u64 \<Rightarrow> u64 option" where
  "list_length_loop head h pos len =
     (if pos \<noteq> head then do { n \<leftarrow> rnext h pos; list_length_loop head h n (len + 1) }
      else Some len)"

definition list_length :: "addr \<Rightarrow> list_heap \<Rightarrow> u64 option" where
  "list_length head h = do {
     pos \<leftarrow> rnext h head;
     list_length_loop head h pos 0 }"

definition list_cut_position :: "addr \<Rightarrow> addr \<Rightarrow> addr \<Rightarrow> list_heap \<Rightarrow> list_heap option" where
  "list_cut_position list head entry h = do {
     e \<leftarrow> list_empty head h;
     if e then Some h else do {
       sing \<leftarrow> list_is_singular head h;
       hn \<leftarrow> rnext h head;
       if sing \<and> hn \<noteq> entry \<and> head \<noteq> entry then Some h
       else if entry = head then INIT_LIST_HEAD list h
       else uu_list_cut_position list head entry h } }"

definition list_splice :: "addr \<Rightarrow> addr \<Rightarrow> list_heap \<Rightarrow> list_heap option" where
  "list_splice list head h = do {
     e \<leftarrow> list_empty list h;
     if \<not> e then do { hn \<leftarrow> rnext h head; uu_list_splice list head hn h } else Some h }"

definition list_splice_tail :: "addr \<Rightarrow> addr \<Rightarrow> list_heap \<Rightarrow> list_heap option" where
  "list_splice_tail list head h = do {
     e \<leftarrow> list_empty list h;
     if \<not> e then do { hp \<leftarrow> rprev h head; uu_list_splice list hp head h } else Some h }"

definition list_splice_init :: "addr \<Rightarrow> addr \<Rightarrow> list_heap \<Rightarrow> list_heap option" where
  "list_splice_init list head h = do {
     e \<leftarrow> list_empty list h;
     if \<not> e then do {
       hn \<leftarrow> rnext h head;
       h \<leftarrow> uu_list_splice list head hn h;
       INIT_LIST_HEAD list h } else Some h }"

definition list_splice_tail_init :: "addr \<Rightarrow> addr \<Rightarrow> list_heap \<Rightarrow> list_heap option" where
  "list_splice_tail_init list head h = do {
     e \<leftarrow> list_empty list h;
     if \<not> e then do {
       hp \<leftarrow> rprev h head;
       h \<leftarrow> uu_list_splice list hp head h;
       INIT_LIST_HEAD list h } else Some h }"

section \<open>Iteration macros\<close>

text \<open>
  The body of a loop gets the cursor and the state (the heap and whatever else the caller
  keeps, of type \<open>'s\<close>). \<open>list_for_each\<close> reads the successor after the body,
  \<open>list_for_each_safe\<close> before it. The backward macros follow \<^verbatim>\<open>prev\<close>.
\<close>

type_synonym 's list_body = "addr \<Rightarrow> list_heap \<times> 's \<Rightarrow> (list_heap \<times> 's) option"

partial_function (option) for_each_loop ::
  "(list_heap \<Rightarrow> addr \<Rightarrow> addr option) \<Rightarrow> addr \<Rightarrow> 's list_body \<Rightarrow> addr \<Rightarrow> list_heap \<times> 's \<Rightarrow>
   (list_heap \<times> 's) option" where
  "for_each_loop step head body pos st =
     (if pos \<noteq> head then do {
        st \<leftarrow> body pos st;
        n \<leftarrow> step (fst st) pos;
        for_each_loop step head body n st }
      else Some st)"

definition list_for_each :: "addr \<Rightarrow> 's list_body \<Rightarrow> list_heap \<times> 's \<Rightarrow> (list_heap \<times> 's) option" where
  "list_for_each head body st = do {
     pos \<leftarrow> rnext (fst st) head;
     for_each_loop rnext head body pos st }"

definition list_for_each_prev :: "addr \<Rightarrow> 's list_body \<Rightarrow> list_heap \<times> 's \<Rightarrow> (list_heap \<times> 's) option" where
  "list_for_each_prev head body st = do {
     pos \<leftarrow> rprev (fst st) head;
     for_each_loop rprev head body pos st }"

partial_function (option) for_each_safe_loop ::
  "(list_heap \<Rightarrow> addr \<Rightarrow> addr option) \<Rightarrow> addr \<Rightarrow> 's list_body \<Rightarrow> addr \<Rightarrow> addr \<Rightarrow> list_heap \<times> 's \<Rightarrow>
   (list_heap \<times> 's) option" where
  "for_each_safe_loop step head body pos n st =
     (if pos \<noteq> head then do {
        st \<leftarrow> body pos st;
        n' \<leftarrow> step (fst st) n;
        for_each_safe_loop step head body n n' st }
      else Some st)"

definition list_for_each_safe :: "addr \<Rightarrow> 's list_body \<Rightarrow> list_heap \<times> 's \<Rightarrow> (list_heap \<times> 's) option" where
  "list_for_each_safe head body st = do {
     pos \<leftarrow> rnext (fst st) head;
     n \<leftarrow> rnext (fst st) pos;
     for_each_safe_loop rnext head body pos n st }"

definition list_for_each_prev_safe ::
  "addr \<Rightarrow> 's list_body \<Rightarrow> list_heap \<times> 's \<Rightarrow> (list_heap \<times> 's) option" where
  "list_for_each_prev_safe head body st = do {
     pos \<leftarrow> rprev (fst st) head;
     n \<leftarrow> rprev (fst st) pos;
     for_each_safe_loop rprev head body pos n st }"

text \<open>
  The typed macros run over the structs that embed the \<^verbatim>\<open>list_head\<close> as \<^verbatim>\<open>member\<close>; \<open>off\<close> is
  \<^verbatim>\<open>offsetof(type, member)\<close>, and \<^verbatim>\<open>container_of\<close> subtracts it.
\<close>

definition container_of :: "addr \<Rightarrow> u64 \<Rightarrow> addr" where
  "container_of ptr off = ptr - off"

definition list_entry :: "addr \<Rightarrow> u64 \<Rightarrow> addr" where
  "list_entry ptr off = container_of ptr off"

definition list_first_entry :: "addr \<Rightarrow> u64 \<Rightarrow> list_heap \<Rightarrow> addr option" where
  "list_first_entry ptr off h = do { n \<leftarrow> rnext h ptr; Some (list_entry n off) }"

definition list_next_entry :: "addr \<Rightarrow> u64 \<Rightarrow> list_heap \<Rightarrow> addr option" where
  "list_next_entry pos off h = do { n \<leftarrow> rnext h (pos + off); Some (list_entry n off) }"

definition list_prepare_entry :: "addr \<Rightarrow> addr \<Rightarrow> u64 \<Rightarrow> addr" where
  "list_prepare_entry pos head off = (if pos \<noteq> NULL then pos else list_entry head off)"

partial_function (option) entry_loop ::
  "(list_heap \<Rightarrow> addr \<Rightarrow> addr option) \<Rightarrow> u64 \<Rightarrow> addr \<Rightarrow> 's list_body \<Rightarrow> addr \<Rightarrow> list_heap \<times> 's \<Rightarrow>
   (list_heap \<times> 's) option" where
  "entry_loop step off head body pos st =
     (if pos + off \<noteq> head then do {
        st \<leftarrow> body pos st;
        n \<leftarrow> step (fst st) (pos + off);
        entry_loop step off head body (list_entry n off) st }
      else Some st)"

definition list_for_each_entry ::
  "u64 \<Rightarrow> addr \<Rightarrow> 's list_body \<Rightarrow> list_heap \<times> 's \<Rightarrow> (list_heap \<times> 's) option" where
  "list_for_each_entry off head body st = do {
     n \<leftarrow> rnext (fst st) head;
     entry_loop rnext off head body (list_entry n off) st }"

definition list_for_each_entry_reverse ::
  "u64 \<Rightarrow> addr \<Rightarrow> 's list_body \<Rightarrow> list_heap \<times> 's \<Rightarrow> (list_heap \<times> 's) option" where
  "list_for_each_entry_reverse off head body st = do {
     n \<leftarrow> rprev (fst st) head;
     entry_loop rprev off head body (list_entry n off) st }"

definition list_for_each_entry_continue ::
  "u64 \<Rightarrow> addr \<Rightarrow> 's list_body \<Rightarrow> addr \<Rightarrow> list_heap \<times> 's \<Rightarrow> (list_heap \<times> 's) option" where
  "list_for_each_entry_continue off head body pos st = do {
     n \<leftarrow> rnext (fst st) (pos + off);
     entry_loop rnext off head body (list_entry n off) st }"

definition list_for_each_entry_continue_reverse ::
  "u64 \<Rightarrow> addr \<Rightarrow> 's list_body \<Rightarrow> addr \<Rightarrow> list_heap \<times> 's \<Rightarrow> (list_heap \<times> 's) option" where
  "list_for_each_entry_continue_reverse off head body pos st = do {
     n \<leftarrow> rprev (fst st) (pos + off);
     entry_loop rprev off head body (list_entry n off) st }"

definition list_for_each_entry_from ::
  "u64 \<Rightarrow> addr \<Rightarrow> 's list_body \<Rightarrow> addr \<Rightarrow> list_heap \<times> 's \<Rightarrow> (list_heap \<times> 's) option" where
  "list_for_each_entry_from off head body pos st = entry_loop rnext off head body pos st"

partial_function (option) entry_safe_loop ::
  "(list_heap \<Rightarrow> addr \<Rightarrow> addr option) \<Rightarrow> u64 \<Rightarrow> addr \<Rightarrow> 's list_body \<Rightarrow> addr \<Rightarrow> addr \<Rightarrow>
   list_heap \<times> 's \<Rightarrow> (list_heap \<times> 's) option" where
  "entry_safe_loop step off head body pos n st =
     (if pos + off \<noteq> head then do {
        st \<leftarrow> body pos st;
        n' \<leftarrow> step (fst st) (n + off);
        entry_safe_loop step off head body n (list_entry n' off) st }
      else Some st)"

definition list_for_each_entry_safe ::
  "u64 \<Rightarrow> addr \<Rightarrow> 's list_body \<Rightarrow> list_heap \<times> 's \<Rightarrow> (list_heap \<times> 's) option" where
  "list_for_each_entry_safe off head body st = do {
     p \<leftarrow> rnext (fst st) head;
     let pos = list_entry p off;
     n \<leftarrow> rnext (fst st) (pos + off);
     entry_safe_loop rnext off head body pos (list_entry n off) st }"

definition list_for_each_entry_safe_continue ::
  "u64 \<Rightarrow> addr \<Rightarrow> 's list_body \<Rightarrow> addr \<Rightarrow> list_heap \<times> 's \<Rightarrow> (list_heap \<times> 's) option" where
  "list_for_each_entry_safe_continue off head body pos st = do {
     p \<leftarrow> rnext (fst st) (pos + off);
     let pos = list_entry p off;
     n \<leftarrow> rnext (fst st) (pos + off);
     entry_safe_loop rnext off head body pos (list_entry n off) st }"

definition list_for_each_entry_safe_from ::
  "u64 \<Rightarrow> addr \<Rightarrow> 's list_body \<Rightarrow> addr \<Rightarrow> list_heap \<times> 's \<Rightarrow> (list_heap \<times> 's) option" where
  "list_for_each_entry_safe_from off head body pos st = do {
     n \<leftarrow> rnext (fst st) (pos + off);
     entry_safe_loop rnext off head body pos (list_entry n off) st }"

definition list_for_each_entry_safe_reverse ::
  "u64 \<Rightarrow> addr \<Rightarrow> 's list_body \<Rightarrow> list_heap \<times> 's \<Rightarrow> (list_heap \<times> 's) option" where
  "list_for_each_entry_safe_reverse off head body st = do {
     p \<leftarrow> rprev (fst st) head;
     let pos = list_entry p off;
     n \<leftarrow> rprev (fst st) (pos + off);
     entry_safe_loop rprev off head body pos (list_entry n off) st }"

definition list_safe_reset_next :: "addr \<Rightarrow> u64 \<Rightarrow> list_heap \<Rightarrow> addr option" where
  "list_safe_reset_next pos off h = do { n \<leftarrow> rnext h (pos + off); Some (list_entry n off) }"

section \<open>Field updates as function updates\<close>

definition wnext :: "addr \<Rightarrow> addr \<Rightarrow> list_heap \<Rightarrow> list_heap" where
  "wnext p v h = h(p \<mapsto> (the (h p))\<lparr>list_next := v\<rparr>)"

definition wprev :: "addr \<Rightarrow> addr \<Rightarrow> list_heap \<Rightarrow> list_heap" where
  "wprev p v h = h(p \<mapsto> (the (h p))\<lparr>list_prev := v\<rparr>)"

lemma set_next_valid [heap_simps]: "valid h p \<Longrightarrow> set_next p v h = Some (wnext p v h)"
  by (auto simp: set_next_def modf_def wnext_def deref_def valid_def)

lemma set_prev_valid [heap_simps]: "valid h p \<Longrightarrow> set_prev p v h = Some (wprev p v h)"
  by (auto simp: set_prev_def modf_def wprev_def deref_def valid_def)

lemma valid_w [heap_simps]:
  "valid h p \<Longrightarrow> valid (wnext p v h) q = valid h q"
  "valid h p \<Longrightarrow> valid (wprev p v h) q = valid h q"
  by (auto simp: valid_def wnext_def wprev_def)

lemma rd_w [heap_simps]:
  "valid h p \<Longrightarrow> rnext (wnext p v h) = (rnext h)(p \<mapsto> v)"
  "valid h p \<Longrightarrow> rprev (wnext p v h) = rprev h"
  "valid h p \<Longrightarrow> rprev (wprev p v h) = (rprev h)(p \<mapsto> v)"
  "valid h p \<Longrightarrow> rnext (wprev p v h) = rnext h"
  by (auto simp: fun_eq_iff valid_def wnext_def wprev_def getf_def deref_def)

section \<open>Lists in the heap\<close>

definition clist :: "list_heap \<Rightarrow> addr \<Rightarrow> addr list \<Rightarrow> bool" where
  "clist h p xs \<longleftrightarrow> distinct (p # xs) \<and> links (rnext h) (rprev h) (p # xs @ [p])"

lemma links_valid: "links (rnext h) (rprev h) xs \<Longrightarrow> 2 \<le> length xs \<Longrightarrow> a \<in> set xs \<Longrightarrow> valid h a"
proof (induction "rnext h" "rprev h" xs rule: links.induct)
  case (1 x y xs)
  then show ?case by (cases xs) (auto dest: getf_Some_valid)
qed auto

lemma clist_valid: "clist h p xs \<Longrightarrow> a \<in> set (p # xs) \<Longrightarrow> valid h a"
  using links_valid [of h "p # xs @ [p]" a] by (auto simp: clist_def)

lemma clist_split:
  "clist h p (ys @ zs) \<longleftrightarrow> distinct (p # ys @ zs) \<and>
     links (rnext h) (rprev h) (butlast (p # ys) @ [last (p # ys)]) \<and>
     links (rnext h) (rprev h) (hd (zs @ [p]) # tl (zs @ [p])) \<and>
     rnext h (last (p # ys)) = Some (hd (zs @ [p])) \<and>
     rprev h (hd (zs @ [p])) = Some (last (p # ys))"
proof -
  have "p # (ys @ zs) @ [p] = butlast (p # ys) @ last (p # ys) # hd (zs @ [p]) # tl (zs @ [p])"
    by (cases ys rule: rev_cases; cases zs) auto
  then have "links (rnext h) (rprev h) (p # (ys @ zs) @ [p]) \<longleftrightarrow>
     links (rnext h) (rprev h) (butlast (p # ys) @ [last (p # ys)]) \<and>
     links (rnext h) (rprev h) (last (p # ys) # hd (zs @ [p]) # tl (zs @ [p]))"
    by (metis links_append)
  then show ?thesis unfolding clist_def links.simps append.assoc by blast
qed

text \<open>The two ends of a split of the cycle: where an entry is inserted, deleted or spliced.\<close>

lemma split_ends:
  assumes "distinct (p # ys @ zs)"
  shows "last (p # ys) \<in> set (p # ys)" and "hd (zs @ [p]) \<in> set (p # zs)"
    and "last (p # ys) \<notin> set (butlast (p # ys))"
    and "last (p # ys) \<notin> set (butlast (hd (zs @ [p]) # tl (zs @ [p])))"
    and "hd (zs @ [p]) \<notin> set (tl (butlast (p # ys) @ [last (p # ys)]))"
    and "hd (zs @ [p]) \<notin> set (tl (zs @ [p]))"
proof -
  show "last (p # ys) \<in> set (p # ys)" and "hd (zs @ [p]) \<in> set (p # zs)"
    by (cases ys rule: rev_cases; simp) (cases zs; simp)
  show "last (p # ys) \<notin> set (butlast (p # ys))"
    using assms by (cases ys rule: rev_cases) auto
  show "last (p # ys) \<notin> set (butlast (hd (zs @ [p]) # tl (zs @ [p])))"
    using assms by (cases zs; cases ys rule: rev_cases) auto
  show "hd (zs @ [p]) \<notin> set (tl (butlast (p # ys) @ [last (p # ys)]))"
    using assms by (cases zs; cases ys rule: rev_cases) auto
  show "hd (zs @ [p]) \<notin> set (tl (zs @ [p]))"
    using assms by (cases zs) auto
qed

lemma cycle_eq:
  assumes "p # ys = us @ [a]" and "zs @ [p] = b # vs"
  shows "p # (ys @ ws @ zs) @ [p] = us @ a # ws @ b # vs"
proof -
  have "p # (ys @ ws @ zs) @ [p] = (p # ys) @ ws @ (zs @ [p])" by simp
  also have "\<dots> = us @ a # ws @ b # vs" unfolding assms by simp
  finally show ?thesis .
qed

text \<open>A cut of the cycle between two neighbours, with what the pointer surgery needs to know.\<close>

lemma clist_cutE:
  assumes c: "clist h p (ys @ zs)"
  obtains us a b vs where
    "p # ys = us @ [a]" and "zs @ [p] = b # vs" and "last (p # ys) = a" and "hd (zs @ [p]) = b"
    and "links (rnext h) (rprev h) (us @ [a])" and "links (rnext h) (rprev h) (b # vs)"
    and "rnext h a = Some b" and "rprev h b = Some a" and "valid h a" and "valid h b"
    and "a \<notin> set us" and "a \<notin> set (butlast (b # vs))"
    and "b \<notin> set (tl (us @ [a]))" and "b \<notin> set vs"
    and "set us \<subseteq> insert p (set ys)" and "set vs \<subseteq> insert p (set zs)"
    and "a \<in> insert p (set ys)" and "b \<in> insert p (set zs)"
proof (rule that [of "butlast (p # ys)" "last (p # ys)" "hd (zs @ [p])" "tl (zs @ [p])"])
  from c have d: "distinct (p # ys @ zs)" by (simp add: clist_def)
  note e = split_ends [OF d]
  show "valid h (last (p # ys))" and "valid h (hd (zs @ [p]))"
    using clist_valid [OF c] e(1,2) by auto
  show "set (butlast (p # ys)) \<subseteq> insert p (set ys)"
    by (auto dest: in_set_butlastD)
  show "set (tl (zs @ [p])) \<subseteq> insert p (set zs)" by (cases zs) auto
  show "last (p # ys) \<in> insert p (set ys)" and "hd (zs @ [p]) \<in> insert p (set zs)"
    using e(1,2) by simp_all
qed (use c [unfolded clist_split] split_ends [of p ys zs] in simp_all)

section \<open>What the operations do to the list\<close>

lemma uu_list_add_clist:
  assumes c: "clist h p (ys @ zs)" and v: "valid h new" and n: "new \<notin> set (p # ys @ zs)"
  shows "\<exists>h'. uu_list_add new (last (p # ys)) (hd (zs @ [p])) h = Some h' \<and>
           clist h' p (ys @ new # zs) \<and>
           (\<forall>a. a \<notin> insert new (set (p # ys @ zs)) \<longrightarrow> h' a = h a)"
proof -
  obtain us a b vs where eq: "p # ys = us @ [a]" "zs @ [p] = b # vs" "last (p # ys) = a" "hd (zs @ [p]) = b"
    and cut: "links (rnext h) (rprev h) (us @ [a])" "links (rnext h) (rprev h) (b # vs)" "valid h a" "valid h b"
      "a \<notin> set us" "a \<notin> set (butlast (b # vs))" "b \<notin> set (tl (us @ [a]))" "b \<notin> set vs"
      "set us \<subseteq> insert p (set ys)" "set vs \<subseteq> insert p (set zs)" "a \<in> insert p (set ys)" "b \<in> insert p (set zs)"
    using c by (rule clist_cutE)
  define h' where "h' = wnext a new (wprev new a (wnext new b (wprev b new h)))"
  have r: "uu_list_add new a b h = Some h'"
    and f': "rnext h' = (rnext h)(new \<mapsto> b, a \<mapsto> new)" and g': "rprev h' = (rprev h)(b \<mapsto> new, new \<mapsto> a)"
    by (simp_all add: uu_list_add_def h'_def heap_simps cut v)
  have n': "new \<notin> set us" "new \<notin> set vs" "new \<noteq> a" "new \<noteq> b" using n cut by auto
  have "links (rnext h') (rprev h') (us @ a # new # b # vs)"
    unfolding f' g' using cut(1,2,5-8) n' by (rule links_insert)
  moreover have "p # (ys @ new # zs) @ [p] = us @ a # new # b # vs"
    using cycle_eq [OF eq(1,2), of "[new]"] by simp
  ultimately have "clist h' p (ys @ new # zs)"
    using c n unfolding clist_def by auto
  moreover have "\<forall>x. x \<notin> insert new (set (p # ys @ zs)) \<longrightarrow> h' x = h x"
    using cut by (auto simp: h'_def wnext_def wprev_def)
  ultimately show ?thesis using r unfolding eq(3,4) by blast
qed

lemma uu_list_del_clist:
  assumes c: "clist h p (ys @ x # zs)"
  shows "\<exists>h'. rprev h x = Some (last (p # ys)) \<and> rnext h x = Some (hd (zs @ [p])) \<and>
           uu_list_del (last (p # ys)) (hd (zs @ [p])) h = Some h' \<and> clist h' p (ys @ zs) \<and>
           (\<forall>a. a \<notin> set (p # ys @ zs) \<longrightarrow> h' a = h a)"
proof -
  from c have d: "distinct (p # ys @ x # zs)" by (simp add: clist_def)
  obtain us a where a: "p # ys = us @ [a]" "last (p # ys) = a"
    by (cases ys rule: rev_cases) auto
  obtain b vs where b: "zs @ [p] = b # vs" "hd (zs @ [p]) = b" by (cases zs) auto
  have "p # (ys @ x # zs) @ [p] = us @ a # x # b # vs"
    using cycle_eq [OF a(1) b(1), of "[x]"] by simp
  with c have "links (rnext h) (rprev h) (us @ a # x # b # vs)" by (simp add: clist_def)
  then have "links (rnext h) (rprev h) (us @ [a]) \<and> links (rnext h) (rprev h) (a # x # b # vs)"
    by (rule links_append [THEN iffD1])
  then have l: "links (rnext h) (rprev h) (us @ [a])" "links (rnext h) (rprev h) (b # vs)"
      "rprev h x = Some a" "rnext h x = Some b"
    by simp_all
  have d': "distinct (p # ys @ zs)" using d by auto
  note e = split_ends [OF d']
  have m: "a \<in> insert p (set ys)" "b \<in> insert p (set zs)"
    using e(1,2) unfolding a(2) b(2) by simp_all
  have v: "valid h a" "valid h b" using clist_valid [OF c] m by auto
  define h' where "h' = wnext a b (wprev b a h)"
  have r: "uu_list_del a b h = Some h'" and f: "rnext h' = (rnext h)(a \<mapsto> b)" "rprev h' = (rprev h)(b \<mapsto> a)"
    by (simp_all add: uu_list_del_def h'_def heap_simps v)
  have "links (rnext h') (rprev h') (us @ a # b # vs)"
    unfolding f using l e(3-6) [unfolded a b] by (intro links_join) simp_all
  moreover have "p # (ys @ zs) @ [p] = us @ a # b # vs"
    using cycle_eq [OF a(1) b(1), of "[]"] by simp
  ultimately have "clist h' p (ys @ zs)" using d' unfolding clist_def by simp
  moreover have "\<forall>y. y \<notin> set (p # ys @ zs) \<longrightarrow> h' y = h y"
    using m by (auto simp: h'_def wnext_def wprev_def)
  ultimately show ?thesis using r l(3,4) unfolding a(2) b(2) by blast
qed

lemma uu_list_splice_clist:
  assumes c: "clist h p (ys @ zs)" and l: "clist h q xs" and ne: "xs \<noteq> []"
    and disj: "set (q # xs) \<inter> set (p # ys @ zs) = {}"
  shows "\<exists>h'. uu_list_splice q (last (p # ys)) (hd (zs @ [p])) h = Some h' \<and>
           clist h' p (ys @ xs @ zs) \<and> valid h' q \<and>
           (\<forall>a. a \<notin> set xs \<union> set (p # ys @ zs) \<longrightarrow> h' a = h a)"
proof -
  obtain us a b vs where eq: "p # ys = us @ [a]" "zs @ [p] = b # vs" "last (p # ys) = a" "hd (zs @ [p]) = b"
    and cut: "links (rnext h) (rprev h) (us @ [a])" "links (rnext h) (rprev h) (b # vs)" "valid h a" "valid h b"
      "a \<notin> set us" "a \<notin> set (butlast (b # vs))" "b \<notin> set (tl (us @ [a]))" "b \<notin> set vs"
      "set us \<subseteq> insert p (set ys)" "set vs \<subseteq> insert p (set zs)" "a \<in> insert p (set ys)" "b \<in> insert p (set zs)"
    using c by (rule clist_cutE)
  obtain f ms where fm: "xs = f # ms" using ne by (cases xs) auto
  obtain ns e where ne: "xs = ns @ [e]" using ne by (cases xs rule: rev_cases) auto
  have "links (rnext h) (rprev h) ((q # ns) @ e # [q])"
    using l ne by (simp add: clist_def)
  then have "links (rnext h) (rprev h) (q # xs)" "rprev h q = Some e"
    using links_append [of "rnext h" "rprev h" "q # ns" e "[q]"] ne by simp_all
  then have lx: "links (rnext h) (rprev h) xs" "rnext h q = Some f" "rprev h q = Some e"
    using fm by simp_all
  have m: "f \<in> set xs" "e \<in> set xs" by (simp add: fm) (simp add: ne)
  have v: "valid h f" "valid h e" "valid h q" using clist_valid [OF l] m by auto
  have dx: "distinct xs" "q \<notin> set xs" using l by (auto simp: clist_def)
  have dj: "x \<in> set xs \<Longrightarrow> x \<noteq> p \<and> x \<notin> set ys \<and> x \<notin> set zs" for x using disj by auto
  define h' where "h' = wprev b e (wnext e b (wnext a f (wprev f a h)))"
  have r: "uu_list_splice q a b h = Some h'" and vq: "valid h' q"
    and f': "rnext h' = (rnext h)(a \<mapsto> f, e \<mapsto> b)" and g': "rprev h' = (rprev h)(f \<mapsto> a, b \<mapsto> e)"
    by (simp_all add: uu_list_splice_def h'_def heap_simps cut v lx)
  have de: "f \<notin> set ms" "e \<notin> set ns" using dx by (simp add: fm) (use dx in \<open>simp add: ne\<close>)
  have sub: "set ns \<subseteq> set xs" unfolding ne by auto
  have apart: "f \<notin> set (us @ [a])" "f \<notin> set (b # vs)" "e \<notin> set (us @ [a])" "e \<notin> set (b # vs)"
      "a \<notin> set xs" "b \<notin> set xs"
    using cut(9-12) dj [OF m(1)] dj [OF m(2)] dj [of a] dj [of b] by auto
  have "links ((rnext h)(a \<mapsto> f)) ((rprev h)(f \<mapsto> a)) (us @ a # f # ms)"
    using cut(1,5) lx(1) apart de fm
    by (intro links_join) (simp_all add: notin_tl notin_butlast del: butlast.simps)
  then have "links ((rnext h)(a \<mapsto> f)) ((rprev h)(f \<mapsto> a)) ((us @ a # ns) @ [e])"
    using fm ne by simp
  moreover have "links ((rnext h)(a \<mapsto> f)) ((rprev h)(f \<mapsto> a)) (b # vs)"
    using cut(2,6) apart by (simp add: links_upd_succ links_upd_pred)
  moreover have "b \<notin> set (tl ((us @ a # ns) @ [e]))"
    using cut(7) apart ne by (cases us) auto
  ultimately have "links (rnext h') (rprev h') ((us @ a # ns) @ e # b # vs)"
    unfolding f' g' using cut(8) de apart
    by (intro links_join) (simp_all add: notin_butlast del: butlast.simps)
  moreover have "p # (ys @ xs @ zs) @ [p] = (us @ a # ns) @ e # b # vs"
    using cycle_eq [OF eq(1,2), of xs] ne by simp
  ultimately have "clist h' p (ys @ xs @ zs)"
    using c dx dj unfolding clist_def by auto
  moreover have "\<forall>x. x \<notin> set xs \<union> set (p # ys @ zs) \<longrightarrow> h' x = h x"
    using cut m by (auto simp: h'_def wnext_def wprev_def)
  ultimately show ?thesis using r vq unfolding eq(3,4) by blast
qed

lemma uu_list_cut_position_clist:
  assumes c: "clist h p (ys @ e # zs)" and v: "valid h l" and n: "l \<notin> set (p # ys @ e # zs)"
  shows "\<exists>h'. uu_list_cut_position l p e h = Some h' \<and> clist h' l (ys @ [e]) \<and> clist h' p zs \<and>
           (\<forall>a. a \<notin> insert l (set (p # ys @ e # zs)) \<longrightarrow> h' a = h a)"
proof -
  have d: "distinct (p # ys @ e # zs)" using c by (simp add: clist_def)
  obtain f ms where f: "ys @ [e] = f # ms" by (cases ys) auto
  obtain b vs where b: "zs @ [p] = b # vs" by (cases zs) auto
  have "p # (ys @ e # zs) @ [p] = (p # ys) @ e # b # vs" using b by simp
  with c have "links (rnext h) (rprev h) ((p # ys) @ e # b # vs)" by (simp add: clist_def)
  then have "links (rnext h) (rprev h) ((p # ys) @ [e]) \<and> links (rnext h) (rprev h) (e # b # vs)"
    by (rule links_append [THEN iffD1])
  then have lk: "links (rnext h) (rprev h) (f # ms)" "links (rnext h) (rprev h) (b # vs)"
      "rnext h p = Some f" "rnext h e = Some b"
    using f by simp_all
  have "distinct (f # ms)" "distinct (b # vs)" "butlast (b # vs) = zs"
    using d by (simp_all flip: f b)
  then have dj: "f \<notin> set ms" "b \<notin> set vs" "p \<notin> set (butlast (b # vs))" using d by simp_all
  have sf: "insert f (set ms) = insert e (set ys)" and sb: "insert b (set vs) = insert p (set zs)"
    using arg_cong [OF f, of set] arg_cong [OF b, of set] by simp_all
  have m: "f \<in> insert e (set ys)" "b \<in> insert p (set zs)" using sf sb by auto
  have va: "valid h f" "valid h b" "valid h p" "valid h e" using clist_valid [OF c] m by auto
  define h' where "h' = wprev b p (wnext p b (wnext e l (wprev l e (wprev f l (wnext l f h)))))"
  have r: "uu_list_cut_position l p e h = Some h'"
    and f': "rnext h' = (rnext h)(l \<mapsto> f, e \<mapsto> l, p \<mapsto> b)"
    and g': "rprev h' = (rprev h)(f \<mapsto> l, l \<mapsto> e, b \<mapsto> p)"
    by (simp_all add: uu_list_cut_position_def h'_def heap_simps va v lk)
  have ap: "l \<notin> insert e (set ys)" "b \<notin> insert e (set ys)" "p \<notin> insert e (set ys)" "l \<noteq> p" "l \<noteq> f" "l \<noteq> b"
      "e \<notin> insert b (set vs)" "f \<notin> insert b (set vs)" "l \<notin> insert b (set vs)" "l \<notin> set ms" "e \<notin> set ys"
    using d n m unfolding sb using sf by auto
  have "links ((rnext h)(l \<mapsto> f)) ((rprev h)(f \<mapsto> l)) ([] @ l # f # ms)"
    using lk(1) dj ap by (intro links_join) (auto simp: notin_butlast)
  then have "links ((rnext h)(l \<mapsto> f)) ((rprev h)(f \<mapsto> l)) ((l # ys) @ [e])" using f by simp
  then have "links ((rnext h)(l \<mapsto> f, e \<mapsto> l)) ((rprev h)(f \<mapsto> l, l \<mapsto> e)) ((l # ys) @ e # l # [])"
    using ap by (intro links_join) auto
  then have "links (rnext h') (rprev h') (l # (ys @ [e]) @ [l])"
    unfolding f' g' using ap by (subst links_upd_succ, simp add: notin_butlast butlast_append, subst links_upd_pred) auto
  moreover have "links ((rnext h)(l \<mapsto> f, e \<mapsto> l)) ((rprev h)(f \<mapsto> l, l \<mapsto> e)) (b # vs)"
    using lk(2) ap by (simp add: links_upd_succ links_upd_pred notin_butlast)
  then have "links (rnext h') (rprev h') ([] @ p # b # vs)"
    unfolding f' g' using dj by (intro links_join) auto
  then have "links (rnext h') (rprev h') (p # zs @ [p])" using b by simp
  ultimately have "clist h' l (ys @ [e])" "clist h' p zs"
    using d ap by (auto simp: clist_def)
  moreover have "\<forall>x. x \<notin> insert l (set (p # ys @ e # zs)) \<longrightarrow> h' x = h x"
    using m by (auto simp: h'_def wnext_def wprev_def)
  ultimately show ?thesis using r by blast
qed

lemma list_replace_clist:
  assumes c: "clist h p (ys @ old # zs)" and v: "valid h new" and n: "new \<notin> set (p # ys @ old # zs)"
  shows "\<exists>h'. list_replace old new h = Some h' \<and> clist h' p (ys @ new # zs) \<and> valid h' old \<and>
           (\<forall>a. a \<notin> insert new (set (p # ys @ zs)) \<longrightarrow> h' a = h a)"
proof -
  have d: "distinct (p # ys @ old # zs)" using c by (simp add: clist_def)
  obtain us a where a: "p # ys = us @ [a]" "last (p # ys) = a" by (cases ys rule: rev_cases) auto
  obtain b vs where b: "zs @ [p] = b # vs" "hd (zs @ [p]) = b" by (cases zs) auto
  have "p # (ys @ old # zs) @ [p] = us @ a # old # b # vs"
    using cycle_eq [OF a(1) b(1), of "[old]"] by simp
  with c have "links (rnext h) (rprev h) (us @ a # old # b # vs)" by (simp add: clist_def)
  then have "links (rnext h) (rprev h) (us @ [a]) \<and> links (rnext h) (rprev h) (a # old # b # vs)"
    by (rule links_append [THEN iffD1])
  then have l: "links (rnext h) (rprev h) (us @ [a])" "links (rnext h) (rprev h) (b # vs)"
      "rprev h old = Some a" "rnext h old = Some b"
    by simp_all
  have d': "distinct (p # ys @ zs)" using d by auto
  note e = split_ends [OF d', unfolded a b]
  have sa: "insert a (set us) = insert p (set ys)" and sb: "insert b (set vs) = insert p (set zs)"
    using arg_cong [OF a(1), of set] arg_cong [OF b(1), of set] by simp_all
  have mem: "a \<in> insert p (set ys)" "b \<in> insert p (set zs)" "set us \<subseteq> insert p (set ys)" "set vs \<subseteq> insert p (set zs)"
    using sa sb by blast+
  have vd: "valid h a" "valid h b" "valid h old" using clist_valid [OF c] mem by auto
  have n': "new \<notin> set us" "new \<notin> set vs" "new \<noteq> a" "new \<noteq> b" "b \<noteq> old" "new \<noteq> old"
    using n d mem by auto
  define h' where "h' = wnext a new (wprev new a (wprev b new (wnext new b h)))"
  have r: "list_replace old new h = Some h'" and vo: "valid h' old"
    and f': "rnext h' = (rnext h)(new \<mapsto> b, a \<mapsto> new)" and g': "rprev h' = (rprev h)(b \<mapsto> new, new \<mapsto> a)"
    using n' by (simp_all add: list_replace_def h'_def heap_simps vd v l)
  have "links (rnext h') (rprev h') (us @ a # new # b # vs)"
    unfolding f' g' using l(1,2) e(3-6) n'(1-4) by (intro links_insert) simp_all
  then have "clist h' p (ys @ new # zs)"
    using d n cycle_eq [OF a(1) b(1), of "[new]"] unfolding clist_def by auto
  moreover have "\<forall>x. x \<notin> insert new (set (p # ys @ zs)) \<longrightarrow> h' x = h x"
    using mem by (auto simp: h'_def wnext_def wprev_def)
  ultimately show ?thesis using r vo by blast
qed

lemma clist_reads:
  assumes "clist h p xs"
  shows "rnext h p = Some (hd (xs @ [p]))" and "rprev h p = Some (last (p # xs))"
  using assms clist_split [of h p "[]" xs] clist_split [of h p xs "[]"] by auto

lemma clist_empty_iff:
  assumes c: "clist h p xs"
  shows "hd (xs @ [p]) = p \<longleftrightarrow> xs = []" and "last (p # xs) = p \<longleftrightarrow> xs = []"
proof -
  show "hd (xs @ [p]) = p \<longleftrightarrow> xs = []" using c by (cases xs) (auto simp: clist_def)
  show "last (p # xs) = p \<longleftrightarrow> xs = []" using c by (cases xs rule: rev_cases) (auto simp: clist_def)
qed

lemma clist_frame:
  assumes "clist h q ws" and "\<And>a. a \<in> set (q # ws) \<Longrightarrow> h' a = h a"
  shows "clist h' q ws"
proof -
  have "links (rnext h') (rprev h') (q # ws @ [q]) = links (rnext h) (rprev h) (q # ws @ [q])"
    using assms(2) by (intro links_cong) (auto simp: getf_def deref_def butlast_append)
  then show ?thesis using assms(1) by (simp add: clist_def)
qed

lemma clist_apart:
  "clist h q ws \<Longrightarrow> set (q # ws) \<inter> A = {} \<Longrightarrow> \<forall>a. a \<notin> A \<longrightarrow> h' a = h a \<Longrightarrow> clist h' q ws"
  by (erule clist_frame) blast

lemma valid_frame: "dom h' = dom h \<Longrightarrow> valid h' x = valid h x"
  by (simp add: valid_def)

lemma modf_dom: "modf u p h = Some h' \<Longrightarrow> dom h' = dom h"
  by (auto simp: modf_def deref_def split: option.splits if_splits)

lemma set_fields_dom:
  "set_next p v h = Some h' \<Longrightarrow> dom h' = dom h"
  "set_prev p v h = Some h' \<Longrightarrow> dom h' = dom h"
  unfolding set_next_def set_prev_def by (blast dest: modf_dom)+

lemma LIST_HEAD_empty: "p \<noteq> NULL \<Longrightarrow> clist (LIST_HEAD p h) p []"
  by (simp add: clist_def LIST_HEAD_def LIST_HEAD_INIT_def getf_def deref_def)

lemma init_clist:
  assumes "valid h p"
  shows "\<exists>h'. INIT_LIST_HEAD p h = Some h' \<and> clist h' p [] \<and> (\<forall>a. a \<noteq> p \<longrightarrow> h' a = h a) \<and> dom h' = dom h"
proof -
  have "INIT_LIST_HEAD p h = Some (wprev p p (wnext p p h))"
    and "clist (wprev p p (wnext p p h)) p []"
    using assms by (simp_all add: INIT_LIST_HEAD_def heap_simps clist_def)
  moreover have "dom (wprev p p (wnext p p h)) = dom h"
    using assms by (auto simp: wprev_def wnext_def valid_def)
  ultimately show ?thesis by (auto simp: wprev_def wnext_def)
qed

lemma uu_list_add_dom: "uu_list_add new a b h = Some h' \<Longrightarrow> dom h' = dom h"
  by (clarsimp simp: uu_list_add_def bind_Some_eq) (metis set_fields_dom)

lemma uu_list_del_dom: "uu_list_del a b h = Some h' \<Longrightarrow> dom h' = dom h"
  by (clarsimp simp: uu_list_del_def bind_Some_eq) (metis set_fields_dom)

lemma list_add_clist:
  assumes "clist h p xs" and "valid h new" and "new \<notin> set (p # xs)"
  shows "\<exists>h'. list_add new p h = Some h' \<and> clist h' p (new # xs) \<and> dom h' = dom h \<and>
           (\<forall>a. a \<notin> insert new (set (p # xs)) \<longrightarrow> h' a = h a)"
proof -
  obtain h' where "uu_list_add new p (hd (xs @ [p])) h = Some h'" "clist h' p (new # xs)"
      "\<forall>a. a \<notin> insert new (set (p # xs)) \<longrightarrow> h' a = h a"
    using uu_list_add_clist [of h p "[]" xs new] assms by auto
  with clist_reads [OF assms(1)] uu_list_add_dom show ?thesis
    unfolding list_add_def by (intro exI [of _ h']) simp
qed

lemma list_add_tail_clist:
  assumes "clist h p xs" and "valid h new" and "new \<notin> set (p # xs)"
  shows "\<exists>h'. list_add_tail new p h = Some h' \<and> clist h' p (xs @ [new]) \<and> dom h' = dom h \<and>
           (\<forall>a. a \<notin> insert new (set (p # xs)) \<longrightarrow> h' a = h a)"
proof -
  obtain h' where "uu_list_add new (last (p # xs)) p h = Some h'" "clist h' p (xs @ [new])"
      "\<forall>a. a \<notin> insert new (set (p # xs)) \<longrightarrow> h' a = h a"
    using uu_list_add_clist [of h p xs "[]" new] assms by auto
  with clist_reads [OF assms(1)] uu_list_add_dom show ?thesis
    unfolding list_add_tail_def by (intro exI [of _ h']) simp
qed

lemma list_del_clist:
  assumes c: "clist h p (ys @ x # zs)"
  shows "\<exists>h'. list_del x h = Some h' \<and> clist h' p (ys @ zs) \<and> dom h' = dom h \<and>
           h' x = Some \<lparr>list_next = NULL, list_prev = NULL\<rparr> \<and>
           (\<forall>a. a \<notin> set (p # ys @ x # zs) \<longrightarrow> h' a = h a)"
proof -
  have d: "distinct (p # ys @ x # zs)" and v: "valid h x" using c clist_valid [OF c] by (auto simp: clist_def)
  obtain h1 where h1: "rprev h x = Some (last (p # ys))" "rnext h x = Some (hd (zs @ [p]))"
      "uu_list_del (last (p # ys)) (hd (zs @ [p])) h = Some h1" "clist h1 p (ys @ zs)"
      "\<forall>a. a \<notin> set (p # ys @ zs) \<longrightarrow> h1 a = h a"
    using uu_list_del_clist [OF c] by blast
  have v1: "valid h1 x" using v uu_list_del_dom [OF h1(3)] by (simp add: valid_def)
  define h' where "h' = wprev x NULL (wnext x NULL h1)"
  have "list_del x h = Some h'"
    using h1(1-3) v1 by (simp add: list_del_def heap_simps h'_def)
  moreover have "clist h' p (ys @ zs)"
    using h1(4) by (rule clist_frame) (use d in \<open>auto simp: h'_def wnext_def wprev_def\<close>)
  moreover have "dom h' = dom h"
    using v1 uu_list_del_dom [OF h1(3)] by (auto simp: h'_def wnext_def wprev_def valid_def)
  moreover have "h' x = Some \<lparr>list_next = NULL, list_prev = NULL\<rparr>"
    by (simp add: h'_def wnext_def wprev_def)
  ultimately show ?thesis using h1(5) by (auto simp: h'_def wnext_def wprev_def)
qed

lemma list_empty_clist: "clist h p xs \<Longrightarrow> list_empty p h = Some (xs = [])"
  using clist_reads [of h p xs] clist_empty_iff [of h p xs] by (simp add: list_empty_def)

lemma clist_unique: "clist h p xs \<Longrightarrow> clist h p ys \<Longrightarrow> xs = ys"
proof -
  have "links f g (a # xs @ [p]) \<Longrightarrow> links f g (a # ys @ [p]) \<Longrightarrow> p \<notin> set xs \<Longrightarrow> p \<notin> set ys \<Longrightarrow> xs = ys"
    for f g :: "addr \<Rightarrow> addr option" and a xs ys
  proof (induction xs arbitrary: a ys)
    case Nil
    then show ?case by (cases ys) auto
  next
    case (Cons x xs)
    then show ?case by (cases ys) auto
  qed
  then show "clist h p xs \<Longrightarrow> clist h p ys \<Longrightarrow> xs = ys"
    by (auto simp: clist_def)
qed

interpretation lh: linked_seq clist valid list_add list_del list_empty
proof unfold_locales
  fix h p xs n assume "clist h p xs" "valid h n" "n \<notin> set (p # xs)"
  from list_add_clist [OF this] obtain h' where h': "list_add n p h = Some h'" "clist h' p (n # xs)"
      "dom h' = dom h" "\<forall>a. a \<notin> insert n (set (p # xs)) \<longrightarrow> h' a = h a" by blast
  then show "\<exists>h'. list_add n p h = Some h' \<and> clist h' p (n # xs) \<and> (\<forall>x. valid h' x = valid h x) \<and>
        (\<forall>q ws. clist h q ws \<longrightarrow> set (q # ws) \<inter> insert n (set (p # xs)) = {} \<longrightarrow> clist h' q ws)"
    using valid_frame [OF h'(3)] clist_apart [OF _ _ h'(4)] by blast
next
  fix h p ys x zs assume "clist h p (ys @ x # zs)"
  from list_del_clist [OF this] obtain h' where h': "list_del x h = Some h'" "clist h' p (ys @ zs)"
      "dom h' = dom h" "\<forall>a. a \<notin> set (p # ys @ x # zs) \<longrightarrow> h' a = h a" by blast
  then show "\<exists>h'. list_del x h = Some h' \<and> clist h' p (ys @ zs) \<and> (\<forall>x. valid h' x = valid h x) \<and>
        (\<forall>q ws. clist h q ws \<longrightarrow> set (q # ws) \<inter> set (p # ys @ x # zs) = {} \<longrightarrow> clist h' q ws)"
    using valid_frame [OF h'(3)] clist_apart [OF _ _ h'(4)] by blast
qed (auto intro: list_empty_clist clist_unique)

lemma clist_at:
  assumes "clist h p (ys @ x # zs)"
  shows "rnext h x = Some (hd (zs @ [p]))" and "rprev h x = Some (last (p # ys))"
  using assms clist_split [of h p "ys @ [x]" zs] clist_split [of h p ys "x # zs"] by auto

lemma list_del_init_clist:
  assumes c: "clist h p (ys @ x # zs)"
  shows "\<exists>h'. list_del_init x h = Some h' \<and> clist h' p (ys @ zs) \<and> clist h' x []"
proof -
  have d: "distinct (p # ys @ x # zs)" and v: "valid h x" using c clist_valid [OF c] by (auto simp: clist_def)
  obtain h1 where h1: "uu_list_del (last (p # ys)) (hd (zs @ [p])) h = Some h1" "clist h1 p (ys @ zs)"
    using uu_list_del_clist [OF c] by blast
  have "valid h1 x" using v uu_list_del_dom [OF h1(1)] by (simp add: valid_def)
  then obtain h' where h': "INIT_LIST_HEAD x h1 = Some h'" "clist h' x []" "\<forall>a. a \<noteq> x \<longrightarrow> h' a = h1 a"
    using init_clist by blast
  moreover have "clist h' p (ys @ zs)"
    using h1(2) by (rule clist_frame) (use d h'(3) in auto)
  ultimately show ?thesis using h1(1) clist_at [OF c] by (simp add: list_del_init_def)
qed

lemma list_move_clist:
  assumes c: "clist h p (ys @ x # zs)"
  shows "\<exists>h'. list_move x p h = Some h' \<and> clist h' p (x # ys @ zs)"
    and "\<exists>h'. list_move_tail x p h = Some h' \<and> clist h' p (ys @ zs @ [x])"
proof -
  have d: "distinct (p # ys @ x # zs)" and v: "valid h x" using c clist_valid [OF c] by (auto simp: clist_def)
  obtain h1 where h1: "uu_list_del (last (p # ys)) (hd (zs @ [p])) h = Some h1" "clist h1 p (ys @ zs)"
    using uu_list_del_clist [OF c] by blast
  have v1: "valid h1 x" using v uu_list_del_dom [OF h1(1)] by (simp add: valid_def)
  have n: "x \<notin> set (p # ys @ zs)" using d by auto
  show "\<exists>h'. list_move x p h = Some h' \<and> clist h' p (x # ys @ zs)"
    using list_add_clist [OF h1(2) v1 n] h1(1) clist_at [OF c] by (auto simp: list_move_def)
  show "\<exists>h'. list_move_tail x p h = Some h' \<and> clist h' p (ys @ zs @ [x])"
    using list_add_tail_clist [OF h1(2) v1 n] h1(1) clist_at [OF c] by (auto simp: list_move_tail_def)
qed

lemma list_rotate_left_clist:
  assumes c: "clist h p xs"
  shows "\<exists>h'. list_rotate_left p h = Some h' \<and> clist h' p (rotate1 xs)"
proof (cases xs)
  case Nil
  with c show ?thesis using list_empty_clist [OF c] by (simp add: list_rotate_left_def)
next
  case (Cons x zs)
  with c have "\<exists>h'. list_move_tail x p h = Some h' \<and> clist h' p (zs @ [x])"
    using list_move_clist(2) [of h p "[]" x zs] by simp
  then show ?thesis
    using list_empty_clist [OF c] clist_reads [OF c] Cons by (auto simp: list_rotate_left_def)
qed

lemma list_is_last_clist: "clist h p (ys @ x # zs) \<Longrightarrow> list_is_last x p h = Some (zs = [])"
  using clist_at [of h p ys x zs] by (cases zs) (auto simp: list_is_last_def clist_def)

lemma list_is_singular_clist:
  assumes c: "clist h p xs"
  shows "list_is_singular p h = Some (length xs = 1)"
proof -
  have "hd (xs @ [p]) = last (p # xs) \<longleftrightarrow> length xs = 1" if "xs \<noteq> []"
    using that c by (cases xs; cases "tl xs" rule: rev_cases) (auto simp: clist_def)
  then show ?thesis
    using list_empty_clist [OF c] clist_reads [OF c] by (auto simp: list_is_singular_def)
qed

lemma list_empty_careful_clist: "clist h p xs \<Longrightarrow> list_empty_careful p h = Some (xs = [])"
  using clist_reads [of h p xs] clist_empty_iff [of h p xs] by (auto simp: list_empty_careful_def)

lemma list_length_loop_clist:
  "clist h p (ys @ zs) \<Longrightarrow> list_length_loop p h (hd (zs @ [p])) n = Some (n + of_nat (length zs))"
proof (induction zs arbitrary: ys n)
  case Nil
  then show ?case by (subst list_length_loop.simps) simp
next
  case (Cons z zs)
  have "z \<noteq> p" using Cons.prems by (auto simp: clist_def)
  then show ?case
    using Cons.IH [of "ys @ [z]" "n + 1"] Cons.prems clist_at [OF Cons.prems]
    by (subst list_length_loop.simps) (simp add: ac_simps)
qed

lemma list_length_clist: "clist h p xs \<Longrightarrow> list_length p h = Some (of_nat (length xs))"
  using list_length_loop_clist [of h p "[]" xs 0] clist_reads [of h p xs]
  by (simp add: list_length_def)

lemma splice_clist:
  assumes c: "clist h p xs" and l: "clist h q ws" and disj: "set (q # ws) \<inter> set (p # xs) = {}"
  shows "\<exists>h'. list_splice q p h = Some h' \<and> clist h' p (ws @ xs)"
    and "\<exists>h'. list_splice_tail q p h = Some h' \<and> clist h' p (xs @ ws)"
    and "\<exists>h'. list_splice_init q p h = Some h' \<and> clist h' p (ws @ xs) \<and> clist h' q []"
    and "\<exists>h'. list_splice_tail_init q p h = Some h' \<and> clist h' p (xs @ ws) \<and> clist h' q []"
proof -
  have "(\<exists>h'. list_splice q p h = Some h' \<and> clist h' p (ws @ xs)) \<and>
    (\<exists>h'. list_splice_tail q p h = Some h' \<and> clist h' p (xs @ ws)) \<and>
    (\<exists>h'. list_splice_init q p h = Some h' \<and> clist h' p (ws @ xs) \<and> clist h' q []) \<and>
    (\<exists>h'. list_splice_tail_init q p h = Some h' \<and> clist h' p (xs @ ws) \<and> clist h' q [])"
  proof (cases "ws = []")
    case True
    then show ?thesis using c l list_empty_clist [OF l]
      by (simp add: list_splice_def list_splice_tail_def list_splice_init_def list_splice_tail_init_def)
  next
    case False
    obtain h1 where h1: "uu_list_splice q p (hd (xs @ [p])) h = Some h1" "clist h1 p (ws @ xs)" "valid h1 q"
      using uu_list_splice_clist [of h p "[]" xs, OF _ l False] c disj by auto
    obtain h2 where h2: "uu_list_splice q (last (p # xs)) p h = Some h2" "clist h2 p (xs @ ws)" "valid h2 q"
      using uu_list_splice_clist [of h p xs "[]", OF _ l False] c disj by auto
    have init: "\<exists>h'. INIT_LIST_HEAD q hh = Some h' \<and> clist h' p zs \<and> clist h' q []"
      if "clist hh p zs" "valid hh q" "q \<notin> set (p # zs)" for hh zs
      using init_clist [OF that(2)] clist_frame [OF that(1)] that(3) by metis
    have "q \<notin> set (p # ws @ xs)" "q \<notin> set (p # xs @ ws)" using disj l by (auto simp: clist_def)
    then show ?thesis
      using h1 h2 init [OF h1(2,3)] init [OF h2(2,3)] list_empty_clist [OF l] clist_reads [OF c] False
      by (simp add: list_splice_def list_splice_tail_def list_splice_init_def list_splice_tail_init_def)
  qed
  then show "\<exists>h'. list_splice q p h = Some h' \<and> clist h' p (ws @ xs)"
    and "\<exists>h'. list_splice_tail q p h = Some h' \<and> clist h' p (xs @ ws)"
    and "\<exists>h'. list_splice_init q p h = Some h' \<and> clist h' p (ws @ xs) \<and> clist h' q []"
    and "\<exists>h'. list_splice_tail_init q p h = Some h' \<and> clist h' p (xs @ ws) \<and> clist h' q []"
    by blast+
qed

section \<open>Iteration\<close>

lemma for_each_loop_fwd:
  assumes "clist h p (ys @ zs)" and "\<And>x t. x \<in> set zs \<Longrightarrow> body x (h, t) = Some (h, f x t)"
  shows "for_each_loop rnext p body (hd (zs @ [p])) (h, t) = Some (h, fold f zs t)"
  using assms
proof (induction zs arbitrary: ys t)
  case Nil
  then show ?case by (subst for_each_loop.simps) simp
next
  case (Cons z zs)
  have "z \<noteq> p" using Cons.prems(1) by (auto simp: clist_def)
  then show ?case
    using Cons.IH [of "ys @ [z]" "f z t"] Cons.prems clist_at [OF Cons.prems(1)]
    by (subst for_each_loop.simps) simp
qed

lemma for_each_loop_bwd:
  assumes "clist h p (ys @ zs)" and "\<And>x t. x \<in> set ys \<Longrightarrow> body x (h, t) = Some (h, f x t)"
  shows "for_each_loop rprev p body (last (p # ys)) (h, t) = Some (h, fold f (rev ys) t)"
  using assms
proof (induction ys arbitrary: zs t rule: rev_induct)
  case Nil
  then show ?case by (subst for_each_loop.simps) simp
next
  case (snoc y ys)
  have c: "clist h p (ys @ y # zs)" using snoc.prems(1) by simp
  have "y \<noteq> p" using c by (auto simp: clist_def)
  then show ?case
    using snoc.IH [of "y # zs" "f y t"] snoc.prems clist_at [OF c]
    by (subst for_each_loop.simps) simp
qed

lemma list_for_each_clist:
  assumes c: "clist h p xs" and b: "\<And>x t. x \<in> set xs \<Longrightarrow> body x (h, t) = Some (h, f x t)"
  shows "list_for_each p body (h, t) = Some (h, fold f xs t)"
    and "list_for_each_prev p body (h, t) = Some (h, fold f (rev xs) t)"
  using for_each_loop_fwd [of h p "[]" xs body f t] for_each_loop_bwd [of h p xs "[]" body f t]
    c b clist_reads [OF c]
  by (simp_all add: list_for_each_def list_for_each_prev_def)

text \<open>The typed loops are the untyped ones with the body applied to the enclosing struct.\<close>

lemma entry_loop_fwd:
  assumes "clist h p (ys @ zs)"
    and "\<And>x t. x \<in> set zs \<Longrightarrow> body (list_entry x off) (h, t) = Some (h, f (list_entry x off) t)"
  shows "entry_loop rnext off p body (list_entry (hd (zs @ [p])) off) (h, t) =
           Some (h, fold f (map (\<lambda>x. list_entry x off) zs) t)"
  using assms
proof (induction zs arbitrary: ys t)
  case Nil
  then show ?case by (subst entry_loop.simps) (simp add: list_entry_def container_of_def)
next
  case (Cons z zs)
  have "z \<noteq> p" using Cons.prems(1) by (auto simp: clist_def)
  then show ?case
    using Cons.IH [of "ys @ [z]" "f (list_entry z off) t"] Cons.prems clist_at [OF Cons.prems(1)]
    by (subst entry_loop.simps) (simp add: list_entry_def container_of_def)
qed

lemma list_for_each_entry_clist:
  assumes c: "clist h p xs"
    and b: "\<And>x t. x \<in> set xs \<Longrightarrow> body (list_entry x off) (h, t) = Some (h, f (list_entry x off) t)"
  shows "list_for_each_entry off p body (h, t) = Some (h, fold f (map (\<lambda>x. list_entry x off) xs) t)"
  using entry_loop_fwd [of h p "[]" xs body off f t] c b clist_reads [OF c]
  by (simp add: list_for_each_entry_def)

text \<open>A body that unlinks the cursor: the safe loop has read the successor before the body ran.\<close>

lemma clist_second:
  assumes "clist h p xs"
  shows "rnext h (hd (xs @ [p])) = Some (hd (tl (xs @ [p]) @ [hd (xs @ [p])]))"
proof (cases xs)
  case (Cons a as)
  with assms clist_at(1) [of h p "[]" a as] show ?thesis by (cases as) simp_all
qed (use clist_reads [OF assms] in simp)

definition del_collect :: "addr list list_body" where
  "del_collect pos st = do { h \<leftarrow> list_del pos (fst st); Some (h, snd st @ [pos]) }"

lemma for_each_safe_del:
  assumes "clist h p zs"
  shows "\<exists>h'. for_each_safe_loop rnext p del_collect (hd (zs @ [p])) (hd (tl (zs @ [p]) @ [hd (zs @ [p])])) (h, acc)
           = Some (h', acc @ zs) \<and> clist h' p [] \<and>
           (\<forall>z \<in> set zs. h' z = Some \<lparr>list_next = NULL, list_prev = NULL\<rparr>) \<and>
           (\<forall>a. a \<notin> set (p # zs) \<longrightarrow> h' a = h a)"
  using assms
proof (induction zs arbitrary: h acc)
  case Nil
  then show ?case by (subst for_each_safe_loop.simps) simp
next
  case (Cons z zs)
  have d: "z \<noteq> p" "z \<notin> set zs" using Cons.prems by (auto simp: clist_def)
  obtain h1 where h1: "list_del z h = Some h1" "clist h1 p zs" "h1 z = Some \<lparr>list_next = NULL, list_prev = NULL\<rparr>"
      "\<forall>a. a \<notin> set (p # z # zs) \<longrightarrow> h1 a = h a"
    using list_del_clist [of h p "[]" z zs] Cons.prems by auto
  have nx: "rnext h1 (hd (zs @ [p])) = Some (hd (tl (zs @ [p]) @ [hd (zs @ [p])]))"
    using h1(2) by (rule clist_second)
  obtain h' where h': "for_each_safe_loop rnext p del_collect (hd (zs @ [p])) (hd (tl (zs @ [p]) @ [hd (zs @ [p])]))
        (h1, acc @ [z]) = Some (h', (acc @ [z]) @ zs)" "clist h' p []"
      "\<forall>z \<in> set zs. h' z = Some \<lparr>list_next = NULL, list_prev = NULL\<rparr>" "\<forall>a. a \<notin> set (p # zs) \<longrightarrow> h' a = h1 a"
    using Cons.IH [OF h1(2)] by blast
  have "hd (tl ((z # zs) @ [p]) @ [hd ((z # zs) @ [p])]) = hd (zs @ [p])" by (cases zs) simp_all
  then have "for_each_safe_loop rnext p del_collect (hd ((z # zs) @ [p]))
      (hd (tl ((z # zs) @ [p]) @ [hd ((z # zs) @ [p])])) (h, acc) = Some (h', acc @ z # zs)"
    using d h1(1) nx h'(1) by (subst for_each_safe_loop.simps) (simp add: del_collect_def)
  then show ?case using h' h1 d by auto
qed

lemma list_for_each_safe_del:
  assumes c: "clist h p xs"
  shows "\<exists>h'. list_for_each_safe p del_collect (h, acc) = Some (h', acc @ xs) \<and> clist h' p [] \<and>
           (\<forall>z \<in> set xs. h' z = Some \<lparr>list_next = NULL, list_prev = NULL\<rparr>) \<and>
           (\<forall>a. a \<notin> set (p # xs) \<longrightarrow> h' a = h a)"
proof -
  show ?thesis
    using clist_second [OF c] for_each_safe_del [OF c, of acc] clist_reads [OF c] by (simp add: list_for_each_safe_def)
qed

lemma list_cut_position_clist:
  assumes c: "clist h p (ys @ e # zs)" and v: "valid h l" and n: "l \<notin> set (p # ys @ e # zs)"
  shows "\<exists>h'. list_cut_position l p e h = Some h' \<and> clist h' l (ys @ [e]) \<and> clist h' p zs \<and>
           (\<forall>a. a \<notin> insert l (set (p # ys @ e # zs)) \<longrightarrow> h' a = h a)"
proof -
  have "e \<noteq> p" using c by (auto simp: clist_def)
  moreover have "hd ((ys @ e # zs) @ [p]) = e" if "length (ys @ e # zs) = 1" using that by simp
  ultimately show ?thesis
    using uu_list_cut_position_clist [OF c v n] list_empty_clist [OF c] list_is_singular_clist [OF c] clist_reads(1) [OF c]
    by (auto simp: list_cut_position_def)
qed

lemma list_cut_position_whole:
  assumes c: "clist h p xs" and "xs \<noteq> []" and v: "valid h l"
  shows "list_cut_position l p p h = INIT_LIST_HEAD l h"
  using assms list_empty_clist [OF c] list_is_singular_clist [OF c] clist_reads(1) [OF c]
  by (simp add: list_cut_position_def)

end
