(* ===== verification/List_Props.thy ===== *)
theory List_Props
  imports List_Head
begin

text \<open>
  What \<^verbatim>\<open>include/list.h\<close> promises, stated on the sequence of entries that a list holds
  (\<open>clist h p xs\<close>: the head \<open>p\<close> and the entries \<open>xs\<close> are linked into one cycle in both
  directions). Every statement has the form \<open>\<exists>h'. operation h = Some h' \<and> \<dots>\<close>, so it includes that
  no access goes through an invalid pointer and that the loops end.
\<close>

section \<open>A concrete heap for the witnesses\<close>

definition ex_heap :: list_heap where
  "ex_heap = [8 \<mapsto> \<lparr>list_next = 16, list_prev = 32\<rparr>, 16 \<mapsto> \<lparr>list_next = 24, list_prev = 8\<rparr>,
     24 \<mapsto> \<lparr>list_next = 32, list_prev = 16\<rparr>, 32 \<mapsto> \<lparr>list_next = 8, list_prev = 24\<rparr>,
     40 \<mapsto> \<lparr>list_next = 48, list_prev = 48\<rparr>, 48 \<mapsto> \<lparr>list_next = 40, list_prev = 40\<rparr>,
     56 \<mapsto> \<lparr>list_next = 0, list_prev = 0\<rparr>]"

lemma ex_heap_lists:
  "clist ex_heap 8 [16, 24, 32]" "clist ex_heap 40 [48]" "valid ex_heap 56"
  by (simp_all add: clist_def ex_heap_def getf_def deref_def valid_def)

section \<open>Entry operations\<close>

lemma list_del_poison:
  assumes "h x = Some \<lparr>list_next = NULL, list_prev = NULL\<rparr>"
  shows "list_del x h = None"
  using assms by (auto simp: list_del_def getf_def deref_def uu_list_del_def set_prev_def)



section \<open>Whole lists\<close>

text \<open>
  the splice functions concatenate: list_splice puts the entries of the second list before
  those of the first, list_splice_tail after them, and the _init variants also leave the second
  head as an empty list; an empty second list changes nothing.
\<close>

theorem list_splice_concat:
  assumes "clist h p xs" and "clist h q ws" and "set (q # ws) \<inter> set (p # xs) = {}"
  shows "(\<exists>h'. list_splice q p h = Some h' \<and> clist h' p (ws @ xs))
       \<and> (\<exists>h'. list_splice_tail q p h = Some h' \<and> clist h' p (xs @ ws))
       \<and> (\<exists>h'. list_splice_init q p h = Some h' \<and> clist h' p (ws @ xs) \<and> clist h' q [])
       \<and> (\<exists>h'. list_splice_tail_init q p h = Some h' \<and> clist h' p (xs @ ws) \<and> clist h' q [])"
  using splice_clist [OF assms] by blast

theorem list_splice_concat_witness:
  "\<exists>h'. list_splice_init 40 8 ex_heap = Some h' \<and> clist h' 8 [48, 16, 24, 32] \<and> clist h' 40 []"
  using list_splice_concat [of ex_heap 8 "[16, 24, 32]" 40 "[48]"] ex_heap_lists by auto

text \<open>
  list_cut_position moves the entries up to and including the given one to the other head,
  and list_splice puts them back: the two are inverse on the list.
\<close>

theorem list_cut_splice_roundtrip:
  assumes "clist h p (ys @ e # zs)" and "valid h l" and "l \<notin> set (p # ys @ e # zs)"
  shows "\<exists>h1 h2. list_cut_position l p e h = Some h1 \<and> clist h1 l (ys @ [e]) \<and> clist h1 p zs \<and>
           list_splice l p h1 = Some h2 \<and> clist h2 p (ys @ e # zs)"
proof -
  obtain h1 where h1: "list_cut_position l p e h = Some h1" "clist h1 l (ys @ [e])" "clist h1 p zs"
    using list_cut_position_clist [OF assms] by blast
  have "set (l # ys @ [e]) \<inter> set (p # zs) = {}" using assms by (auto simp: clist_def)
  then show ?thesis using splice_clist(1) [OF h1(3,2)] h1 by auto
qed

theorem list_cut_splice_roundtrip_witness:
  "\<exists>h1 h2. list_cut_position 56 8 24 ex_heap = Some h1 \<and> clist h1 56 [16, 24] \<and> clist h1 8 [32] \<and>
     list_splice 56 8 h1 = Some h2 \<and> clist h2 8 [16, 24, 32]"
  using list_cut_splice_roundtrip [of ex_heap 8 "[16]" 24 "[32]" 56] ex_heap_lists by auto

section \<open>Queries and loops\<close>

lemma clist_length_less: "clist h p xs \<Longrightarrow> length xs < 2 ^ 64"
proof -
  assume "clist h p xs"
  then have "distinct (p # xs)" by (simp add: clist_def)
  then have "length (p # xs) \<le> card (UNIV :: addr set)"
    by (metis card_mono distinct_card finite subset_UNIV)
  then show ?thesis by (simp add: card_word)
qed

text \<open>
  the queries read the list off the sequence: list_length returns the number of entries (it
  cannot wrap, since the entries have distinct addresses), list_empty and list_empty_careful test
  for no entry, list_is_singular for exactly one, list_is_last whether the entry has no successor;
  all of them return, the counting loop included.
\<close>

theorem list_queries:
  assumes "clist h p xs"
  shows "(\<exists>n. list_length p h = Some n \<and> unat n = length xs)
       \<and> list_empty p h = Some (xs = []) \<and> list_empty_careful p h = Some (xs = [])
       \<and> list_is_singular p h = Some (length xs = 1)
       \<and> (\<forall>ys x zs. xs = ys @ x # zs \<longrightarrow> list_is_last x p h = Some (zs = []))"
proof -
  have "unat (of_nat (length xs) :: u64) = length xs"
    using clist_length_less [OF assms] by (simp add: unat_of_nat)
  then show ?thesis
    using assms by (auto simp: list_length_clist list_empty_clist list_empty_careful_clist
        list_is_singular_clist list_is_last_clist)
qed

theorem list_queries_witness:
  "(\<exists>n. list_length 8 ex_heap = Some n \<and> unat n = 3) \<and> list_empty 8 ex_heap = Some False"
  using list_queries [OF ex_heap_lists(1)] by (simp add: numeral_3_eq_3)

text \<open>
  list_for_each visits the entries in order and list_for_each_prev in reverse order, the typed
  list_for_each_entry hands the body the structs that embed them, whatever the body
  computes, as long as it leaves the links alone.
\<close>

theorem list_for_each_order:
  assumes "clist h p xs"
  shows "list_for_each p (\<lambda>x (h, t). Some (h, f x t)) (h, t) = Some (h, fold f xs t)
       \<and> list_for_each_prev p (\<lambda>x (h, t). Some (h, f x t)) (h, t) = Some (h, fold f (rev xs) t)
       \<and> list_for_each_entry off p (\<lambda>x (h, t). Some (h, f x t)) (h, t) =
           Some (h, fold f (map (\<lambda>x. list_entry x off) xs) t)"
  using list_for_each_clist [OF assms, of "\<lambda>x (h, t). Some (h, f x t)" f]
    list_for_each_entry_clist [OF assms, of "\<lambda>x (h, t). Some (h, f x t)" off f] by simp

theorem list_for_each_order_witness:
  "list_for_each 8 (\<lambda>x (h, t). Some (h, t @ [x])) (ex_heap, []) = Some (ex_heap, [16, 24, 32])"
  using list_for_each_order [OF ex_heap_lists(1), of "\<lambda>x t. t @ [x]" "[]" 0] by simp

text \<open>
  C18: list_for_each_safe survives a body that unlinks the cursor: emptying a list with list_del in
  the loop visits every entry once, in order, leaves an empty list, poisons every entry and
  touches no other memory.
\<close>

theorem list_for_each_safe_drain:
  assumes "clist h p xs"
  shows "\<exists>h'. list_for_each_safe p del_collect (h, []) = Some (h', xs) \<and> list_empty p h' = Some True \<and>
           (\<forall>x \<in> set xs. list_del x h' = None) \<and> (\<forall>a. a \<notin> set (p # xs) \<longrightarrow> h' a = h a)"
  using list_for_each_safe_del [OF assms, of "[]"] list_empty_clist list_del_poison by fastforce

theorem list_for_each_safe_drain_witness:
  "\<exists>h'. list_for_each_safe 8 del_collect (ex_heap, []) = Some (h', [16, 24, 32]) \<and>
     list_empty 8 h' = Some True"
  using list_for_each_safe_drain [OF ex_heap_lists(1)] by blast

end
