(* ===== verification/Rbtree.thy ===== *)
theory Rbtree
  imports Libkern_Prelude
begin

text \<open>
  \<^verbatim>\<open>lib/rbtree.c\<close> and \<^verbatim>\<open>include/rbtree.h\<close>: the intrusive red-black tree, statement by statement.
  A node packs its parent's address and its colour in \<^verbatim>\<open>rb_parent_color\<close>; the state is the heap
  of nodes and the pointer kept in \<^verbatim>\<open>struct rb_root\<close>. Loops whose end depends on the shape of the
  heap are partial functions: not returning, and any access through a bad pointer, is
  \<^const>\<open>None\<close>. 
\<close>

section \<open>Nodes\<close>

record rb_node =
  rb_parent_color :: u64
  rb_right :: addr
  rb_left :: addr

record rb_state =
  rb_nodes :: "rb_node heap"
  rb_root :: addr

definition RB_RED :: u64 where "RB_RED = 0"
definition RB_BLACK :: u64 where "RB_BLACK = 1"

definition rb_parent :: "rb_node \<Rightarrow> addr" where
  "rb_parent r = rb_parent_color r AND NOT 3"

definition rb_color :: "rb_node \<Rightarrow> u64" where
  "rb_color r = rb_parent_color r AND 1"

definition rb_is_red :: "rb_node \<Rightarrow> bool" where
  "rb_is_red r \<longleftrightarrow> rb_color r = 0"

definition rb_is_black :: "rb_node \<Rightarrow> bool" where
  "rb_is_black r \<longleftrightarrow> rb_color r \<noteq> 0"

definition nget :: "(rb_node \<Rightarrow> 'a) \<Rightarrow> addr \<Rightarrow> rb_state \<Rightarrow> 'a option" where
  "nget f p s = getf f (rb_nodes s) p"

definition nmod :: "(rb_node \<Rightarrow> rb_node) \<Rightarrow> addr \<Rightarrow> rb_state \<Rightarrow> rb_state option" where
  "nmod u p s = map_option (\<lambda>h. s\<lparr>rb_nodes := h\<rparr>) (modf u p (rb_nodes s))"

definition set_left :: "addr \<Rightarrow> addr \<Rightarrow> rb_state \<Rightarrow> rb_state option" where
  "set_left p v = nmod (rb_left_update (\<lambda>_. v)) p"

definition set_right :: "addr \<Rightarrow> addr \<Rightarrow> rb_state \<Rightarrow> rb_state option" where
  "set_right p v = nmod (rb_right_update (\<lambda>_. v)) p"

definition rb_set_red :: "addr \<Rightarrow> rb_state \<Rightarrow> rb_state option" where
  "rb_set_red p = nmod (rb_parent_color_update (\<lambda>w. w AND NOT 1)) p"

definition rb_set_black :: "addr \<Rightarrow> rb_state \<Rightarrow> rb_state option" where
  "rb_set_black p = nmod (rb_parent_color_update (\<lambda>w. w OR 1)) p"

definition rb_set_parent :: "addr \<Rightarrow> addr \<Rightarrow> rb_state \<Rightarrow> rb_state option" where
  "rb_set_parent node par = nmod (rb_parent_color_update (\<lambda>w. (w AND 3) OR par)) node"

definition rb_set_color :: "addr \<Rightarrow> u64 \<Rightarrow> rb_state \<Rightarrow> rb_state option" where
  "rb_set_color node color = nmod (rb_parent_color_update (\<lambda>w. (w AND NOT 1) OR color)) node"

definition RB_ROOT :: addr where "RB_ROOT = NULL"

definition RB_EMPTY_ROOT :: "rb_state \<Rightarrow> bool" where
  "RB_EMPTY_ROOT s \<longleftrightarrow> rb_root s = NULL"

definition RB_EMPTY_NODE :: "addr \<Rightarrow> rb_state \<Rightarrow> bool option" where
  "RB_EMPTY_NODE node s = do { p \<leftarrow> nget rb_parent node s; Some (p = node) }"

definition RB_CLEAR_NODE :: "addr \<Rightarrow> rb_state \<Rightarrow> rb_state option" where
  "RB_CLEAR_NODE node s = rb_set_parent node node s"

definition rb_init_node :: "addr \<Rightarrow> rb_state \<Rightarrow> rb_state option" where
  "rb_init_node rb s = do {
     s \<leftarrow> nmod (rb_parent_color_update (\<lambda>_. 0)) rb s;
     s \<leftarrow> set_right rb NULL s;
     s \<leftarrow> set_left rb NULL s;
     RB_CLEAR_NODE rb s }"

text \<open>\<^verbatim>\<open>struct rb_node **\<close> points to the root's cell or to a child cell of a node.\<close>

datatype rb_link = RootLink | LeftLink addr | RightLink addr

definition link_get :: "rb_link \<Rightarrow> rb_state \<Rightarrow> addr option" where
  "link_get l s = (case l of RootLink \<Rightarrow> Some (rb_root s)
     | LeftLink p \<Rightarrow> nget rb_left p s | RightLink p \<Rightarrow> nget rb_right p s)"

definition link_set :: "rb_link \<Rightarrow> addr \<Rightarrow> rb_state \<Rightarrow> rb_state option" where
  "link_set l v s = (case l of RootLink \<Rightarrow> Some (s\<lparr>rb_root := v\<rparr>)
     | LeftLink p \<Rightarrow> set_left p v s | RightLink p \<Rightarrow> set_right p v s)"

definition rb_link_node :: "addr \<Rightarrow> addr \<Rightarrow> rb_link \<Rightarrow> rb_state \<Rightarrow> rb_state option" where
  "rb_link_node node parent rb_link s = do {
     s \<leftarrow> nmod (rb_parent_color_update (\<lambda>_. parent)) node s;
     s \<leftarrow> set_right node NULL s;
     s \<leftarrow> set_left node NULL s;
     link_set rb_link node s }"

section \<open>Rotations\<close>

definition rb_rotate_left :: "addr \<Rightarrow> rb_state \<Rightarrow> rb_state option" where
  "rb_rotate_left node s = do {
     right \<leftarrow> nget rb_right node s;
     parent \<leftarrow> nget rb_parent node s;
     rl \<leftarrow> nget rb_left right s;
     s \<leftarrow> set_right node rl s;
     s \<leftarrow> (if rl \<noteq> NULL then do { rl' \<leftarrow> nget rb_left right s; rb_set_parent rl' node s } else Some s);
     s \<leftarrow> set_left right node s;
     s \<leftarrow> rb_set_parent right parent s;
     s \<leftarrow> (if parent \<noteq> NULL then do {
            pl \<leftarrow> nget rb_left parent s;
            if node = pl then set_left parent right s else set_right parent right s }
          else Some (s\<lparr>rb_root := right\<rparr>));
     rb_set_parent node right s }"

definition rb_rotate_right :: "addr \<Rightarrow> rb_state \<Rightarrow> rb_state option" where
  "rb_rotate_right node s = do {
     left \<leftarrow> nget rb_left node s;
     parent \<leftarrow> nget rb_parent node s;
     lr \<leftarrow> nget rb_right left s;
     s \<leftarrow> set_left node lr s;
     s \<leftarrow> (if lr \<noteq> NULL then do { lr' \<leftarrow> nget rb_right left s; rb_set_parent lr' node s } else Some s);
     s \<leftarrow> set_right left node s;
     s \<leftarrow> rb_set_parent left parent s;
     s \<leftarrow> (if parent \<noteq> NULL then do {
            pr \<leftarrow> nget rb_right parent s;
            if node = pr then set_right parent left s else set_left parent left s }
          else Some (s\<lparr>rb_root := left\<rparr>));
     rb_set_parent node left s }"

section \<open>Rebalancing after insertion\<close>

text \<open>
  One pass of the body of the \<^verbatim>\<open>while\<close> loop, for a parent that is the left (right) child of the
  grandparent; the result is the node the next pass starts from.
\<close>

definition insert_color_left :: "addr \<Rightarrow> addr \<Rightarrow> addr \<Rightarrow> rb_state \<Rightarrow> (addr \<times> rb_state) option" where
  "insert_color_left node parent gparent s = do {
     uncle \<leftarrow> nget rb_right gparent s;
     ured \<leftarrow> (if uncle \<noteq> NULL then nget rb_is_red uncle s else Some False);
     if ured then do {
       s \<leftarrow> rb_set_black uncle s;
       s \<leftarrow> rb_set_black parent s;
       s \<leftarrow> rb_set_red gparent s;
       Some (gparent, s) }
     else do {
       pr \<leftarrow> nget rb_right parent s;
       (node, parent, s) \<leftarrow>
         (if pr = node then do { s \<leftarrow> rb_rotate_left parent s; Some (parent, node, s) }
          else Some (node, parent, s));
       s \<leftarrow> rb_set_black parent s;
       s \<leftarrow> rb_set_red gparent s;
       s \<leftarrow> rb_rotate_right gparent s;
       Some (node, s) } }"

definition insert_color_right :: "addr \<Rightarrow> addr \<Rightarrow> addr \<Rightarrow> rb_state \<Rightarrow> (addr \<times> rb_state) option" where
  "insert_color_right node parent gparent s = do {
     uncle \<leftarrow> nget rb_left gparent s;
     ured \<leftarrow> (if uncle \<noteq> NULL then nget rb_is_red uncle s else Some False);
     if ured then do {
       s \<leftarrow> rb_set_black uncle s;
       s \<leftarrow> rb_set_black parent s;
       s \<leftarrow> rb_set_red gparent s;
       Some (gparent, s) }
     else do {
       pl \<leftarrow> nget rb_left parent s;
       (node, parent, s) \<leftarrow>
         (if pl = node then do { s \<leftarrow> rb_rotate_right parent s; Some (parent, node, s) }
          else Some (node, parent, s));
       s \<leftarrow> rb_set_black parent s;
       s \<leftarrow> rb_set_red gparent s;
       s \<leftarrow> rb_rotate_left gparent s;
       Some (node, s) } }"

partial_function (option) insert_color_loop :: "addr \<Rightarrow> rb_state \<Rightarrow> rb_state option" where
  "insert_color_loop node s = do {
     parent \<leftarrow> nget rb_parent node s;
     red \<leftarrow> (if parent \<noteq> NULL then nget rb_is_red parent s else Some False);
     if red then do {
       gparent \<leftarrow> nget rb_parent parent s;
       gl \<leftarrow> nget rb_left gparent s;
       (node, s) \<leftarrow> (if parent = gl then insert_color_left node parent gparent s
                     else insert_color_right node parent gparent s);
       insert_color_loop node s }
     else Some s }"

definition rb_insert_color :: "addr \<Rightarrow> rb_state \<Rightarrow> rb_state option" where
  "rb_insert_color node s = do {
     s \<leftarrow> insert_color_loop node s;
     rb_set_black (rb_root s) s }"

section \<open>Rebalancing after removal\<close>

definition null_or_black :: "addr \<Rightarrow> rb_state \<Rightarrow> bool option" where
  "null_or_black p s = (if p = NULL then Some True else nget rb_is_black p s)"

text \<open>
  One pass of the loop of \<^verbatim>\<open>__rb_erase_color\<close> for a node that is the left (right) child: either
  the node and parent of the next pass, or \<^const>\<open>None\<close> for the \<^verbatim>\<open>break\<close>.
\<close>

definition erase_color_left :: "addr \<Rightarrow> rb_state \<Rightarrow> ((addr \<times> addr) option \<times> rb_state) option" where
  "erase_color_left parent s = do {
     other \<leftarrow> nget rb_right parent s;
     ored \<leftarrow> nget rb_is_red other s;
     (other, s) \<leftarrow>
       (if ored then do {
          s \<leftarrow> rb_set_black other s;
          s \<leftarrow> rb_set_red parent s;
          s \<leftarrow> rb_rotate_left parent s;
          other \<leftarrow> nget rb_right parent s;
          Some (other, s) }
        else Some (other, s));
     ol \<leftarrow> nget rb_left other s;
     olb \<leftarrow> null_or_black ol s;
     or \<leftarrow> nget rb_right other s;
     orb \<leftarrow> null_or_black or s;
     if olb \<and> orb then do {
       s \<leftarrow> rb_set_red other s;
       pp \<leftarrow> nget rb_parent parent s;
       Some (Some (parent, pp), s) }
     else do {
       (other, s) \<leftarrow>
         (if orb then do {
            s \<leftarrow> (if ol \<noteq> NULL then rb_set_black ol s else Some s);
            s \<leftarrow> rb_set_red other s;
            s \<leftarrow> rb_rotate_right other s;
            other \<leftarrow> nget rb_right parent s;
            Some (other, s) }
          else Some (other, s));
       c \<leftarrow> nget rb_color parent s;
       s \<leftarrow> rb_set_color other c s;
       s \<leftarrow> rb_set_black parent s;
       or \<leftarrow> nget rb_right other s;
       s \<leftarrow> (if or \<noteq> NULL then rb_set_black or s else Some s);
       s \<leftarrow> rb_rotate_left parent s;
       Some (None, s) } }"

definition erase_color_right :: "addr \<Rightarrow> rb_state \<Rightarrow> ((addr \<times> addr) option \<times> rb_state) option" where
  "erase_color_right parent s = do {
     other \<leftarrow> nget rb_left parent s;
     ored \<leftarrow> nget rb_is_red other s;
     (other, s) \<leftarrow>
       (if ored then do {
          s \<leftarrow> rb_set_black other s;
          s \<leftarrow> rb_set_red parent s;
          s \<leftarrow> rb_rotate_right parent s;
          other \<leftarrow> nget rb_left parent s;
          Some (other, s) }
        else Some (other, s));
     ol \<leftarrow> nget rb_left other s;
     olb \<leftarrow> null_or_black ol s;
     or \<leftarrow> nget rb_right other s;
     orb \<leftarrow> null_or_black or s;
     if olb \<and> orb then do {
       s \<leftarrow> rb_set_red other s;
       pp \<leftarrow> nget rb_parent parent s;
       Some (Some (parent, pp), s) }
     else do {
       (other, s) \<leftarrow>
         (if olb then do {
            s \<leftarrow> (if or \<noteq> NULL then rb_set_black or s else Some s);
            s \<leftarrow> rb_set_red other s;
            s \<leftarrow> rb_rotate_left other s;
            other \<leftarrow> nget rb_left parent s;
            Some (other, s) }
          else Some (other, s));
       c \<leftarrow> nget rb_color parent s;
       s \<leftarrow> rb_set_color other c s;
       s \<leftarrow> rb_set_black parent s;
       ol \<leftarrow> nget rb_left other s;
       s \<leftarrow> (if ol \<noteq> NULL then rb_set_black ol s else Some s);
       s \<leftarrow> rb_rotate_right parent s;
       Some (None, s) } }"

partial_function (option) erase_color_loop :: "addr \<Rightarrow> addr \<Rightarrow> rb_state \<Rightarrow> (addr \<times> rb_state) option" where
  "erase_color_loop node parent s = do {
     b \<leftarrow> null_or_black node s;
     if b \<and> node \<noteq> rb_root s then do {
       pl \<leftarrow> nget rb_left parent s;
       r \<leftarrow> (if pl = node then erase_color_left parent s else erase_color_right parent s);
       (case r of
          (Some (node, parent), s) \<Rightarrow> erase_color_loop node parent s
        | (None, s) \<Rightarrow> Some (rb_root s, s)) }
     else Some (node, s) }"

definition rb_erase_color :: "addr \<Rightarrow> addr \<Rightarrow> rb_state \<Rightarrow> rb_state option" where
  "rb_erase_color node parent s = do {
     (node, s) \<leftarrow> erase_color_loop node parent s;
     if node \<noteq> NULL then rb_set_black node s else Some s }"

section \<open>Removal\<close>

partial_function (option) leftmost :: "addr \<Rightarrow> rb_state \<Rightarrow> addr option" where
  "leftmost n s = do {
     l \<leftarrow> nget rb_left n s;
     if l \<noteq> NULL then leftmost l s else Some n }"

partial_function (option) rightmost :: "addr \<Rightarrow> rb_state \<Rightarrow> addr option" where
  "rightmost n s = do {
     r \<leftarrow> nget rb_right n s;
     if r \<noteq> NULL then rightmost r s else Some n }"

text \<open>
  The branch of \<^verbatim>\<open>rb_erase\<close> for a node with two children: its successor takes its place. The
  result is \<^verbatim>\<open>child\<close>, \<^verbatim>\<open>parent\<close> and \<^verbatim>\<open>color\<close> at the label \<^verbatim>\<open>color\<close>.
\<close>

definition erase_two :: "addr \<Rightarrow> rb_state \<Rightarrow> (addr \<times> addr \<times> u64 \<times> rb_state) option" where
  "erase_two old s = do {
     r \<leftarrow> nget rb_right old s;
     node \<leftarrow> leftmost r s;
     child \<leftarrow> nget rb_right node s;
     parent \<leftarrow> nget rb_parent node s;
     color \<leftarrow> nget rb_color node s;
     s \<leftarrow> (if child \<noteq> NULL then rb_set_parent child parent s else Some s);
     (parent, s) \<leftarrow>
       (if parent = old then do { s \<leftarrow> set_right parent child s; Some (node, s) }
        else do { s \<leftarrow> set_left parent child s; Some (parent, s) });
     opc \<leftarrow> nget rb_parent_color old s;
     s \<leftarrow> nmod (rb_parent_color_update (\<lambda>_. opc)) node s;
     orr \<leftarrow> nget rb_right old s;
     s \<leftarrow> set_right node orr s;
     ol \<leftarrow> nget rb_left old s;
     s \<leftarrow> set_left node ol s;
     op \<leftarrow> nget rb_parent old s;
     s \<leftarrow> (if op \<noteq> NULL then do {
            opl \<leftarrow> nget rb_left op s;
            if opl = old then set_left op node s else set_right op node s }
          else Some (s\<lparr>rb_root := node\<rparr>));
     ol \<leftarrow> nget rb_left old s;
     s \<leftarrow> rb_set_parent ol node s;
     orr \<leftarrow> nget rb_right old s;
     s \<leftarrow> (if orr \<noteq> NULL then rb_set_parent orr node s else Some s);
     Some (child, parent, color, s) }"

definition erase_one :: "addr \<Rightarrow> addr \<Rightarrow> rb_state \<Rightarrow> (addr \<times> addr \<times> u64 \<times> rb_state) option" where
  "erase_one node child s = do {
     parent \<leftarrow> nget rb_parent node s;
     color \<leftarrow> nget rb_color node s;
     s \<leftarrow> (if child \<noteq> NULL then rb_set_parent child parent s else Some s);
     s \<leftarrow> (if parent \<noteq> NULL then do {
            pl \<leftarrow> nget rb_left parent s;
            if pl = node then set_left parent child s else set_right parent child s }
          else Some (s\<lparr>rb_root := child\<rparr>));
     Some (child, parent, color, s) }"

definition rb_erase :: "addr \<Rightarrow> rb_state \<Rightarrow> rb_state option" where
  "rb_erase node s = do {
     l \<leftarrow> nget rb_left node s;
     r \<leftarrow> nget rb_right node s;
     (child, parent, color, s) \<leftarrow>
       (if l = NULL then erase_one node r s
        else if r = NULL then erase_one node l s
        else erase_two node s);
     if color = RB_BLACK then rb_erase_color child parent s else Some s }"

section \<open>Traversal\<close>

definition rb_first :: "rb_state \<Rightarrow> addr option" where
  "rb_first s = (if rb_root s = NULL then Some NULL else leftmost (rb_root s) s)"

definition rb_last :: "rb_state \<Rightarrow> addr option" where
  "rb_last s = (if rb_root s = NULL then Some NULL else rightmost (rb_root s) s)"

partial_function (option) up_from_right :: "addr \<Rightarrow> rb_state \<Rightarrow> addr option" where
  "up_from_right node s = do {
     parent \<leftarrow> nget rb_parent node s;
     if parent \<noteq> NULL then do {
       pr \<leftarrow> nget rb_right parent s;
       if node = pr then up_from_right parent s else Some parent }
     else Some parent }"

partial_function (option) up_from_left :: "addr \<Rightarrow> rb_state \<Rightarrow> addr option" where
  "up_from_left node s = do {
     parent \<leftarrow> nget rb_parent node s;
     if parent \<noteq> NULL then do {
       pl \<leftarrow> nget rb_left parent s;
       if node = pl then up_from_left parent s else Some parent }
     else Some parent }"

definition rb_next :: "addr \<Rightarrow> rb_state \<Rightarrow> addr option" where
  "rb_next node s = do {
     p \<leftarrow> nget rb_parent node s;
     if p = node then Some NULL else do {
       r \<leftarrow> nget rb_right node s;
       if r \<noteq> NULL then leftmost r s else up_from_right node s } }"

definition rb_prev :: "addr \<Rightarrow> rb_state \<Rightarrow> addr option" where
  "rb_prev node s = do {
     p \<leftarrow> nget rb_parent node s;
     if p = node then Some NULL else do {
       l \<leftarrow> nget rb_left node s;
       if l \<noteq> NULL then rightmost l s else up_from_left node s } }"

definition rb_replace_node :: "addr \<Rightarrow> addr \<Rightarrow> rb_state \<Rightarrow> rb_state option" where
  "rb_replace_node victim new s = do {
     parent \<leftarrow> nget rb_parent victim s;
     s \<leftarrow> (if parent \<noteq> NULL then do {
            pl \<leftarrow> nget rb_left parent s;
            if victim = pl then set_left parent new s else set_right parent new s }
          else Some (s\<lparr>rb_root := new\<rparr>));
     vl \<leftarrow> nget rb_left victim s;
     s \<leftarrow> (if vl \<noteq> NULL then rb_set_parent vl new s else Some s);
     vr \<leftarrow> nget rb_right victim s;
     s \<leftarrow> (if vr \<noteq> NULL then rb_set_parent vr new s else Some s);
     v \<leftarrow> nget (\<lambda>n. n) victim s;
     nmod (\<lambda>_. v) new s }"

text \<open>
  The iteration macros: the body gets the cursor (\<^verbatim>\<open>pos\<close>, or the struct \<^verbatim>\<open>tpos\<close> around it), may change
  the tree and the caller's data, and may fault. The plain loops advance after the body, the safe
  ones fetch the next node before it.
\<close>

type_synonym 'd rb_body = "addr \<Rightarrow> rb_state \<times> 'd \<Rightarrow> (rb_state \<times> 'd) option"

partial_function (option) rb_for_each_loop ::
  "(addr \<Rightarrow> rb_state \<Rightarrow> addr option) \<Rightarrow> 'd rb_body \<Rightarrow> addr \<Rightarrow> rb_state \<times> 'd \<Rightarrow> (rb_state \<times> 'd) option" where
  "rb_for_each_loop step body pos st =
     (if pos \<noteq> NULL then do {
        st \<leftarrow> body pos st;
        n \<leftarrow> step pos (fst st);
        rb_for_each_loop step body n st }
      else Some st)"

partial_function (option) rb_for_each_safe_loop ::
  "(addr \<Rightarrow> rb_state \<Rightarrow> addr option) \<Rightarrow> 'd rb_body \<Rightarrow> addr \<Rightarrow> rb_state \<times> 'd \<Rightarrow> (rb_state \<times> 'd) option" where
  "rb_for_each_safe_loop step body pos st =
     (if pos \<noteq> NULL then do {
        n \<leftarrow> step pos (fst st);
        st \<leftarrow> body pos st;
        rb_for_each_safe_loop step body n st }
      else Some st)"

definition rb_for_each :: "'d rb_body \<Rightarrow> rb_state \<times> 'd \<Rightarrow> (rb_state \<times> 'd) option" where
  "rb_for_each body st = do { p \<leftarrow> rb_first (fst st); rb_for_each_loop rb_next body p st }"

definition rb_for_each_prev :: "'d rb_body \<Rightarrow> rb_state \<times> 'd \<Rightarrow> (rb_state \<times> 'd) option" where
  "rb_for_each_prev body st = do { p \<leftarrow> rb_last (fst st); rb_for_each_loop rb_prev body p st }"

definition rb_for_each_safe :: "'d rb_body \<Rightarrow> rb_state \<times> 'd \<Rightarrow> (rb_state \<times> 'd) option" where
  "rb_for_each_safe body st = do { p \<leftarrow> rb_first (fst st); rb_for_each_safe_loop rb_next body p st }"

definition rb_entry :: "addr \<Rightarrow> u64 \<Rightarrow> addr" where
  "rb_entry ptr off = ptr - off"

definition rb_for_each_entry :: "u64 \<Rightarrow> 'd rb_body \<Rightarrow> rb_state \<times> 'd \<Rightarrow> (rb_state \<times> 'd) option" where
  "rb_for_each_entry off body st = do {
     p \<leftarrow> rb_first (fst st);
     rb_for_each_loop rb_next (\<lambda>pos. body (rb_entry pos off)) p st }"

definition rb_for_each_entry_safe :: "u64 \<Rightarrow> 'd rb_body \<Rightarrow> rb_state \<times> 'd \<Rightarrow> (rb_state \<times> 'd) option" where
  "rb_for_each_entry_safe off body st = do {
     p \<leftarrow> rb_first (fst st);
     rb_for_each_safe_loop rb_next (\<lambda>pos. body (rb_entry pos off)) p st }"

section \<open>Augmented trees\<close>

text \<open>
  The augmentation callback reads the tree and updates the caller's data at one node.
\<close>

type_synonym 'd rb_augment_f = "rb_state \<Rightarrow> addr \<Rightarrow> 'd \<Rightarrow> 'd option"

partial_function (option) rb_augment_path :: "addr \<Rightarrow> 'd rb_augment_f \<Rightarrow> rb_state \<Rightarrow> 'd \<Rightarrow> 'd option" where
  "rb_augment_path node func s d = do {
     d \<leftarrow> func s node d;
     parent \<leftarrow> nget rb_parent node s;
     if parent = NULL then Some d else do {
       pl \<leftarrow> nget rb_left parent s;
       pr \<leftarrow> nget rb_right parent s;
       d \<leftarrow> (if node = pl \<and> pr \<noteq> NULL then func s pr d
             else if pl \<noteq> NULL then func s pl d else Some d);
       rb_augment_path parent func s d } }"

definition rb_augment_insert :: "addr \<Rightarrow> 'd rb_augment_f \<Rightarrow> rb_state \<Rightarrow> 'd \<Rightarrow> 'd option" where
  "rb_augment_insert node func s d = do {
     l \<leftarrow> nget rb_left node s;
     r \<leftarrow> nget rb_right node s;
     let node = (if l \<noteq> NULL then l else if r \<noteq> NULL then r else node);
     rb_augment_path node func s d }"

definition rb_augment_erase_begin :: "addr \<Rightarrow> rb_state \<Rightarrow> addr option" where
  "rb_augment_erase_begin node s = do {
     r \<leftarrow> nget rb_right node s;
     l \<leftarrow> nget rb_left node s;
     if r = NULL \<and> l = NULL then nget rb_parent node s
     else if r = NULL then Some l
     else if l = NULL then Some r
     else do {
       deepest \<leftarrow> rb_next node s;
       dr \<leftarrow> nget rb_right deepest s;
       dp \<leftarrow> nget rb_parent deepest s;
       Some (if dr \<noteq> NULL then dr else if dp \<noteq> node then dp else deepest) } }"

definition rb_augment_erase_end :: "addr \<Rightarrow> 'd rb_augment_f \<Rightarrow> rb_state \<Rightarrow> 'd \<Rightarrow> 'd option" where
  "rb_augment_erase_end node func s d = (if node \<noteq> NULL then rb_augment_path node func s d else Some d)"

section \<open>Search trees\<close>

text \<open>
  The macros \<^verbatim>\<open>rb_find\<close>, \<^verbatim>\<open>rb_insert\<close> and \<^verbatim>\<open>rb_delete\<close> take the comparison \<open>cmp\<close> from the user;
  \<open>key\<close> reads the key of the struct at an address, \<open>off\<close> is the offset of the node in it.
\<close>

partial_function (option) rb_find_loop ::
  "(addr \<Rightarrow> 'k) \<Rightarrow> u64 \<Rightarrow> ('k \<Rightarrow> 'k \<Rightarrow> int) \<Rightarrow> 'k \<Rightarrow> addr \<Rightarrow> rb_state \<Rightarrow> addr option" where
  "rb_find_loop key off cmp value node s =
     (if node \<noteq> NULL then do {
        l \<leftarrow> nget rb_left node s;
        r \<leftarrow> nget rb_right node s;
        let result = cmp (key (rb_entry node off)) value;
        if result < 0 then rb_find_loop key off cmp value l s
        else if result > 0 then rb_find_loop key off cmp value r s
        else Some (rb_entry node off) }
      else Some NULL)"

definition rb_find :: "(addr \<Rightarrow> 'k) \<Rightarrow> u64 \<Rightarrow> ('k \<Rightarrow> 'k \<Rightarrow> int) \<Rightarrow> 'k \<Rightarrow> rb_state \<Rightarrow> addr option" where
  "rb_find key off cmp value s = rb_find_loop key off cmp value (rb_root s) s"

partial_function (option) rb_insert_loop ::
  "(addr \<Rightarrow> 'k) \<Rightarrow> u64 \<Rightarrow> ('k \<Rightarrow> 'k \<Rightarrow> int) \<Rightarrow> addr \<Rightarrow> rb_link \<Rightarrow> addr \<Rightarrow> rb_state \<Rightarrow>
   (bool \<times> rb_link \<times> addr) option" where
  "rb_insert_loop key off cmp item new parent s = do {
     n \<leftarrow> link_get new s;
     if n \<noteq> NULL then do {
       let result = cmp (key (rb_entry n off)) (key (rb_entry item off));
       if result < 0 then rb_insert_loop key off cmp item (LeftLink n) n s
       else if result > 0 then rb_insert_loop key off cmp item (RightLink n) n s
       else Some (False, new, n) }
     else Some (True, new, parent) }"

definition rb_insert :: "(addr \<Rightarrow> 'k) \<Rightarrow> u64 \<Rightarrow> ('k \<Rightarrow> 'k \<Rightarrow> int) \<Rightarrow> addr \<Rightarrow> rb_state \<Rightarrow> rb_state option" where
  "rb_insert key off cmp item s = do {
     (ins, new, parent) \<leftarrow> rb_insert_loop key off cmp item RootLink NULL s;
     if ins then do {
       s \<leftarrow> rb_link_node item parent new s;
       rb_insert_color item s }
     else Some s }"

definition rb_delete :: "(addr \<Rightarrow> 'k) \<Rightarrow> u64 \<Rightarrow> ('k \<Rightarrow> 'k \<Rightarrow> int) \<Rightarrow> 'k \<Rightarrow> rb_state \<Rightarrow> rb_state option" where
  "rb_delete key off cmp value s = do {
     node \<leftarrow> rb_find key off cmp value s;
     if node \<noteq> NULL then rb_erase node s else Some s }"

end
