(* ===== verification/Rbtree_Zipper.thy ===== *)
theory Rbtree_Zipper
  imports Rbtree
begin

text \<open>
  The bridge between the pointer code of \<open>Rbtree\<close> and trees as data. A tree of addresses and
  colours is represented in the heap when every node holds its packed word and its child
  pointers; a position inside a tree is a zipper, a subtree and the path above it. Each
  primitive of the C code (reads, recolouring, rotation) has one lemma that says what it does at
  a position; all further reasoning moves the position and never looks at the heap again.
\<close>

section \<open>The packed word\<close>

datatype color = Red | Black

fun cbit :: "color \<Rightarrow> u64" where
  "cbit Red = 0"
| "cbit Black = 1"

definition aligned :: "addr \<Rightarrow> bool" where
  "aligned a \<longleftrightarrow> a AND 3 = 0"

definition mkn :: "addr \<Rightarrow> color \<Rightarrow> addr \<Rightarrow> addr \<Rightarrow> rb_node" where
  "mkn par c l r = \<lparr>rb_parent_color = par OR cbit c, rb_right = r, rb_left = l\<rparr>"

lemma color_exhaust [simp]: "c \<noteq> Black \<longleftrightarrow> c = Red"
  by (cases c) auto

lemma bit_three: "bit (3 :: u64) n \<longleftrightarrow> n = 0 \<or> n = 1"
proof -
  have "bit (mask 2 :: u64) n \<longleftrightarrow> n < 2"
    by (auto simp: bit_mask_iff possible_bit_word simp del: mask_numeral)
  moreover have "(mask 2 :: u64) = 3" by (simp add: mask_eq_exp_minus_1)
  ultimately show ?thesis by auto
qed

lemma bit_minus_4: "bit (-4 :: u64) n \<longleftrightarrow> n < 64 \<and> n \<noteq> 0 \<and> n \<noteq> 1"
proof -
  have "(-4 :: u64) = NOT 3" by simp
  then show ?thesis by (simp only: bit_not_iff bit_three possible_bit_word) auto
qed

lemma bit_minus_2: "bit (-2 :: u64) n \<longleftrightarrow> n < 64 \<and> n \<noteq> 0"
proof -
  have "(-2 :: u64) = NOT 1" by simp
  then show ?thesis by (simp only: bit_not_iff bit_1_iff possible_bit_word) auto
qed

lemma aligned_bits: "aligned a \<longleftrightarrow> \<not> bit a 0 \<and> \<not> bit a 1"
proof -
  have "aligned a \<longleftrightarrow> (\<forall>n<64. \<not> (bit a n \<and> (n = 0 \<or> n = 1)))"
    unfolding aligned_def bit_word_zero_iff by (simp only: bit_and_iff bit_three) simp
  moreover have "(0::nat) < 64" "(1::nat) < 64" by simp_all
  ultimately show ?thesis by blast
qed

lemma aligned_0 [simp]: "aligned 0"
  by (simp add: aligned_def)

lemma bit_cbit: "bit (cbit c) n \<longleftrightarrow> c = Black \<and> n = 0"
  by (cases c) (auto simp: bit_1_iff)

lemmas pack_bits = bit_and_iff bit_or_iff bit_three bit_cbit bit_minus_2 bit_minus_4 aligned_bits bit_1_iff

lemma pack_parent: "aligned p \<Longrightarrow> (p OR cbit c) AND NOT 3 = p"
  by (rule bit_word_eqI) (simp, simp only: pack_bits, metis One_nat_def)

lemma pack_color: "aligned p \<Longrightarrow> (p OR cbit c) AND 1 = cbit c"
  by (rule bit_word_eqI) (simp only: pack_bits, metis)

lemma pack_red: "aligned p \<Longrightarrow> (p OR cbit c) AND NOT 1 = p OR cbit Red"
  by (rule bit_word_eqI) (simp, simp only: pack_bits color.simps, metis)

lemma pack_black: "(p OR cbit c) OR 1 = p OR cbit Black"
  by (rule bit_word_eqI) (simp only: pack_bits, metis)

lemma pack_set_parent: "aligned p \<Longrightarrow> ((p OR cbit c) AND 3) OR q = q OR cbit c"
  by (rule bit_word_eqI) (simp only: pack_bits, metis)

lemma pack_set_color: "aligned p \<Longrightarrow> ((p OR cbit c) AND NOT 1) OR cbit d = p OR cbit d"
  by (rule bit_word_eqI) (simp, simp only: pack_bits, metis)

lemma mkn_reads [simp]:
  "rb_left (mkn p c l r) = l"
  "rb_right (mkn p c l r) = r"
  "aligned p \<Longrightarrow> rb_parent (mkn p c l r) = p"
  "aligned p \<Longrightarrow> rb_color (mkn p c l r) = cbit c"
  "aligned p \<Longrightarrow> rb_is_red (mkn p c l r) \<longleftrightarrow> c = Red"
  "aligned p \<Longrightarrow> rb_is_black (mkn p c l r) \<longleftrightarrow> c = Black"
proof -
  show "aligned p \<Longrightarrow> rb_parent (mkn p c l r) = p" and c: "aligned p \<Longrightarrow> rb_color (mkn p c l r) = cbit c"
    unfolding mkn_def rb_parent_def rb_color_def by (simp_all only: pack_parent pack_color rb_node.select_convs)
  then show "aligned p \<Longrightarrow> rb_is_red (mkn p c l r) \<longleftrightarrow> c = Red" "aligned p \<Longrightarrow> rb_is_black (mkn p c l r) \<longleftrightarrow> c = Black"
    by (cases c; simp add: rb_is_red_def rb_is_black_def)+
qed (simp_all add: mkn_def)

lemma mkn_updates [simp]:
  "rb_left_update (\<lambda>_. v) (mkn p c l r) = mkn p c v r"
  "rb_right_update (\<lambda>_. v) (mkn p c l r) = mkn p c l v"
  "aligned p \<Longrightarrow> rb_parent_color_update (\<lambda>w. w AND NOT 1) (mkn p c l r) = mkn p Red l r"
  "rb_parent_color_update (\<lambda>w. w OR 1) (mkn p c l r) = mkn p Black l r"
  "aligned p \<Longrightarrow> rb_parent_color_update (\<lambda>w. (w AND 3) OR q) (mkn p c l r) = mkn q c l r"
  "aligned p \<Longrightarrow> rb_parent_color_update (\<lambda>w. (w AND NOT 1) OR cbit d) (mkn p c l r) = mkn p d l r"
  unfolding mkn_def by (simp_all only: pack_red pack_black pack_set_parent pack_set_color rb_node.update_convs
      cbit.simps(1) or.right_neutral)

lemma mkn_updates_masked [simp]:
  "aligned p \<Longrightarrow> rb_parent_color_update (\<lambda>w. w AND -2) (mkn p c l r) = mkn p Red l r"
  "aligned p \<Longrightarrow> rb_parent_color_update (\<lambda>w. (w AND -2) OR cbit d) (mkn p c l r) = mkn p d l r"
  "aligned p \<Longrightarrow> rb_parent_color_update (\<lambda>w. w AND 3) (mkn p c l r) = mkn 0 c l r"
  using mkn_updates(3) [of p c l r] mkn_updates(5) [of p 0 c l r] mkn_updates(6) [of p d c l r] by simp_all

section \<open>Trees and zippers\<close>

datatype rtree = Tip | Nd rtree addr color rtree

fun rptr :: "rtree \<Rightarrow> addr" where
  "rptr Tip = NULL"
| "rptr (Nd l a c r) = a"

fun inord :: "rtree \<Rightarrow> addr list" where
  "inord Tip = []"
| "inord (Nd l a c r) = inord l @ a # inord r"

fun rep :: "rb_node heap \<Rightarrow> addr \<Rightarrow> rtree \<Rightarrow> bool" where
  "rep h par Tip \<longleftrightarrow> True"
| "rep h par (Nd l a c r) \<longleftrightarrow> a \<noteq> NULL \<and> aligned a \<and> h a = Some (mkn par c (rptr l) (rptr r)) \<and>
     rep h a l \<and> rep h a r"

text \<open>A frame is a node with a hole for one child; a path lists the frames from the hole up.\<close>

datatype frame = FL addr color rtree | FR rtree addr color

fun fill :: "frame \<Rightarrow> rtree \<Rightarrow> rtree" where
  "fill (FL a c r) t = Nd t a c r"
| "fill (FR l a c) t = Nd l a c t"

fun faddr :: "frame \<Rightarrow> addr" where
  "faddr (FL a c r) = a"
| "faddr (FR l a c) = a"

fun fcolor :: "frame \<Rightarrow> color" where
  "fcolor (FL a c r) = c"
| "fcolor (FR l a c) = c"

fun plug :: "frame list \<Rightarrow> rtree \<Rightarrow> rtree" where
  "plug [] t = t"
| "plug (f # k) t = plug k (fill f t)"

fun cptr :: "frame list \<Rightarrow> addr" where
  "cptr [] = NULL"
| "cptr (f # k) = faddr f"

fun lefts :: "frame list \<Rightarrow> addr list" where
  "lefts [] = []"
| "lefts (FL a c r # k) = lefts k"
| "lefts (FR l a c # k) = lefts k @ inord l @ [a]"

fun rights :: "frame list \<Rightarrow> addr list" where
  "rights [] = []"
| "rights (FL a c r # k) = a # inord r @ rights k"
| "rights (FR l a c # k) = rights k"

fun crep :: "rb_node heap \<Rightarrow> addr \<Rightarrow> frame list \<Rightarrow> addr \<Rightarrow> bool" where
  "crep h rt [] p \<longleftrightarrow> rt = p"
| "crep h rt (FL a c r # k) p \<longleftrightarrow> a \<noteq> NULL \<and> aligned a \<and> h a = Some (mkn (cptr k) c p (rptr r)) \<and>
     rep h a r \<and> crep h rt k a"
| "crep h rt (FR l a c # k) p \<longleftrightarrow> a \<noteq> NULL \<and> aligned a \<and> h a = Some (mkn (cptr k) c (rptr l) p) \<and>
     rep h a l \<and> crep h rt k a"

lemma inord_plug: "inord (plug k t) = lefts k @ inord t @ rights k"
proof (induction k arbitrary: t)
  case (Cons f k)
  then show ?case by (cases f) simp_all
qed simp

text \<open>The state holds the tree, seen at a position; \<open>F\<close> is the rest of the heap, which no
  operation on the tree touches.\<close>

definition at :: "rb_node heap \<Rightarrow> frame list \<Rightarrow> rtree \<Rightarrow> rb_state \<Rightarrow> bool" where
  "at F k t s \<longleftrightarrow> crep (rb_nodes s) (rb_root s) k (rptr t) \<and> rep (rb_nodes s) (cptr k) t \<and>
     distinct (lefts k @ inord t @ rights k) \<and>
     (\<forall>x. x \<notin> set (lefts k @ inord t @ rights k) \<longrightarrow> rb_nodes s x = F x)"

abbreviation holds :: "rb_node heap \<Rightarrow> rtree \<Rightarrow> rb_state \<Rightarrow> bool" where
  "holds F t s \<equiv> at F [] t s"

lemma at_frame [simp]: "at F (f # k) t s = at F k (fill f t) s"
proof (cases f)
  case (FL a c r)
  then show ?thesis by (auto simp: at_def ac_simps)
next
  case (FR l a c)
  show ?thesis by (auto simp: at_def FR)
qed

lemma at_plug: "at F k t s = holds F (plug k t) s"
  by (induction k arbitrary: t) simp_all

lemma cptr_eq_0: "crep h rt k p \<Longrightarrow> cptr k = NULL \<longleftrightarrow> k = []"
  by (induction h rt k p rule: crep.induct) auto

lemma cptr_aligned: "crep h rt k p \<Longrightarrow> aligned (cptr k)"
  by (induction h rt k p rule: crep.induct) auto

lemma rptr_eq_0: "rep h par t \<Longrightarrow> rptr t = NULL \<longleftrightarrow> t = Tip"
  by (cases t) auto

lemma rptr_in: "t \<noteq> Tip \<Longrightarrow> rptr t \<in> set (inord t)"
  by (cases t) auto

lemma cptr_in: "k \<noteq> [] \<Longrightarrow> cptr k \<in> set (lefts k @ rights k)"
  by (induction k rule: lefts.induct) auto

lemma rep_upd [simp]: "a \<notin> set (inord t) \<Longrightarrow> rep (h(a \<mapsto> n)) par t = rep h par t"
  by (induction t arbitrary: par) auto

lemma crep_upd [simp]: "a \<notin> set (lefts k) \<Longrightarrow> a \<notin> set (rights k) \<Longrightarrow> crep (h(a \<mapsto> n)) rt k p = crep h rt k p"
  by (induction h rt k p rule: crep.induct) auto

section \<open>Primitives at a position\<close>

lemma at_node:
  assumes "at F k (Nd l a c r) s"
  shows "a \<noteq> NULL" and "aligned a" and "aligned (cptr k)"
    and "rb_nodes s a = Some (mkn (cptr k) c (rptr l) (rptr r))"
  using assms cptr_aligned [of "rb_nodes s" "rb_root s" k a] by (auto simp: at_def)

lemma at_reads:
  assumes "at F k (Nd l a c r) s"
  shows "nget rb_left a s = Some (rptr l)" and "nget rb_right a s = Some (rptr r)"
    and "nget rb_parent a s = Some (cptr k)" and "nget rb_color a s = Some (cbit c)"
    and "nget rb_is_red a s = Some (c = Red)" and "nget rb_is_black a s = Some (c = Black)"
  using at_node [OF assms] by (simp_all add: nget_def getf_def deref_def)

lemma at_rptr_0: "at F k t s \<Longrightarrow> rptr t = NULL \<longleftrightarrow> t = Tip"
  by (auto simp: at_def dest: rptr_eq_0)

lemma at_cptr_0: "at F k t s \<Longrightarrow> cptr k = NULL \<longleftrightarrow> k = []"
  by (auto simp: at_def dest: cptr_eq_0)

lemma at_root: "at F k t s \<Longrightarrow> rb_root s = rptr (plug k t)"
  using at_plug [of F k t s] by (simp add: at_def)

lemma at_distinct: "at F k t s \<Longrightarrow> distinct (inord (plug k t))"
  by (simp add: at_def inord_plug)

lemma at_recolor:
  assumes "at F k (Nd l a c r) s"
  shows "at F k (Nd l a d r) (s\<lparr>rb_nodes := (rb_nodes s)(a \<mapsto> mkn (cptr k) d (rptr l) (rptr r))\<rparr>)"
  using assms by (auto simp: at_def)

lemma at_set_black:
  "at F k (Nd l a c r) s \<Longrightarrow> \<exists>s'. rb_set_black a s = Some s' \<and> at F k (Nd l a Black r) s'"
  using at_node [of F k l a c r s] at_recolor [of F k l a c r s Black]
  by (simp add: rb_set_black_def nmod_def modf_def deref_def)

lemma at_set_red:
  "at F k (Nd l a c r) s \<Longrightarrow> \<exists>s'. rb_set_red a s = Some s' \<and> at F k (Nd l a Red r) s'"
  using at_node [of F k l a c r s] at_recolor [of F k l a c r s Red]
  by (simp add: rb_set_red_def nmod_def modf_def deref_def)

lemma at_set_color:
  "at F k (Nd l a c r) s \<Longrightarrow> \<exists>s'. rb_set_color a (cbit d) s = Some s' \<and> at F k (Nd l a d r) s'"
  using at_node [of F k l a c r s] at_recolor [of F k l a c r s d]
  by (simp add: rb_set_color_def nmod_def modf_def deref_def)


text \<open>The child cell that points to the subtree at the position: the root's or the parent's.\<close>

fun relink :: "frame list \<Rightarrow> addr \<Rightarrow> rb_state \<Rightarrow> rb_state" where
  "relink [] v s = s\<lparr>rb_root := v\<rparr>"
| "relink (FL a c r # k) v s = s\<lparr>rb_nodes := (rb_nodes s)(a \<mapsto> mkn (cptr k) c v (rptr r))\<rparr>"
| "relink (FR l a c # k) v s = s\<lparr>rb_nodes := (rb_nodes s)(a \<mapsto> mkn (cptr k) c (rptr l) v)\<rparr>"

lemma relink_code:
  assumes "crep (rb_nodes s) (rb_root s) k p" and "p \<noteq> NULL" and "p \<notin> set (lefts k @ rights k)"
  shows "(if cptr k \<noteq> NULL then do {
            pl \<leftarrow> nget rb_left (cptr k) s;
            if p = pl then set_left (cptr k) v s else set_right (cptr k) v s }
          else Some (s\<lparr>rb_root := v\<rparr>)) = Some (relink k v s)"
    and "(if cptr k \<noteq> NULL then do {
            pl \<leftarrow> nget rb_left (cptr k) s;
            if pl = p then set_left (cptr k) v s else set_right (cptr k) v s }
          else Some (s\<lparr>rb_root := v\<rparr>)) = Some (relink k v s)"
    and "(if cptr k \<noteq> NULL then do {
            pr \<leftarrow> nget rb_right (cptr k) s;
            if p = pr then set_right (cptr k) v s else set_left (cptr k) v s }
          else Some (s\<lparr>rb_root := v\<rparr>)) = Some (relink k v s)"
proof -
  have *: "rptr t \<noteq> p" if "p \<notin> set (inord t)" for t
    using that assms(2) rptr_in [of t] by (cases t) auto
  show "(if cptr k \<noteq> NULL then do {
            pl \<leftarrow> nget rb_left (cptr k) s;
            if p = pl then set_left (cptr k) v s else set_right (cptr k) v s }
          else Some (s\<lparr>rb_root := v\<rparr>)) = Some (relink k v s)"
    and "(if cptr k \<noteq> NULL then do {
            pl \<leftarrow> nget rb_left (cptr k) s;
            if pl = p then set_left (cptr k) v s else set_right (cptr k) v s }
          else Some (s\<lparr>rb_root := v\<rparr>)) = Some (relink k v s)"
    and "(if cptr k \<noteq> NULL then do {
            pr \<leftarrow> nget rb_right (cptr k) s;
            if p = pr then set_right (cptr k) v s else set_left (cptr k) v s }
          else Some (s\<lparr>rb_root := v\<rparr>)) = Some (relink k v s)"
    using assms * by (cases k rule: lefts.cases; force simp: nget_def getf_def nmod_def modf_def deref_def
        set_left_def set_right_def)+
qed

lemma relink_nodes:
  "x \<noteq> cptr k \<or> k = [] \<Longrightarrow> rb_nodes (relink k v s) x = rb_nodes s x"
  by (cases k rule: lefts.cases) auto

lemma rep_cong: "rep h par t \<Longrightarrow> (\<And>x. x \<in> set (inord t) \<Longrightarrow> h' x = h x) \<Longrightarrow> rep h' par t"
  by (induction t arbitrary: par) auto

lemma crep_cong: "crep h rt k p \<Longrightarrow> (\<And>x. x \<in> set (lefts k @ rights k) \<Longrightarrow> h' x = h x) \<Longrightarrow> crep h' rt k p"
proof (induction h rt k p rule: crep.induct)
  case (2 h rt a c r k p)
  then show ?case using rep_cong [of h a r h'] by auto
next
  case (3 h rt l a c k p)
  then show ?case using rep_cong [of h a l h'] by auto
qed auto

lemma crep_relink:
  assumes "crep (rb_nodes s) (rb_root s) k p" and "distinct (lefts k @ rights k)"
  shows "crep (rb_nodes (relink k v s)) (rb_root (relink k v s)) k v"
  using assms by (cases k rule: lefts.cases) auto

text \<open>Changing the parent of a subtree's root, skipped for the empty subtree.\<close>

fun reparent :: "rtree \<Rightarrow> addr \<Rightarrow> rb_state \<Rightarrow> rb_state" where
  "reparent Tip q s = s"
| "reparent (Nd l a c r) q s = s\<lparr>rb_nodes := (rb_nodes s)(a \<mapsto> mkn q c (rptr l) (rptr r))\<rparr>"

lemma reparent_code:
  assumes "rep (rb_nodes s) par t" and "aligned par"
  shows "(if rptr t \<noteq> NULL then rb_set_parent (rptr t) q s else Some s) = Some (reparent t q s)"
  using assms by (cases t) (auto simp: rb_set_parent_def nmod_def modf_def deref_def)

lemma reparent_nodes: "x \<notin> set (inord t) \<Longrightarrow> rb_nodes (reparent t q s) x = rb_nodes s x"
  by (cases t) auto

lemma reparent_root [simp]: "rb_root (reparent t q s) = rb_root s"
  by (cases t) auto

lemma rep_reparent:
  "rep (rb_nodes s) par t \<Longrightarrow> distinct (inord t) \<Longrightarrow> rep (rb_nodes (reparent t q s)) q t"
  by (cases t) auto

lemma set_fields:
  assumes "rb_nodes s a = Some n" and "a \<noteq> NULL"
  shows "set_left a v s = Some (s\<lparr>rb_nodes := (rb_nodes s)(a \<mapsto> n\<lparr>rb_left := v\<rparr>)\<rparr>)"
    and "set_right a v s = Some (s\<lparr>rb_nodes := (rb_nodes s)(a \<mapsto> n\<lparr>rb_right := v\<rparr>)\<rparr>)"
    and "nmod u a s = Some (s\<lparr>rb_nodes := (rb_nodes s)(a \<mapsto> u n)\<rparr>)"
    and "nget f a s = Some (f n)"
  using assms by (simp_all add: set_left_def set_right_def nmod_def modf_def nget_def getf_def deref_def)

lemma set_parent_mkn:
  assumes "rb_nodes s a = Some (mkn p c l r)" and "a \<noteq> NULL" and "aligned p"
  shows "rb_set_parent a q s = Some (s\<lparr>rb_nodes := (rb_nodes s)(a \<mapsto> mkn q c l r)\<rparr>)"
  using assms by (simp add: rb_set_parent_def set_fields)

text \<open>
  The pivot of both rotations: the subtree \<open>m\<close> between \<open>a\<close> and \<open>b\<close> moves below \<open>a\<close>, then \<open>b\<close> takes the place of \<open>a\<close> and \<open>a\<close> goes
  below \<open>b\<close>. Which sides the links are on is left open in the fields \<open>x\<close> and \<open>y\<close> of \<open>a\<close> and in the record \<open>nb\<close> of \<open>b\<close>.
\<close>

definition pivot_in :: "rtree \<Rightarrow> addr \<Rightarrow> rb_node \<Rightarrow> rb_state \<Rightarrow> rb_state" where
  "pivot_in m a na s = reparent m a (s\<lparr>rb_nodes := (rb_nodes s)(a \<mapsto> na)\<rparr>)"

definition pivot_up :: "frame list \<Rightarrow> addr \<Rightarrow> rb_node \<Rightarrow> rb_state \<Rightarrow> rb_state" where
  "pivot_up k b nb s = relink k b (s\<lparr>rb_nodes := (rb_nodes s)(b \<mapsto> nb)\<rparr>)"

definition pivot_out :: "addr \<Rightarrow> rb_node \<Rightarrow> rb_state \<Rightarrow> rb_state" where
  "pivot_out a na s = s\<lparr>rb_nodes := (rb_nodes s)(a \<mapsto> na)\<rparr>"

definition pivot_apart :: "frame list \<Rightarrow> addr \<Rightarrow> addr \<Rightarrow> rtree \<Rightarrow> bool" where
  "pivot_apart k a b m \<longleftrightarrow> distinct (a # b # inord m @ lefts k @ rights k)"

lemma pivot_nodes:
  assumes "pivot_apart k a b m" and "crep h rt k p" and "a \<noteq> NULL" and "b \<noteq> NULL"
    and "s' = pivot_out a na' (pivot_up k b nb (pivot_in m a na s))"
  shows "rb_nodes (pivot_in m a na s) b = rb_nodes s b" and "rb_nodes (pivot_up k b nb (pivot_in m a na s)) a = Some na"
    and "rb_nodes s' a = Some na'" and "rb_nodes s' b = Some nb"
    and "x \<noteq> a \<Longrightarrow> x \<noteq> b \<Longrightarrow> x \<notin> set (inord m) \<Longrightarrow> x \<noteq> cptr k \<or> k = [] \<Longrightarrow> rb_nodes s' x = rb_nodes s x"
    and "x \<in> set (inord m) \<Longrightarrow> rb_nodes s' x = rb_nodes (pivot_in m a na s) x"
proof -
  have k: "a \<noteq> cptr k \<or> k = []" "b \<noteq> cptr k \<or> k = []" "x \<in> set (inord m) \<Longrightarrow> x \<noteq> cptr k \<or> k = []"
    using assms(1) cptr_in [of k] by (auto simp: pivot_apart_def)
  note n = assms(5) pivot_out_def pivot_up_def pivot_in_def
  have d: "a \<noteq> b" "a \<notin> set (inord m)" "b \<notin> set (inord m)" using assms(1) by (auto simp: pivot_apart_def)
  show "rb_nodes (pivot_in m a na s) b = rb_nodes s b" "rb_nodes (pivot_up k b nb (pivot_in m a na s)) a = Some na"
    using d by (simp_all add: n reparent_nodes relink_nodes [OF k(1)])
  show "rb_nodes s' a = Some na'" "rb_nodes s' b = Some nb" using d by (simp_all add: n relink_nodes [OF k(2)])
  show "x \<noteq> a \<Longrightarrow> x \<noteq> b \<Longrightarrow> x \<notin> set (inord m) \<Longrightarrow> x \<noteq> cptr k \<or> k = [] \<Longrightarrow> rb_nodes s' x = rb_nodes s x"
    by (simp add: n relink_nodes reparent_nodes)
  show "x \<in> set (inord m) \<Longrightarrow> rb_nodes s' x = rb_nodes (pivot_in m a na s) x"
    using d by (auto simp: n relink_nodes [OF k(3)])
qed

lemma pivot_shape:
  assumes ap: "pivot_apart k a b m" and c: "crep (rb_nodes s) (rb_root s) k a" and m: "rep (rb_nodes s) b m"
    and n: "a \<noteq> NULL" "b \<noteq> NULL" and s': "s' = pivot_out a na' (pivot_up k b nb (pivot_in m a na s))"
  shows "crep (rb_nodes s') (rb_root s') k b" and "rep (rb_nodes s') a m"
    and "crep ((rb_nodes (pivot_in m a na s))(b \<mapsto> nb)) (rb_root (pivot_in m a na s)) k a"
proof -
  have k: "a \<notin> set (lefts k)" "a \<notin> set (rights k)" "b \<notin> set (lefts k)" "b \<notin> set (rights k)" "distinct (lefts k @ rights k)"
    using ap by (auto simp: pivot_apart_def)
  have "crep (rb_nodes (pivot_in m a na s)) (rb_root s) k a"
  proof (rule crep_cong [OF c])
    fix x assume "x \<in> set (lefts k @ rights k)"
    then have "x \<notin> set (inord m)" "x \<noteq> a" using ap by (auto simp: pivot_apart_def)
    then show "rb_nodes (pivot_in m a na s) x = rb_nodes s x" by (simp add: pivot_in_def reparent_nodes)
  qed
  then show u: "crep ((rb_nodes (pivot_in m a na s))(b \<mapsto> nb)) (rb_root (pivot_in m a na s)) k a"
    using k by (simp add: pivot_in_def)
  show "crep (rb_nodes s') (rb_root s') k b"
    using crep_relink [of "(pivot_in m a na s)\<lparr>rb_nodes := (rb_nodes (pivot_in m a na s))(b \<mapsto> nb)\<rparr>" k a b] u k
    by (simp add: s' pivot_out_def pivot_up_def)
  have "rep (rb_nodes (pivot_in m a na s)) a m"
    using m ap unfolding pivot_in_def by (auto simp: pivot_apart_def intro!: rep_reparent)
  then show "rep (rb_nodes s') a m" by (rule rep_cong) (rule pivot_nodes(6) [OF ap c n s'])
qed

lemma pivot_code:
  assumes ap: "pivot_apart k a b m" and c: "crep (rb_nodes s) (rb_root s) k a" and m: "rep (rb_nodes s) b m"
    and n: "a \<noteq> NULL" "b \<noteq> NULL" "aligned b" and na: "na = mkn (cptr k) col x y"
    and s2: "s2 = pivot_in m a na s" and s3: "s3 = s2\<lparr>rb_nodes := (rb_nodes s2)(b \<mapsto> nb)\<rparr>" and s4: "s4 = pivot_up k b nb s2"
  shows "(if rptr m \<noteq> NULL then rb_set_parent (rptr m) a (s\<lparr>rb_nodes := (rb_nodes s)(a \<mapsto> na)\<rparr>)
      else Some (s\<lparr>rb_nodes := (rb_nodes s)(a \<mapsto> na)\<rparr>)) = Some s2"
    and "(if cptr k \<noteq> NULL then do { pl \<leftarrow> nget rb_left (cptr k) s3;
        if a = pl then set_left (cptr k) b s3 else set_right (cptr k) b s3 }
      else Some (s3\<lparr>rb_root := b\<rparr>)) = Some s4"
    and "(if cptr k \<noteq> NULL then do { pr \<leftarrow> nget rb_right (cptr k) s3;
        if a = pr then set_right (cptr k) b s3 else set_left (cptr k) b s3 }
      else Some (s3\<lparr>rb_root := b\<rparr>)) = Some s4"
    and "rb_set_parent a b s4 = Some (pivot_out a (mkn b col x y) s4)"
proof -
  have d: "a \<notin> set (inord m)" "a \<notin> set (lefts k @ rights k)" using ap by (auto simp: pivot_apart_def)
  show "(if rptr m \<noteq> NULL then rb_set_parent (rptr m) a (s\<lparr>rb_nodes := (rb_nodes s)(a \<mapsto> na)\<rparr>)
      else Some (s\<lparr>rb_nodes := (rb_nodes s)(a \<mapsto> na)\<rparr>)) = Some s2"
    unfolding s2 pivot_in_def using m d n(3) by (intro reparent_code) simp_all
  have c3: "crep (rb_nodes s3) (rb_root s3) k a" using pivot_shape(3) [OF ap c m n(1,2) refl] by (simp add: s3 s2)
  have e: "s4 = relink k b s3" by (simp add: s4 s3 pivot_up_def)
  show "(if cptr k \<noteq> NULL then do { pl \<leftarrow> nget rb_left (cptr k) s3;
        if a = pl then set_left (cptr k) b s3 else set_right (cptr k) b s3 }
      else Some (s3\<lparr>rb_root := b\<rparr>)) = Some s4" unfolding e using c3 n(1) d(2) by (rule relink_code)
  show "(if cptr k \<noteq> NULL then do { pr \<leftarrow> nget rb_right (cptr k) s3;
        if a = pr then set_right (cptr k) b s3 else set_left (cptr k) b s3 }
      else Some (s3\<lparr>rb_root := b\<rparr>)) = Some s4" unfolding e using c3 n(1) d(2) by (rule relink_code)
  have "rb_nodes s4 a = Some (mkn (cptr k) col x y)" using pivot_nodes(2) [OF ap c n(1,2) refl] by (simp add: s4 s2 na)
  then show "rb_set_parent a b s4 = Some (pivot_out a (mkn b col x y) s4)"
    using n(1) cptr_aligned [OF c] by (simp add: set_parent_mkn pivot_out_def)
qed

lemma at_rotate_left:
  assumes "at F k (Nd l a c (Nd m b d r)) s"
  shows "\<exists>s'. rb_rotate_left a s = Some s' \<and> at F k (Nd (Nd l a c m) b d r) s'"
proof -
  let ?h = "rb_nodes s"
  have A: "crep ?h (rb_root s) k a" "?h a = Some (mkn (cptr k) c (rptr l) b)" "?h b = Some (mkn a d (rptr m) (rptr r))"
      "a \<noteq> NULL" "b \<noteq> NULL" "aligned a" "aligned b" "rep ?h a l" "rep ?h b m" "rep ?h b r"
    and D: "distinct (lefts k @ (inord l @ a # inord m @ b # inord r) @ rights k)"
    and O: "\<And>x. x \<notin> set (lefts k @ (inord l @ a # inord m @ b # inord r) @ rights k) \<Longrightarrow> ?h x = F x"
    using assms by (auto simp: at_def)
  have ap: "pivot_apart k a b m" using D by (auto simp: pivot_apart_def)
  have k: "aligned (cptr k)" using A(1) cptr_aligned by blast
  define s2 where "s2 = pivot_in m a (mkn (cptr k) c (rptr l) (rptr m)) s"
  define s4 where "s4 = pivot_up k b (mkn (cptr k) d a (rptr r)) s2"
  define s5 where "s5 = pivot_out a (mkn b c (rptr l) (rptr m)) s4"
  note n = pivot_nodes [OF ap A(1,4,5), of s5 _ _ _ s, OF s5_def [unfolded s4_def s2_def]]
    and sh = pivot_shape [OF ap A(1,9,4,5) s5_def [unfolded s4_def s2_def]]
  note code = pivot_code [OF ap A(1,9,4,5,7) refl s2_def refl s4_def]
  have "nget rb_right a s = Some b" "nget rb_parent a s = Some (cptr k)" "nget rb_left b s = Some (rptr m)"
      "set_right a (rptr m) s = Some (s\<lparr>rb_nodes := ?h(a \<mapsto> mkn (cptr k) c (rptr l) (rptr m))\<rparr>)"
      "nget rb_left b (s\<lparr>rb_nodes := ?h(a \<mapsto> mkn (cptr k) c (rptr l) (rptr m))\<rparr>) = Some (rptr m)"
    using A k ap by (auto simp: set_fields pivot_apart_def)
  moreover have "set_left b a s2 \<bind> rb_set_parent b (cptr k) =
      Some (s2\<lparr>rb_nodes := (rb_nodes s2)(b \<mapsto> mkn (cptr k) d a (rptr r))\<rparr>)"
    using n(1) A(3,5,6) by (simp add: s2_def set_fields set_parent_mkn)
  ultimately have "rb_rotate_left a s = Some s5"
    using code by (auto simp: rb_rotate_left_def bind_Some_eq s5_def split: if_splits)
  moreover have "at F k (Nd (Nd l a c m) b d r) s5"
  proof -
    have nk: "x \<noteq> cptr k \<or> k = []" if "x \<in> set (inord l @ inord r) \<or> x \<notin> set (lefts k @ rights k)" for x
      using that D cptr_in [of k] by (cases "k = []") auto
    have "rep (rb_nodes s5) a l" using A(8) by (rule rep_cong) (rule n(5), use D nk in auto)
    moreover have "rep (rb_nodes s5) b r" using A(10) by (rule rep_cong) (rule n(5), use D nk in auto)
    ultimately have r5: "rep (rb_nodes s5) (cptr k) (Nd (Nd l a c m) b d r)" using A sh(2) n(3,4) by simp
    have "rb_nodes s5 x = F x" if "x \<notin> set (lefts k @ (inord l @ a # inord m @ b # inord r) @ rights k)" for x
      using n(5) [of x] O [of x] nk [of x] that by auto
    then show ?thesis using sh(1) r5 D by (simp add: at_def)
  qed
  ultimately show ?thesis by blast
qed

lemma at_rotate_right:
  assumes "at F k (Nd (Nd l b d m) a c r) s"
  shows "\<exists>s'. rb_rotate_right a s = Some s' \<and> at F k (Nd l b d (Nd m a c r)) s'"
proof -
  let ?h = "rb_nodes s"
  have A: "crep ?h (rb_root s) k a" "?h a = Some (mkn (cptr k) c b (rptr r))" "?h b = Some (mkn a d (rptr l) (rptr m))"
      "a \<noteq> NULL" "b \<noteq> NULL" "aligned a" "aligned b" "rep ?h a r" "rep ?h b m" "rep ?h b l"
    and D: "distinct (lefts k @ (inord l @ b # inord m @ a # inord r) @ rights k)"
    and O: "\<And>x. x \<notin> set (lefts k @ (inord l @ b # inord m @ a # inord r) @ rights k) \<Longrightarrow> ?h x = F x"
    using assms by (auto simp: at_def)
  have ap: "pivot_apart k a b m" using D by (auto simp: pivot_apart_def)
  have k: "aligned (cptr k)" using A(1) cptr_aligned by blast
  define s2 where "s2 = pivot_in m a (mkn (cptr k) c (rptr m) (rptr r)) s"
  define s4 where "s4 = pivot_up k b (mkn (cptr k) d (rptr l) a) s2"
  define s5 where "s5 = pivot_out a (mkn b c (rptr m) (rptr r)) s4"
  note n = pivot_nodes [OF ap A(1,4,5), of s5 _ _ _ s, OF s5_def [unfolded s4_def s2_def]]
    and sh = pivot_shape [OF ap A(1,9,4,5) s5_def [unfolded s4_def s2_def]]
  note code = pivot_code [OF ap A(1,9,4,5,7) refl s2_def refl s4_def]
  have "nget rb_left a s = Some b" "nget rb_parent a s = Some (cptr k)" "nget rb_right b s = Some (rptr m)"
      "set_left a (rptr m) s = Some (s\<lparr>rb_nodes := ?h(a \<mapsto> mkn (cptr k) c (rptr m) (rptr r))\<rparr>)"
      "nget rb_right b (s\<lparr>rb_nodes := ?h(a \<mapsto> mkn (cptr k) c (rptr m) (rptr r))\<rparr>) = Some (rptr m)"
    using A k ap by (auto simp: set_fields pivot_apart_def)
  moreover have "set_right b a s2 \<bind> rb_set_parent b (cptr k) =
      Some (s2\<lparr>rb_nodes := (rb_nodes s2)(b \<mapsto> mkn (cptr k) d (rptr l) a)\<rparr>)"
    using n(1) A(3,5,6) by (simp add: s2_def set_fields set_parent_mkn)
  ultimately have "rb_rotate_right a s = Some s5"
    using code by (auto simp: rb_rotate_right_def bind_Some_eq s5_def split: if_splits)
  moreover have "at F k (Nd l b d (Nd m a c r)) s5"
  proof -
    have nk: "x \<noteq> cptr k \<or> k = []" if "x \<in> set (inord l @ inord r) \<or> x \<notin> set (lefts k @ rights k)" for x
      using that D cptr_in [of k] by (cases "k = []") auto
    have "rep (rb_nodes s5) a r" using A(8) by (rule rep_cong) (rule n(5), use D nk in auto)
    moreover have "rep (rb_nodes s5) b l" using A(10) by (rule rep_cong) (rule n(5), use D nk in auto)
    ultimately have r5: "rep (rb_nodes s5) (cptr k) (Nd l b d (Nd m a c r))" using A sh(2) n(3,4) by simp
    have "rb_nodes s5 x = F x" if "x \<notin> set (lefts k @ (inord l @ b # inord m @ a # inord r) @ rights k)" for x
      using n(5) [of x] O [of x] nk [of x] that by auto
    then show ?thesis using sh(1) r5 D by (simp add: at_def)
  qed
  ultimately show ?thesis by blast
qed

end
