(* ===== verification/Rbtree_Insert.thy ===== *)
theory Rbtree_Insert
  imports Rbtree_Zipper
begin

text \<open>
  The red-black invariant and the rebalancing after an insertion: \<^verbatim>\<open>rb_insert_color\<close> ends, keeps the
  in-order sequence of the nodes and restores the invariant.
\<close>

section \<open>The invariant\<close>

fun rcol :: "rtree \<Rightarrow> color" where
  "rcol Tip = Black"
| "rcol (Nd l a c r) = c"

fun invc :: "rtree \<Rightarrow> bool" where
  "invc Tip \<longleftrightarrow> True"
| "invc (Nd l a c r) \<longleftrightarrow> invc l \<and> invc r \<and> (c = Red \<longrightarrow> rcol l = Black \<and> rcol r = Black)"

fun bh :: "rtree \<Rightarrow> nat" where
  "bh Tip = 0"
| "bh (Nd l a c r) = (if c = Black then Suc (bh l) else bh l)"

fun invh :: "rtree \<Rightarrow> bool" where
  "invh Tip \<longleftrightarrow> True"
| "invh (Nd l a c r) \<longleftrightarrow> invh l \<and> invh r \<and> bh l = bh r"

definition good :: "rtree \<Rightarrow> nat \<Rightarrow> bool" where
  "good t n \<longleftrightarrow> invc t \<and> invh t \<and> bh t = n"

definition rbt :: "rtree \<Rightarrow> bool" where
  "rbt t \<longleftrightarrow> invc t \<and> invh t \<and> rcol t = Black"

fun paint :: "color \<Rightarrow> rtree \<Rightarrow> rtree" where
  "paint c Tip = Tip"
| "paint c (Nd l a d r) = Nd l a c r"

lemma good_Tip [simp]: "good Tip n \<longleftrightarrow> n = 0"
  by (auto simp: good_def)

lemma good_Red [simp]: "good (Nd l a Red r) n \<longleftrightarrow> good l n \<and> good r n \<and> rcol l = Black \<and> rcol r = Black"
  by (auto simp: good_def)

lemma good_Black [simp]: "good (Nd l a Black r) n \<longleftrightarrow> (\<exists>m. n = Suc m \<and> good l m \<and> good r m)"
  by (auto simp: good_def)

lemma rbt_good: "rbt t \<longleftrightarrow> (\<exists>n. good t n) \<and> rcol t = Black"
  by (auto simp: rbt_def good_def)

lemma inord_paint [simp]: "inord (paint c t) = inord t"
  by (cases t) auto

text \<open>The same for a path: what has to hold around a hole of black height \<open>n\<close>.\<close>

fun kblack :: "frame list \<Rightarrow> bool" where
  "kblack [] \<longleftrightarrow> False"
| "kblack (f # k) \<longleftrightarrow> fcolor f = Black"

fun kgood :: "frame list \<Rightarrow> nat \<Rightarrow> bool" where
  "kgood [] n \<longleftrightarrow> True"
| "kgood (FL a Red r # k) n \<longleftrightarrow> good r n \<and> rcol r = Black \<and> kblack k \<and> kgood k n"
| "kgood (FL a Black r # k) n \<longleftrightarrow> good r n \<and> kgood k (Suc n)"
| "kgood (FR l a Red # k) n \<longleftrightarrow> good l n \<and> rcol l = Black \<and> kblack k \<and> kgood k n"
| "kgood (FR l a Black # k) n \<longleftrightarrow> good l n \<and> kgood k (Suc n)"

lemma plug_good:
  assumes "kgood k n" and "good t n" and "rcol t = Red \<Longrightarrow> kblack k"
  shows "rbt (plug k t)"
  using assms
proof (induction k arbitrary: n t)
  case Nil
  then show ?case by (cases "rcol t") (auto simp: rbt_good)
next
  case (Cons f k)
  have "rbt (plug k (fill f t))"
  proof (cases f)
    case (FL a c r)
    then show ?thesis using Cons(2-4) by (cases c; cases "rcol t") (auto intro!: Cons.IH)
  next
    case (FR l a c)
    then show ?thesis using Cons(2-4) by (cases c; cases "rcol t") (auto intro!: Cons.IH)
  qed
  then show ?case by simp
qed

section \<open>Steps of the loop\<close>

lemma at_is_red:
  assumes "at F k t s"
  shows "(if rptr t \<noteq> NULL then nget rb_is_red (rptr t) s else Some False) = Some (rcol t = Red)"
    and "null_or_black (rptr t) s = Some (rcol t = Black)"
proof -
  have t: "rptr t = NULL \<longleftrightarrow> t = Tip" using assms by (rule at_rptr_0)
  have "(if rptr t \<noteq> NULL then nget rb_is_red (rptr t) s else Some False) = Some (rcol t = Red) \<and>
      null_or_black (rptr t) s = Some (rcol t = Black)"
  proof (cases t)
    case (Nd l a c r)
    then show ?thesis using at_reads [of F k l a c r s] assms t by (simp add: null_or_black_def)
  qed (simp add: null_or_black_def)
  then show "(if rptr t \<noteq> NULL then nget rb_is_red (rptr t) s else Some False) = Some (rcol t = Red)"
    and "null_or_black (rptr t) s = Some (rcol t = Black)" by simp_all
qed

lemma at_ne:
  assumes "at F k t s" and "x \<noteq> NULL" and "x \<notin> set (inord t)"
  shows "rptr t \<noteq> x"
  using assms(2,3) rptr_in [of t] by (cases t) auto

lemma at_distinct_here: "at F k t s \<Longrightarrow> distinct (inord t)"
  by (simp add: at_def)

lemma left_uncle:
  assumes "at F k (Nd (Nd A p Red B) g c (Nd ul u Red ur)) s"
  shows "\<exists>s'. insert_color_left x p g s = Some (g, s') \<and> at F k (Nd (Nd A p Black B) g Red (Nd ul u Black ur)) s'"
proof -
  note r = at_reads [OF assms] and q = at_reads [of F "FR (Nd A p Red B) g c # k" ul u Red ur s]
  have u: "u \<noteq> NULL" using at_node(1) [of F "FR (Nd A p Red B) g c # k" ul u Red ur s] assms by simp
  obtain s1 where 1: "rb_set_black u s = Some s1" "at F k (Nd (Nd A p Red B) g c (Nd ul u Black ur)) s1"
    using at_set_black [of F "FR (Nd A p Red B) g c # k" ul u Red ur s] assms by auto
  obtain s2 where 2: "rb_set_black p s1 = Some s2" "at F k (Nd (Nd A p Black B) g c (Nd ul u Black ur)) s2"
    using at_set_black [of F "FL g c (Nd ul u Black ur) # k" A p Red B s1] 1(2) by auto
  obtain s3 where 3: "rb_set_red g s2 = Some s3" "at F k (Nd (Nd A p Black B) g Red (Nd ul u Black ur)) s3"
    using at_set_red [OF 2(2)] by blast
  show ?thesis using r q assms u 1 2 3 by (simp add: insert_color_left_def)
qed

lemma left_outer:
  assumes "at F k (Nd (Nd (Nd l x Red r) p Red B) g c u) s" and "rcol u = Black"
  shows "\<exists>s'. insert_color_left x p g s = Some (x, s') \<and> at F k (Nd (Nd l x Red r) p Black (Nd B g Red u)) s'"
proof -
  note r = at_reads [OF assms(1)] and pr = at_reads [of F "FL g c u # k" "Nd l x Red r" p Red B s]
  have ur: "(if rptr u \<noteq> NULL then nget rb_is_red (rptr u) s else Some False) = Some False"
    using at_is_red(1) [of F "FR (Nd (Nd l x Red r) p Red B) g c # k" u s] assms by simp
  have "x \<noteq> NULL" using at_node(1) [of F "FL p Red B # FL g c u # k" l x Red r s] assms(1) by simp
  moreover have "x \<notin> set (inord B)" using at_distinct_here [OF assms(1)] by auto
  ultimately have nx: "rptr B \<noteq> x" using at_ne [of F "FR (Nd l x Red r) p Red # FL g c u # k" B s x] assms(1) by simp
  obtain s1 where 1: "rb_set_black p s = Some s1" "at F k (Nd (Nd (Nd l x Red r) p Black B) g c u) s1"
    using at_set_black [of F "FL g c u # k" "Nd l x Red r" p Red B s] assms(1) by auto
  obtain s2 where 2: "rb_set_red g s1 = Some s2" "at F k (Nd (Nd (Nd l x Red r) p Black B) g Red u) s2"
    using at_set_red [OF 1(2)] by blast
  obtain s3 where 3: "rb_rotate_right g s2 = Some s3" "at F k (Nd (Nd l x Red r) p Black (Nd B g Red u)) s3"
    using at_rotate_right [OF 2(2)] by blast
  show ?thesis using r pr assms(1) ur nx 1 2 3 by (simp add: insert_color_left_def)
qed

lemma left_inner:
  assumes "at F k (Nd (Nd B p Red (Nd l x Red r)) g c u) s" and "rcol u = Black"
  shows "\<exists>s'. insert_color_left x p g s = Some (p, s') \<and> at F k (Nd (Nd B p Red l) x Black (Nd r g Red u)) s'"
proof -
  note r = at_reads [OF assms(1)] and pr = at_reads [of F "FL g c u # k" B p Red "Nd l x Red r" s]
  have ur: "(if rptr u \<noteq> NULL then nget rb_is_red (rptr u) s else Some False) = Some False"
    using at_is_red(1) [of F "FR (Nd B p Red (Nd l x Red r)) g c # k" u s] assms by simp
  obtain s0 where 0: "rb_rotate_left p s = Some s0" "at F k (Nd (Nd (Nd B p Red l) x Red r) g c u) s0"
    using at_rotate_left [of F "FL g c u # k" B p Red l x Red r s] assms(1) by auto
  obtain s1 where 1: "rb_set_black x s0 = Some s1" "at F k (Nd (Nd (Nd B p Red l) x Black r) g c u) s1"
    using at_set_black [of F "FL g c u # k" "Nd B p Red l" x Red r s0] 0(2) by auto
  obtain s2 where 2: "rb_set_red g s1 = Some s2" "at F k (Nd (Nd (Nd B p Red l) x Black r) g Red u) s2"
    using at_set_red [OF 1(2)] by blast
  obtain s3 where 3: "rb_rotate_right g s2 = Some s3" "at F k (Nd (Nd B p Red l) x Black (Nd r g Red u)) s3"
    using at_rotate_right [OF 2(2)] by blast
  show ?thesis using r pr assms(1) ur 0 1 2 3 by (simp add: insert_color_left_def)
qed

lemma right_uncle:
  assumes "at F k (Nd (Nd ul u Red ur) g c (Nd A p Red B)) s"
  shows "\<exists>s'. insert_color_right x p g s = Some (g, s') \<and> at F k (Nd (Nd ul u Black ur) g Red (Nd A p Black B)) s'"
proof -
  note r = at_reads [OF assms] and q = at_reads [of F "FL g c (Nd A p Red B) # k" ul u Red ur s]
  have u: "u \<noteq> NULL" using at_node(1) [of F "FL g c (Nd A p Red B) # k" ul u Red ur s] assms by simp
  obtain s1 where 1: "rb_set_black u s = Some s1" "at F k (Nd (Nd ul u Black ur) g c (Nd A p Red B)) s1"
    using at_set_black [of F "FL g c (Nd A p Red B) # k" ul u Red ur s] assms by auto
  obtain s2 where 2: "rb_set_black p s1 = Some s2" "at F k (Nd (Nd ul u Black ur) g c (Nd A p Black B)) s2"
    using at_set_black [of F "FR (Nd ul u Black ur) g c # k" A p Red B s1] 1(2) by auto
  obtain s3 where 3: "rb_set_red g s2 = Some s3" "at F k (Nd (Nd ul u Black ur) g Red (Nd A p Black B)) s3"
    using at_set_red [OF 2(2)] by blast
  show ?thesis using r q assms u 1 2 3 by (simp add: insert_color_right_def)
qed

lemma right_outer:
  assumes "at F k (Nd u g c (Nd B p Red (Nd l x Red r))) s" and "rcol u = Black"
  shows "\<exists>s'. insert_color_right x p g s = Some (x, s') \<and> at F k (Nd (Nd u g Red B) p Black (Nd l x Red r)) s'"
proof -
  note r = at_reads [OF assms(1)] and pr = at_reads [of F "FR u g c # k" B p Red "Nd l x Red r" s]
  have ur: "(if rptr u \<noteq> NULL then nget rb_is_red (rptr u) s else Some False) = Some False"
    using at_is_red(1) [of F "FL g c (Nd B p Red (Nd l x Red r)) # k" u s] assms by simp
  have "x \<noteq> NULL" using at_node(1) [of F "FR B p Red # FR u g c # k" l x Red r s] assms(1) by simp
  moreover have "x \<notin> set (inord B)" using at_distinct_here [OF assms(1)] by auto
  ultimately have nx: "rptr B \<noteq> x" using at_ne [of F "FL p Red (Nd l x Red r) # FR u g c # k" B s x] assms(1) by simp
  obtain s1 where 1: "rb_set_black p s = Some s1" "at F k (Nd u g c (Nd B p Black (Nd l x Red r))) s1"
    using at_set_black [of F "FR u g c # k" B p Red "Nd l x Red r" s] assms(1) by auto
  obtain s2 where 2: "rb_set_red g s1 = Some s2" "at F k (Nd u g Red (Nd B p Black (Nd l x Red r))) s2"
    using at_set_red [OF 1(2)] by blast
  obtain s3 where 3: "rb_rotate_left g s2 = Some s3" "at F k (Nd (Nd u g Red B) p Black (Nd l x Red r)) s3"
    using at_rotate_left [OF 2(2)] by blast
  show ?thesis using r pr assms(1) ur nx 1 2 3 by (simp add: insert_color_right_def)
qed

lemma right_inner:
  assumes "at F k (Nd u g c (Nd (Nd l x Red r) p Red B)) s" and "rcol u = Black"
  shows "\<exists>s'. insert_color_right x p g s = Some (p, s') \<and> at F k (Nd (Nd u g Red l) x Black (Nd r p Red B)) s'"
proof -
  note r = at_reads [OF assms(1)] and pr = at_reads [of F "FR u g c # k" "Nd l x Red r" p Red B s]
  have ur: "(if rptr u \<noteq> NULL then nget rb_is_red (rptr u) s else Some False) = Some False"
    using at_is_red(1) [of F "FL g c (Nd (Nd l x Red r) p Red B) # k" u s] assms by simp
  obtain s0 where 0: "rb_rotate_right p s = Some s0" "at F k (Nd u g c (Nd l x Red (Nd r p Red B))) s0"
    using at_rotate_right [of F "FR u g c # k" l x Red r p Red B s] assms(1) by auto
  obtain s1 where 1: "rb_set_black x s0 = Some s1" "at F k (Nd u g c (Nd l x Black (Nd r p Red B))) s1"
    using at_set_black [of F "FR u g c # k" l x Red "Nd r p Red B" s0] 0(2) by auto
  obtain s2 where 2: "rb_set_red g s1 = Some s2" "at F k (Nd u g Red (Nd l x Black (Nd r p Red B))) s2"
    using at_set_red [OF 1(2)] by blast
  obtain s3 where 3: "rb_rotate_left g s2 = Some s3" "at F k (Nd (Nd u g Red l) x Black (Nd r p Red B)) s3"
    using at_rotate_left [OF 2(2)] by blast
  show ?thesis using r pr assms(1) ur 0 1 2 3 by (simp add: insert_color_right_def)
qed

section \<open>The loop\<close>

text \<open>The loop leaves at a node whose parent is missing or black.\<close>

lemma insert_loop_exit:
  assumes "at F k (Nd l x c r) s" and "k = [] \<or> kblack k"
  shows "insert_color_loop x s = Some s"
proof (cases k)
  case Nil
  then show ?thesis using at_reads(3) [OF assms(1)] by (simp add: insert_color_loop.simps)
next
  case (Cons f k')
  have "nget rb_is_red (faddr f) s = Some False"
    using assms Cons at_reads(5) [of F k' _ "faddr f" "fcolor f" _ s] by (cases f) auto
  moreover have "cptr k \<noteq> NULL" using at_cptr_0 [OF assms(1)] Cons by simp
  ultimately show ?thesis using at_reads(3) [OF assms(1)] Cons by (simp add: insert_color_loop.simps)
qed

text \<open>One pass under a red parent: the grandparent is black, and the loop goes on at it or leaves.\<close>

lemma insert_loop_step:
  assumes "at F (f # g # k) (Nd l x Red r) s" and "fcolor f = Red"
  shows "insert_color_loop x s = do {
    (node, s) \<leftarrow> (case g of FL _ _ _ \<Rightarrow> insert_color_left x (faddr f) (faddr g) s
                   | FR _ _ _ \<Rightarrow> insert_color_right x (faddr f) (faddr g) s);
    insert_color_loop node s }"
proof -
  note x = at_reads(3) [OF assms(1)]
  have f0: "faddr f \<noteq> NULL" and g0: "faddr g \<noteq> NULL"
    using at_cptr_0 [OF assms(1)] at_cptr_0 [of F "g # k" "fill f (Nd l x Red r)" s] assms(1) by simp_all
  have f: "nget rb_is_red (faddr f) s = Some True" "nget rb_parent (faddr f) s = Some (faddr g)"
    using assms at_reads(3,5) [of F "g # k" _ "faddr f" Red _ s] by (cases f; auto)+
  have "nget rb_left (faddr g) s = Some (case g of FL _ _ _ \<Rightarrow> faddr f | FR t _ _ \<Rightarrow> rptr t)"
    using assms(1) at_reads(1) [of F k _ "faddr g" "fcolor g" _ s] by (cases g; cases f) auto
  moreover have "rptr t \<noteq> faddr f" if "g = FR t a c" for t a c
    using that f0 at_ne [of F "FL a c (fill f (Nd l x Red r)) # k" t s "faddr f"] assms(1)
      at_distinct_here [of F k "fill g (fill f (Nd l x Red r))" s] by (cases f) auto
  ultimately show ?thesis using x f f0 g0 by (subst insert_color_loop.simps) (auto split: frame.splits)
qed

text \<open>
  What one pass achieves at the grandparent's position: the loop goes on at the grandparent, now red
  between black children, or it has ended with a black root there.
\<close>

definition pass_ok :: "rb_node heap \<Rightarrow> frame list \<Rightarrow> rtree \<Rightarrow> nat \<Rightarrow> addr \<Rightarrow> rb_state \<Rightarrow> bool" where
  "pass_ok F k T n x s \<longleftrightarrow>
     (\<exists>s' L y R. insert_color_loop x s = insert_color_loop y s' \<and> at F k (Nd L y Red R) s' \<and> good L (Suc n) \<and>
        good R (Suc n) \<and> rcol L = Black \<and> rcol R = Black \<and> inord (Nd L y Red R) = inord T) \<or>
     (\<exists>s' T'. insert_color_loop x s = Some s' \<and> at F k T' s' \<and> good T' (Suc n) \<and> rcol T' = Black \<and> inord T' = inord T)"

lemma pass_left:
  assumes at: "at F k (fill (FL g Black u) (fill f (Nd l x Red r))) s" and f: "fcolor f = Red"
    and kg: "kgood (f # FL g Black u # k) n" and lr: "good l n" "good r n" "rcol l = Black" "rcol r = Black"
  shows "pass_ok F k (fill (FL g Black u) (fill f (Nd l x Red r))) n x s"
proof -
  have step: "insert_color_loop x s = insert_color_left x (faddr f) g s \<bind> (\<lambda>(node, s). insert_color_loop node s)"
    using insert_loop_step [of F f "FL g Black u" k l x r s] at f by simp
  have u: "good u n" using kg f by (cases f) auto
  show ?thesis
  proof (cases "rcol u")
    case Red
    then obtain ul ua ur where u': "u = Nd ul ua Red ur" by (cases u) auto
    obtain A p B where P: "fill f (Nd l x Red r) = Nd A p Red B" "faddr f = p" "good A n" "good B n"
      using kg f lr by (cases f) auto
    obtain s' where "insert_color_left x p g s = Some (g, s')" "at F k (Nd (Nd A p Black B) g Red (Nd ul ua Black ur)) s'"
      using left_uncle [of F k A p B g Black ul ua ur s x] at P(1) u' by auto
    then show ?thesis unfolding pass_ok_def using step P u u' by (intro disjI1) fastforce
  next
    case Black
    show ?thesis
    proof (cases f)
      case (FL p pc B)
      have B: "good B n" "rcol B = Black" "pc = Red" using kg f FL by auto
      obtain s' where s': "insert_color_left x p g s = Some (x, s')" "at F k (Nd (Nd l x Red r) p Black (Nd B g Red u)) s'"
        using left_outer [of F k l x r p B g Black u s] at Black FL B by auto
      have "insert_color_loop x s' = Some s'"
        by (rule insert_loop_exit [of F "FL p Black (Nd B g Red u) # k" l x Red r]) (use s'(2) in simp_all)
      then show ?thesis unfolding pass_ok_def using step FL B s' lr u Black
        by (intro disjI2 exI [of _ s'] exI [of _ "Nd (Nd l x Red r) p Black (Nd B g Red u)"]) simp
    next
      case (FR B p pc)
      have B: "good B n" "rcol B = Black" "pc = Red" using kg f FR by auto
      obtain s' where s': "insert_color_left x p g s = Some (p, s')" "at F k (Nd (Nd B p Red l) x Black (Nd r g Red u)) s'"
        using left_inner [of F k B p l x r g Black u s] at Black FR B by auto
      have "insert_color_loop p s' = Some s'"
        by (rule insert_loop_exit [of F "FL x Black (Nd r g Red u) # k" B p Red l]) (use s'(2) in simp_all)
      then show ?thesis unfolding pass_ok_def using step FR B s' lr u Black
        by (intro disjI2 exI [of _ s'] exI [of _ "Nd (Nd B p Red l) x Black (Nd r g Red u)"]) simp
    qed
  qed
qed

lemma pass_right:
  assumes at: "at F k (fill (FR u g Black) (fill f (Nd l x Red r))) s" and f: "fcolor f = Red"
    and kg: "kgood (f # FR u g Black # k) n" and lr: "good l n" "good r n" "rcol l = Black" "rcol r = Black"
  shows "pass_ok F k (fill (FR u g Black) (fill f (Nd l x Red r))) n x s"
proof -
  have step: "insert_color_loop x s = insert_color_right x (faddr f) g s \<bind> (\<lambda>(node, s). insert_color_loop node s)"
    using insert_loop_step [of F f "FR u g Black" k l x r s] at f by simp
  have u: "good u n" using kg f by (cases f) auto
  show ?thesis
  proof (cases "rcol u")
    case Red
    then obtain ul ua ur where u': "u = Nd ul ua Red ur" by (cases u) auto
    obtain A p B where P: "fill f (Nd l x Red r) = Nd A p Red B" "faddr f = p" "good A n" "good B n"
      using kg f lr by (cases f) auto
    obtain s' where "insert_color_right x p g s = Some (g, s')" "at F k (Nd (Nd ul ua Black ur) g Red (Nd A p Black B)) s'"
      using right_uncle [of F k ul ua ur g Black A p B s x] at P(1) u' by auto
    then show ?thesis unfolding pass_ok_def using step P u u' by (intro disjI1) fastforce
  next
    case Black
    show ?thesis
    proof (cases f)
      case (FR B p pc)
      have B: "good B n" "rcol B = Black" "pc = Red" using kg f FR by auto
      obtain s' where s': "insert_color_right x p g s = Some (x, s')" "at F k (Nd (Nd u g Red B) p Black (Nd l x Red r)) s'"
        using right_outer [of F k u g Black B p l x r s] at Black FR B by auto
      have "insert_color_loop x s' = Some s'"
        by (rule insert_loop_exit [of F "FR (Nd u g Red B) p Black # k" l x Red r]) (use s'(2) in simp_all)
      then show ?thesis unfolding pass_ok_def using step FR B s' lr u Black
        by (intro disjI2 exI [of _ s'] exI [of _ "Nd (Nd u g Red B) p Black (Nd l x Red r)"]) simp
    next
      case (FL p pc B)
      have B: "good B n" "rcol B = Black" "pc = Red" using kg f FL by auto
      obtain s' where s': "insert_color_right x p g s = Some (p, s')" "at F k (Nd (Nd u g Red l) x Black (Nd r p Red B)) s'"
        using right_inner [of F k u g Black l x r p B s] at Black FL B by auto
      have "insert_color_loop p s' = Some s'"
        by (rule insert_loop_exit [of F "FR (Nd u g Red l) x Black # k" r p Red B]) (use s'(2) in simp_all)
      then show ?thesis unfolding pass_ok_def using step FL B s' lr u Black
        by (intro disjI2 exI [of _ s'] exI [of _ "Nd (Nd u g Red l) x Black (Nd r p Red B)"]) simp
    qed
  qed
qed

definition inserted :: "rb_node heap \<Rightarrow> addr list \<Rightarrow> addr \<Rightarrow> rb_state \<Rightarrow> bool" where
  "inserted F xs x s \<longleftrightarrow> (\<exists>s' t'. insert_color_loop x s = Some s' \<and> holds F t' s' \<and> inord t' = xs \<and>
     t' \<noteq> Tip \<and> rbt (paint Black t'))"

lemma inserted_done:
  assumes "at F k T s'" and "good T n" and "kgood k n" and "rcol T = Red \<Longrightarrow> k = [] \<or> kblack k" and "inord T \<noteq> []"
    and "insert_color_loop x s = Some s'"
  shows "inserted F (inord (plug k T)) x s"
proof -
  have ne: "plug k T \<noteq> Tip" using inord_plug [of k T] assms(5) by auto
  have "rbt (paint Black (plug k T))"
  proof (cases "k = [] \<and> rcol T = Red")
    case True
    then show ?thesis using assms(2) by (cases T) (auto simp: rbt_def good_def)
  next
    case False
    then have "rbt (plug k T)" using assms(2-4) by (intro plug_good [of k n]) auto
    then show ?thesis using ne by (cases "plug k T") (auto simp: rbt_def)
  qed
  then show ?thesis unfolding inserted_def using ne at_plug [THEN iffD1, OF assms(1)] assms(6) by blast
qed

lemma insert_loop:
  assumes "at F k (Nd l x Red r) s" and "kgood k n" and "good l n" and "good r n"
    and "rcol l = Black" and "rcol r = Black"
  shows "inserted F (inord (plug k (Nd l x Red r))) x s"
  using assms
proof (induction k arbitrary: l x r s n rule: length_induct)
  case (1 k)
  note at = 1(2) and kg = 1(3) and lr = 1(4-7)
  show ?case
  proof (cases "k = [] \<or> kblack k")
    case True
    then show ?thesis using lr by (intro inserted_done [OF at _ kg _ _ insert_loop_exit [OF at True]]) auto
  next
    case False
    then obtain f k1 where f: "k = f # k1" "fcolor f = Red" by (cases k) auto
    moreover have "kblack k1" using kg f by (cases f) auto
    ultimately obtain g k' where k: "k = f # g # k'" "fcolor f = Red" "fcolor g = Black" by (cases k1) auto
    have kg': "kgood k' (Suc n)" using kg k by (cases f; cases g) auto
    have "pass_ok F k' (fill g (fill f (Nd l x Red r))) n x s"
      using pass_left [of F k' _ _ f l x r s n] pass_right [of F k' _ _ f l x r s n] at kg lr k by (cases g) auto
    then show ?thesis unfolding pass_ok_def
    proof (elim disjE exE conjE, goal_cases)
      case (1 s' L y R)
      then show ?thesis using "1.IH" [rule_format, of k' L y R s' "Suc n"] kg' k by (auto simp: inserted_def inord_plug)
    next
      case (2 s' T')
      have "inord T' \<noteq> []" using 2(5) by (cases g; cases f) simp_all
      then have "inserted F (inord (plug k' T')) x s" using 2 by (intro inserted_done [OF 2(2,3) kg' _ _ 2(1)]) simp_all
      then show ?thesis using 2(5) k by (simp add: inord_plug)
    qed
  qed
qed

lemma insert_color:
  assumes "at F k (Nd Tip x Red Tip) s" and "kgood k 0"
  shows "\<exists>s' t'. rb_insert_color x s = Some s' \<and> holds F t' s' \<and> rbt t' \<and> inord t' = lefts k @ x # rights k"
proof -
  obtain s1 t1 where 1: "insert_color_loop x s = Some s1" "holds F t1 s1" "inord t1 = inord (plug k (Nd Tip x Red Tip))"
      "t1 \<noteq> Tip" "rbt (paint Black t1)"
    using insert_loop [OF assms] by (auto simp: inserted_def)
  obtain l a c r where t1: "t1 = Nd l a c r" using 1(4) by (cases t1) auto
  obtain s2 where "rb_set_black a s1 = Some s2" "holds F (Nd l a Black r) s2"
    using at_set_black [of F "[]" l a c r s1] 1(2) t1 by auto
  moreover have "rb_root s1 = a" using at_root [OF 1(2)] t1 by simp
  ultimately show ?thesis using 1 t1 by (auto simp: rb_insert_color_def inord_plug)
qed

end
