(* ===== verification/Rbtree_Erase_Color.thy ===== *)
theory Rbtree_Erase_Color
  imports Rbtree_Insert
begin

text \<open>
  The rebalancing after a removal: \<^verbatim>\<open>__rb_erase_color\<close>, started at a subtree whose black height is one
  short, ends, keeps the in-order sequence and restores the invariant.
\<close>

section \<open>Passes at a black sibling\<close>

text \<open>The body of the loop after the case of a red sibling, for a left and for a right child.\<close>

definition rest_left :: "addr \<Rightarrow> addr \<Rightarrow> rb_state \<Rightarrow> ((addr \<times> addr) option \<times> rb_state) option" where
  "rest_left parent other s = do {
     ol \<leftarrow> nget rb_left other s;
     olb \<leftarrow> null_or_black ol s;
     or \<leftarrow> nget rb_right other s;
     orb \<leftarrow> null_or_black or s;
     if olb \<and> orb then do {
       s \<leftarrow> rb_set_red other s;
       pp \<leftarrow> nget rb_parent parent s;
       Some (Some (parent, pp), s) }
     else do {
       (other, s) \<leftarrow>
         (if orb then do {
            s \<leftarrow> (if ol \<noteq> NULL then rb_set_black ol s else Some s);
            s \<leftarrow> rb_set_red other s;
            s \<leftarrow> rb_rotate_right other s;
            other \<leftarrow> nget rb_right parent s;
            Some (other, s) }
          else Some (other, s));
       c \<leftarrow> nget rb_color parent s;
       s \<leftarrow> rb_set_color other c s;
       s \<leftarrow> rb_set_black parent s;
       or \<leftarrow> nget rb_right other s;
       s \<leftarrow> (if or \<noteq> NULL then rb_set_black or s else Some s);
       s \<leftarrow> rb_rotate_left parent s;
       Some (None, s) } }"

definition rest_right :: "addr \<Rightarrow> addr \<Rightarrow> rb_state \<Rightarrow> ((addr \<times> addr) option \<times> rb_state) option" where
  "rest_right parent other s = do {
     ol \<leftarrow> nget rb_left other s;
     olb \<leftarrow> null_or_black ol s;
     or \<leftarrow> nget rb_right other s;
     orb \<leftarrow> null_or_black or s;
     if olb \<and> orb then do {
       s \<leftarrow> rb_set_red other s;
       pp \<leftarrow> nget rb_parent parent s;
       Some (Some (parent, pp), s) }
     else do {
       (other, s) \<leftarrow>
         (if olb then do {
            s \<leftarrow> (if or \<noteq> NULL then rb_set_black or s else Some s);
            s \<leftarrow> rb_set_red other s;
            s \<leftarrow> rb_rotate_left other s;
            other \<leftarrow> nget rb_left parent s;
            Some (other, s) }
          else Some (other, s));
       c \<leftarrow> nget rb_color parent s;
       s \<leftarrow> rb_set_color other c s;
       s \<leftarrow> rb_set_black parent s;
       ol \<leftarrow> nget rb_left other s;
       s \<leftarrow> (if ol \<noteq> NULL then rb_set_black ol s else Some s);
       s \<leftarrow> rb_rotate_right parent s;
       Some (None, s) } }"

lemma erase_color_left_rest:
  "erase_color_left parent s = do {
     other \<leftarrow> nget rb_right parent s;
     ored \<leftarrow> nget rb_is_red other s;
     (other, s) \<leftarrow>
       (if ored then do {
          s \<leftarrow> rb_set_black other s;
          s \<leftarrow> rb_set_red parent s;
          s \<leftarrow> rb_rotate_left parent s;
          other \<leftarrow> nget rb_right parent s;
          Some (other, s) }
        else Some (other, s));
     rest_left parent other s }"
  by (simp add: erase_color_left_def rest_left_def)

lemma erase_color_right_rest:
  "erase_color_right parent s = do {
     other \<leftarrow> nget rb_left parent s;
     ored \<leftarrow> nget rb_is_red other s;
     (other, s) \<leftarrow>
       (if ored then do {
          s \<leftarrow> rb_set_black other s;
          s \<leftarrow> rb_set_red parent s;
          s \<leftarrow> rb_rotate_right parent s;
          other \<leftarrow> nget rb_left parent s;
          Some (other, s) }
        else Some (other, s));
     rest_right parent other s }"
  by (simp add: erase_color_right_def rest_right_def)

lemma sibling_reads_left:
  assumes "at F k (Nd t p c (Nd a w d b)) s"
  shows "nget rb_right p s = Some w" and "nget rb_left w s = Some (rptr a)" and "nget rb_right w s = Some (rptr b)"
    and "null_or_black (rptr a) s = Some (rcol a = Black)" and "null_or_black (rptr b) s = Some (rcol b = Black)"
    and "nget rb_is_red w s = Some (d = Red)" and "nget rb_color p s = Some (cbit c)" and "nget rb_parent p s = Some (cptr k)"
  using at_reads [OF assms] at_reads [of F "FR t p c # k" a w d b s] at_is_red(2) [of F "FL w d b # FR t p c # k" a s]
    at_is_red(2) [of F "FR a w d # FR t p c # k" b s] assms by simp_all

lemma sibling_reads_right:
  assumes "at F k (Nd (Nd a w d b) p c t) s"
  shows "nget rb_left p s = Some w" and "nget rb_left w s = Some (rptr a)" and "nget rb_right w s = Some (rptr b)"
    and "null_or_black (rptr a) s = Some (rcol a = Black)" and "null_or_black (rptr b) s = Some (rcol b = Black)"
    and "nget rb_is_red w s = Some (d = Red)" and "nget rb_color p s = Some (cbit c)" and "nget rb_parent p s = Some (cptr k)"
  using at_reads [OF assms] at_reads [of F "FL p c t # k" a w d b s] at_is_red(2) [of F "FL w d b # FL p c t # k" a s]
    at_is_red(2) [of F "FR a w d # FL p c t # k" b s] assms by simp_all

lemma rest_left_recolor:
  assumes "at F k (Nd t p c (Nd a w Black b)) s" and "rcol a = Black" and "rcol b = Black"
  shows "\<exists>s'. rest_left p w s = Some (Some (p, cptr k), s') \<and> at F k (Nd t p c (Nd a w Red b)) s'"
proof -
  obtain s1 where 1: "rb_set_red w s = Some s1" "at F k (Nd t p c (Nd a w Red b)) s1"
    using at_set_red [of F "FR t p c # k" a w Black b s] assms(1) by auto
  then show ?thesis using sibling_reads_left [OF assms(1)] sibling_reads_left(8) [OF 1(2)] assms(2,3)
    by (simp add: rest_left_def)
qed

text \<open>The recolouring and the rotation that end the loop, for a sibling with a red outer child.\<close>

lemma final_left:
  assumes "at F k (Nd t p c (Nd a w d (Nd b1 y e b2))) s"
  shows "\<exists>s'. do {
       c \<leftarrow> nget rb_color p s;
       s \<leftarrow> rb_set_color w c s;
       s \<leftarrow> rb_set_black p s;
       or \<leftarrow> nget rb_right w s;
       s \<leftarrow> (if or \<noteq> NULL then rb_set_black or s else Some s);
       s \<leftarrow> rb_rotate_left p s;
       Some (None :: (addr \<times> addr) option, s) } = Some (None, s') \<and> at F k (Nd (Nd t p Black a) w c (Nd b1 y Black b2)) s'"
proof -
  obtain s1 where 1: "rb_set_color w (cbit c) s = Some s1" "at F k (Nd t p c (Nd a w c (Nd b1 y e b2))) s1"
    using at_set_color [of F "FR t p c # k" a w d "Nd b1 y e b2" s c] assms by auto
  obtain s2 where 2: "rb_set_black p s1 = Some s2" "at F k (Nd t p Black (Nd a w c (Nd b1 y e b2))) s2"
    using at_set_black [OF 1(2)] by blast
  have y: "y \<noteq> NULL" using at_node(1) [of F "FR a w c # FR t p Black # k" b1 y e b2 s2] 2(2) by simp
  obtain s3 where 3: "rb_set_black y s2 = Some s3" "at F k (Nd t p Black (Nd a w c (Nd b1 y Black b2))) s3"
    using at_set_black [of F "FR a w c # FR t p Black # k" b1 y e b2 s2] 2(2) by auto
  obtain s4 where 4: "rb_rotate_left p s3 = Some s4" "at F k (Nd (Nd t p Black a) w c (Nd b1 y Black b2)) s4"
    using at_rotate_left [OF 3(2)] by blast
  show ?thesis using sibling_reads_left(7) [OF assms] sibling_reads_left(3) [OF 2(2)] 1 2 3 4 y by simp
qed

lemma rest_left_outer:
  assumes "at F k (Nd t p c (Nd a w Black (Nd b1 y Red b2))) s"
  shows "\<exists>s'. rest_left p w s = Some (None, s') \<and> at F k (Nd (Nd t p Black a) w c (Nd b1 y Black b2)) s'"
  using sibling_reads_left [OF assms] final_left [OF assms] by (simp add: rest_left_def)

lemma rest_left_inner:
  assumes "at F k (Nd t p c (Nd (Nd a1 x Red a2) w Black b)) s" and "rcol b = Black"
  shows "\<exists>s'. rest_left p w s = Some (None, s') \<and> at F k (Nd (Nd t p Black a1) x c (Nd a2 w Black b)) s'"
proof -
  have x: "x \<noteq> NULL" using at_node(1) [of F "FL w Black b # FR t p c # k" a1 x Red a2 s] assms(1) by simp
  obtain s1 where 1: "rb_set_black x s = Some s1" "at F k (Nd t p c (Nd (Nd a1 x Black a2) w Black b)) s1"
    using at_set_black [of F "FL w Black b # FR t p c # k" a1 x Red a2 s] assms(1) by auto
  obtain s2 where 2: "rb_set_red w s1 = Some s2" "at F k (Nd t p c (Nd (Nd a1 x Black a2) w Red b)) s2"
    using at_set_red [of F "FR t p c # k" "Nd a1 x Black a2" w Black b s1] 1(2) by auto
  obtain s3 where 3: "rb_rotate_right w s2 = Some s3" "at F k (Nd t p c (Nd a1 x Black (Nd a2 w Red b))) s3"
    using at_rotate_right [of F "FR t p c # k" a1 x Black a2 w Red b s2] 2(2) by auto
  show ?thesis using sibling_reads_left [OF assms(1)] sibling_reads_left(1) [OF 3(2)] final_left [OF 3(2)] 1 2 3 x assms(2)
    by (simp add: rest_left_def)
qed

lemma rest_right_recolor:
  assumes "at F k (Nd (Nd a w Black b) p c t) s" and "rcol a = Black" and "rcol b = Black"
  shows "\<exists>s'. rest_right p w s = Some (Some (p, cptr k), s') \<and> at F k (Nd (Nd a w Red b) p c t) s'"
proof -
  obtain s1 where 1: "rb_set_red w s = Some s1" "at F k (Nd (Nd a w Red b) p c t) s1"
    using at_set_red [of F "FL p c t # k" a w Black b s] assms(1) by auto
  then show ?thesis using sibling_reads_right [OF assms(1)] sibling_reads_right(8) [OF 1(2)] assms(2,3)
    by (simp add: rest_right_def)
qed

lemma final_right:
  assumes "at F k (Nd (Nd (Nd b1 y e b2) w d a) p c t) s"
  shows "\<exists>s'. do {
       c \<leftarrow> nget rb_color p s;
       s \<leftarrow> rb_set_color w c s;
       s \<leftarrow> rb_set_black p s;
       ol \<leftarrow> nget rb_left w s;
       s \<leftarrow> (if ol \<noteq> NULL then rb_set_black ol s else Some s);
       s \<leftarrow> rb_rotate_right p s;
       Some (None :: (addr \<times> addr) option, s) } = Some (None, s') \<and> at F k (Nd (Nd b1 y Black b2) w c (Nd a p Black t)) s'"
proof -
  obtain s1 where 1: "rb_set_color w (cbit c) s = Some s1" "at F k (Nd (Nd (Nd b1 y e b2) w c a) p c t) s1"
    using at_set_color [of F "FL p c t # k" "Nd b1 y e b2" w d a s c] assms by auto
  obtain s2 where 2: "rb_set_black p s1 = Some s2" "at F k (Nd (Nd (Nd b1 y e b2) w c a) p Black t) s2"
    using at_set_black [OF 1(2)] by blast
  have y: "y \<noteq> NULL" using at_node(1) [of F "FL w c a # FL p Black t # k" b1 y e b2 s2] 2(2) by simp
  obtain s3 where 3: "rb_set_black y s2 = Some s3" "at F k (Nd (Nd (Nd b1 y Black b2) w c a) p Black t) s3"
    using at_set_black [of F "FL w c a # FL p Black t # k" b1 y e b2 s2] 2(2) by auto
  obtain s4 where 4: "rb_rotate_right p s3 = Some s4" "at F k (Nd (Nd b1 y Black b2) w c (Nd a p Black t)) s4"
    using at_rotate_right [OF 3(2)] by blast
  show ?thesis using sibling_reads_right(7) [OF assms] sibling_reads_right(2) [OF 2(2)] 1 2 3 4 y by simp
qed

lemma rest_right_outer:
  assumes "at F k (Nd (Nd (Nd b1 y Red b2) w Black a) p c t) s"
  shows "\<exists>s'. rest_right p w s = Some (None, s') \<and> at F k (Nd (Nd b1 y Black b2) w c (Nd a p Black t)) s'"
  using sibling_reads_right [OF assms] final_right [OF assms] by (simp add: rest_right_def)

lemma rest_right_inner:
  assumes "at F k (Nd (Nd b w Black (Nd a1 x Red a2)) p c t) s" and "rcol b = Black"
  shows "\<exists>s'. rest_right p w s = Some (None, s') \<and> at F k (Nd (Nd b w Black a1) x c (Nd a2 p Black t)) s'"
proof -
  have x: "x \<noteq> NULL" using at_node(1) [of F "FR b w Black # FL p c t # k" a1 x Red a2 s] assms(1) by simp
  obtain s1 where 1: "rb_set_black x s = Some s1" "at F k (Nd (Nd b w Black (Nd a1 x Black a2)) p c t) s1"
    using at_set_black [of F "FR b w Black # FL p c t # k" a1 x Red a2 s] assms(1) by auto
  obtain s2 where 2: "rb_set_red w s1 = Some s2" "at F k (Nd (Nd b w Red (Nd a1 x Black a2)) p c t) s2"
    using at_set_red [of F "FL p c t # k" b w Black "Nd a1 x Black a2" s1] 1(2) by auto
  obtain s3 where 3: "rb_rotate_left w s2 = Some s3" "at F k (Nd (Nd (Nd b w Red a1) x Black a2) p c t) s3"
    using at_rotate_left [of F "FL p c t # k" b w Red a1 x Black a2 s2] 2(2) by auto
  show ?thesis using sibling_reads_right [OF assms(1)] sibling_reads_right(1) [OF 3(2)] final_right [OF 3(2)] 1 2 3 x assms(2)
    by (simp add: rest_right_def)
qed

section \<open>The loop\<close>

text \<open>What the call achieves, and what a pass of the loop has to leave for that.\<close>

definition erased :: "rb_node heap \<Rightarrow> addr list \<Rightarrow> addr \<Rightarrow> addr \<Rightarrow> rb_state \<Rightarrow> bool" where
  "erased F xs node parent s \<longleftrightarrow>
     (\<exists>s' T. rb_erase_color node parent s = Some s' \<and> holds F T s' \<and> rbt T \<and> inord T = xs)"

fun passed :: "rb_node heap \<Rightarrow> addr list \<Rightarrow> ((addr \<times> addr) option \<times> rb_state) option \<Rightarrow> bool" where
  "passed F xs None \<longleftrightarrow> False"
| "passed F xs (Some (Some (node, parent), s)) \<longleftrightarrow> erased F xs node parent s"
| "passed F xs (Some (None, s)) \<longleftrightarrow> (\<exists>T. holds F T s \<and> rbt T \<and> inord T = xs)"

lemma holds_black_root:
  assumes "holds F T s" and "rbt T"
  shows "\<exists>s'. (if rb_root s \<noteq> NULL then rb_set_black (rb_root s) s else Some s) = Some s' \<and> holds F T s'"
proof (cases T)
  case Tip
  then show ?thesis using assms(1) at_root [OF assms(1)] by simp
next
  case (Nd l a c r)
  then have "c = Black" using assms(2) by (simp add: rbt_def)
  then show ?thesis using Nd assms(1) at_root [OF assms(1)] at_set_black [of F "[]" l a c r s] at_node(1) [of F "[]" l a c r s] by auto
qed

lemma erase_exit_red:
  assumes at: "at F k t s" and "rcol t = Red" and "good (paint Black t) n" and "kgood k n"
  shows "erased F (inord (plug k t)) (rptr t) (cptr k) s"
proof -
  obtain l a r where t: "t = Nd l a Red r" using assms(2) by (cases t) auto
  obtain s' where s': "rb_set_black a s = Some s'" "at F k (Nd l a Black r) s'" using at_set_black at unfolding t by blast
  have "erase_color_loop a (cptr k) s = Some (a, s)"
    using at_is_red(2) [OF at] t by (subst erase_color_loop.simps) simp
  then have "rb_erase_color a (cptr k) s = Some s'" using s'(1) at_node(1) [of F k l a Red r s] at t by (simp add: rb_erase_color_def)
  moreover have "rbt (plug k (Nd l a Black r))" using assms(3,4) t by (intro plug_good [of k n]) auto
  ultimately show ?thesis using at_plug [THEN iffD1, OF s'(2)] t unfolding erased_def by (auto simp: inord_plug)
qed

lemma erase_exit_root:
  assumes at: "holds F t s" and "rbt t"
  shows "erased F (inord t) (rptr t) NULL s"
proof -
  have r: "rb_root s = rptr t" using at_root [OF at] by simp
  have "erase_color_loop (rptr t) NULL s = Some (rptr t, s)"
    using at_is_red(2) [OF at] assms(2) r by (subst erase_color_loop.simps) (simp add: rbt_def)
  then show ?thesis using holds_black_root [OF assms] assms(2) r by (auto simp: rb_erase_color_def erased_def)
qed

lemma root_above:
  assumes "at F (f # k) t s"
  shows "rptr t \<noteq> rb_root s"
proof -
  have in_path: "rptr (plug k u) \<in> insert (rptr u) (set (lefts k @ rights k))" for u
  proof (induction k arbitrary: u)
    case (Cons g k)
    then show ?case by (cases g) (use Cons [of "fill g u"] in auto)
  qed simp
  have "rb_root s \<in> insert (faddr f) (set (lefts k @ rights k))"
    using in_path [of "fill f t"] at_root [OF assms] by (cases f) simp_all
  moreover have "faddr f \<notin> set (inord t)" "set (lefts k @ rights k) \<inter> set (inord t) = {}"
    using assms by (cases f; auto simp: at_def)+
  moreover have "rb_root s \<noteq> NULL"
  proof -
    have "inord (plug (f # k) t) \<noteq> []" unfolding inord_plug by (cases f) simp_all
    then have "plug (f # k) t \<noteq> Tip" by auto
    then show ?thesis using at_root [OF assms] at_rptr_0 [OF at_plug [THEN iffD1, OF assms]] by metis
  qed
  ultimately show ?thesis using rptr_in [of t] by (cases "t = Tip") auto
qed

lemma erase_step:
  assumes at: "at F (f # k) t s" and "rcol t = Black" and "good t n" and "kgood (f # k) (Suc n)"
    and pass: "passed F xs (case f of FL _ _ _ \<Rightarrow> erase_color_left (faddr f) s | FR _ _ _ \<Rightarrow> erase_color_right (faddr f) s)"
  shows "erased F xs (rptr t) (faddr f) s"
proof -
  define r where "r = (case f of FL _ _ _ \<Rightarrow> erase_color_left (faddr f) s | FR _ _ _ \<Rightarrow> erase_color_right (faddr f) s)"
  have pl: "nget rb_left (faddr f) s = Some (case f of FL _ _ _ \<Rightarrow> rptr t | FR l _ _ \<Rightarrow> rptr l)"
    using at at_reads(1) [of F k _ "faddr f" "fcolor f" _ s] by (cases f) auto
  have ne: "rptr l \<noteq> rptr t" if f: "f = FR l a c" for l a c
  proof -
    have l: "l \<noteq> Tip" using assms(4) f by (cases c) auto
    then have "rptr l \<noteq> NULL" using at_rptr_0 [of F "FL a c t # k" l s] at f by simp
    moreover have "set (inord l) \<inter> set (inord t) = {}" using at f by (auto simp: at_def)
    ultimately show ?thesis using rptr_in [OF l] rptr_in [of t] by (cases "t = Tip") auto
  qed
  have loop: "erase_color_loop (rptr t) (faddr f) s = r \<bind> (\<lambda>r. case r of
      (Some (node, parent), s) \<Rightarrow> erase_color_loop node parent s | (None, s) \<Rightarrow> Some (rb_root s, s))"
    using at_is_red(2) [OF at] assms(2) root_above [OF at] pl ne unfolding r_def
    by (subst erase_color_loop.simps) (auto split: frame.split)
  obtain q s1 where r: "r = Some (q, s1)" using pass unfolding r_def [symmetric] by (cases r) auto
  show ?thesis
  proof (cases q)
    case None
    then obtain T where T: "holds F T s1" "rbt T" "inord T = xs" using pass r unfolding r_def [symmetric] by auto
    then show ?thesis using holds_black_root [OF T(1,2)] loop r None by (auto simp: erased_def rb_erase_color_def)
  next
    case (Some np)
    then show ?thesis using pass loop r unfolding r_def [symmetric] by (cases np) (auto simp: erased_def rb_erase_color_def)
  qed
qed

text \<open>The rotated subtree fits the position again; a recoloured one is short one level up.\<close>

lemma rotated_fits:
  assumes "at F k (Nd L w c R) s" and "kgood (FL p c u # k) n \<or> kgood (FR u p c # k) n"
    and "good L n" and "good R n" and "rcol L = Black" and "rcol R = Black"
  shows "passed F (inord (plug k (Nd L w c R))) (Some (None, s))"
proof -
  have "rbt (plug k (Nd L w c R))"
    using assms(2-) plug_good [of k n "Nd L w c R"] plug_good [of k "Suc n" "Nd L w c R"] by (cases c) auto
  then show ?thesis using at_plug [THEN iffD1, OF assms(1)] by auto
qed

definition shorter_ok :: "rb_node heap \<Rightarrow> frame list \<Rightarrow> nat \<Rightarrow> bool" where
  "shorter_ok F k n \<longleftrightarrow> (\<forall>T s. at F k T s \<longrightarrow> rcol T = Black \<longrightarrow> good T n \<longrightarrow> kgood k (Suc n) \<longrightarrow>
     erased F (inord (plug k T)) (rptr T) (cptr k) s)"

lemma recolored_short:
  assumes "at F k (Nd L p c R) s" and "kgood (FL p c u # k) (Suc n) \<or> kgood (FR u p c # k) (Suc n)"
    and "good L n" and "good R n" and "c = Black \<Longrightarrow> shorter_ok F k (Suc n)"
  shows "passed F (inord (plug k (Nd L p c R))) (Some (Some (p, cptr k), s))"
proof (cases c)
  case Red
  then show ?thesis using erase_exit_red [OF assms(1), of "Suc n"] assms(2-4) by auto
next
  case Black
  moreover have "erased F (inord (plug k (Nd L p c R))) (rptr (Nd L p c R)) (cptr k) s"
    using assms(5) [OF Black, unfolded shorter_ok_def, rule_format, OF assms(1)] assms(2-4) Black by auto
  ultimately show ?thesis by simp
qed

lemma pass_black_left:
  assumes at: "at F k (Nd t p c (Nd a w Black b)) s" and t: "good t n" "rcol t = Black"
    and kg: "kgood (FL p c (Nd a w Black b) # k) (Suc n)" and short: "c = Black \<Longrightarrow> shorter_ok F k (Suc n)"
  shows "passed F (inord (plug k (Nd t p c (Nd a w Black b)))) (rest_left p w s)"
proof -
  have ab: "good a n" "good b n" using kg by (cases c; auto)+
  show ?thesis
  proof (cases "rcol b")
    case Red
    then obtain b1 y b2 where b: "b = Nd b1 y Red b2" by (cases b) auto
    obtain s' where s': "rest_left p w s = Some (None, s')" "at F k (Nd (Nd t p Black a) w c (Nd b1 y Black b2)) s'"
      using rest_left_outer at b by blast
    show ?thesis using rotated_fits [OF s'(2) disjI1 [OF kg]] s'(1) ab t b by (simp add: inord_plug)
  next
    case bb: Black
    show ?thesis
    proof (cases "rcol a")
      case Red
      then obtain a1 x a2 where a: "a = Nd a1 x Red a2" by (cases a) auto
      obtain s' where s': "rest_left p w s = Some (None, s')" "at F k (Nd (Nd t p Black a1) x c (Nd a2 w Black b)) s'"
        using rest_left_inner at a bb by blast
      show ?thesis using rotated_fits [OF s'(2) disjI1 [OF kg]] s'(1) ab t a by (simp add: inord_plug)
    next
      case Black
      obtain s' where s': "rest_left p w s = Some (Some (p, cptr k), s')" "at F k (Nd t p c (Nd a w Red b)) s'"
        using rest_left_recolor [OF at Black bb] by blast
      show ?thesis using recolored_short [OF s'(2) disjI1 [OF kg] t(1) _ short] s'(1) ab Black bb by (simp add: inord_plug)
    qed
  qed
qed

lemma pass_black_right:
  assumes at: "at F k (Nd (Nd a w Black b) p c t) s" and t: "good t n" "rcol t = Black"
    and kg: "kgood (FR (Nd a w Black b) p c # k) (Suc n)" and short: "c = Black \<Longrightarrow> shorter_ok F k (Suc n)"
  shows "passed F (inord (plug k (Nd (Nd a w Black b) p c t))) (rest_right p w s)"
proof -
  have ab: "good a n" "good b n" using kg by (cases c; auto)+
  show ?thesis
  proof (cases "rcol a")
    case Red
    then obtain b1 y b2 where a: "a = Nd b1 y Red b2" by (cases a) auto
    obtain s' where s': "rest_right p w s = Some (None, s')" "at F k (Nd (Nd b1 y Black b2) w c (Nd b p Black t)) s'"
      using rest_right_outer at a by blast
    show ?thesis using rotated_fits [OF s'(2) disjI2 [OF kg]] s'(1) ab t a by (simp add: inord_plug)
  next
    case aa: Black
    show ?thesis
    proof (cases "rcol b")
      case Red
      then obtain a1 x a2 where b: "b = Nd a1 x Red a2" by (cases b) auto
      obtain s' where s': "rest_right p w s = Some (None, s')" "at F k (Nd (Nd a w Black a1) x c (Nd a2 p Black t)) s'"
        using rest_right_inner at b aa by blast
      show ?thesis using rotated_fits [OF s'(2) disjI2 [OF kg]] s'(1) ab t b by (simp add: inord_plug)
    next
      case Black
      obtain s' where s': "rest_right p w s = Some (Some (p, cptr k), s')" "at F k (Nd (Nd a w Red b) p c t) s'"
        using rest_right_recolor [OF at aa Black] by blast
      show ?thesis using recolored_short [OF s'(2) disjI2 [OF kg] _ t(1) short] s'(1) ab Black aa by (simp add: inord_plug)
    qed
  qed
qed

text \<open>A red sibling is rotated up first; its child is the black sibling of the pass, under a red parent.\<close>

lemma red_left:
  assumes "at F k (Nd t p c (Nd a w Red b)) s"
  shows "\<exists>s'. erase_color_left p s = rest_left p (rptr a) s' \<and> at F k (Nd (Nd t p Red a) w Black b) s'"
proof -
  obtain s1 where 1: "rb_set_black w s = Some s1" "at F k (Nd t p c (Nd a w Black b)) s1"
    using at_set_black [of F "FR t p c # k" a w Red b s] assms by auto
  obtain s2 where 2: "rb_set_red p s1 = Some s2" "at F k (Nd t p Red (Nd a w Black b)) s2"
    using at_set_red [OF 1(2)] by blast
  obtain s3 where 3: "rb_rotate_left p s2 = Some s3" "at F k (Nd (Nd t p Red a) w Black b) s3"
    using at_rotate_left [OF 2(2)] by blast
  have "nget rb_right p s3 = Some (rptr a)" using at_reads(2) [of F "FL w Black b # k" t p Red a s3] 3(2) by simp
  then show ?thesis using sibling_reads_left [OF assms] 1 2 3 by (auto simp: erase_color_left_rest)
qed

lemma red_right:
  assumes "at F k (Nd (Nd b w Red a) p c t) s"
  shows "\<exists>s'. erase_color_right p s = rest_right p (rptr a) s' \<and> at F k (Nd b w Black (Nd a p Red t)) s'"
proof -
  obtain s1 where 1: "rb_set_black w s = Some s1" "at F k (Nd (Nd b w Black a) p c t) s1"
    using at_set_black [of F "FL p c t # k" b w Red a s] assms by auto
  obtain s2 where 2: "rb_set_red p s1 = Some s2" "at F k (Nd (Nd b w Black a) p Red t) s2"
    using at_set_red [OF 1(2)] by blast
  obtain s3 where 3: "rb_rotate_right p s2 = Some s3" "at F k (Nd b w Black (Nd a p Red t)) s3"
    using at_rotate_right [OF 2(2)] by blast
  have "nget rb_left p s3 = Some (rptr a)" using at_reads(1) [of F "FR b w Black # k" a p Red t s3] 3(2) by simp
  then show ?thesis using sibling_reads_right [OF assms] 1 2 3 by (auto simp: erase_color_right_rest)
qed

lemma good_Suc_black:
  assumes "good u (Suc n)" and "rcol u = Black"
  obtains a w b where "u = Nd a w Black b" and "good a n" and "good b n"
  using assms by (cases u) auto

lemma erase_pass_left:
  assumes at: "at F k (Nd t p c u) s" and t: "good t n" "rcol t = Black"
    and kg: "kgood (FL p c u # k) (Suc n)" and short: "c = Black \<Longrightarrow> shorter_ok F k (Suc n)"
  shows "passed F (inord (plug k (Nd t p c u))) (erase_color_left p s)"
proof -
  have u: "good u (Suc n)" using kg by (cases c) auto
  show ?thesis
  proof (cases "rcol u")
    case Black
    with u obtain a w b where u': "u = Nd a w Black b" by (rule good_Suc_black)
    then have "erase_color_left p s = rest_left p w s"
      using sibling_reads_left [of F k t p c a w Black b s] at by (simp add: erase_color_left_rest)
    then show ?thesis using pass_black_left [of F k t p c a w b s n] at t kg short u' by simp
  next
    case Red
    then obtain a w b where u': "u = Nd a w Red b" by (cases u) auto
    have c: "c = Black" and kg': "kgood k (Suc (Suc n))" and ab: "good a (Suc n)" "good b (Suc n)" "rcol a = Black"
      using kg u' by (cases c; auto)+
    obtain a1 x a2 where a: "a = Nd a1 x Black a2" using ab(1,3) by (rule good_Suc_black)
    obtain s' where s': "erase_color_left p s = rest_left p x s'" "at F (FL w Black b # k) (Nd t p Red (Nd a1 x Black a2)) s'"
      using red_left [of F k t p c a w b s] at u' a by auto
    have "kgood (FL p Red (Nd a1 x Black a2) # FL w Black b # k) (Suc n)" using kg' ab a by simp
    from pass_black_left [OF s'(2) t this] show ?thesis using s'(1) u' a by (simp add: inord_plug)
  qed
qed

lemma erase_pass_right:
  assumes at: "at F k (Nd u p c t) s" and t: "good t n" "rcol t = Black"
    and kg: "kgood (FR u p c # k) (Suc n)" and short: "c = Black \<Longrightarrow> shorter_ok F k (Suc n)"
  shows "passed F (inord (plug k (Nd u p c t))) (erase_color_right p s)"
proof -
  have u: "good u (Suc n)" using kg by (cases c) auto
  show ?thesis
  proof (cases "rcol u")
    case Black
    with u obtain a w b where u': "u = Nd a w Black b" by (rule good_Suc_black)
    then have "erase_color_right p s = rest_right p w s"
      using sibling_reads_right [of F k a w Black b p c t s] at by (simp add: erase_color_right_rest)
    then show ?thesis using pass_black_right [of F k a w b p c t s n] at t kg short u' by simp
  next
    case Red
    then obtain b w a where u': "u = Nd b w Red a" by (cases u) auto
    have c: "c = Black" and kg': "kgood k (Suc (Suc n))" and ab: "good a (Suc n)" "good b (Suc n)" "rcol a = Black"
      using kg u' by (cases c; auto)+
    obtain a1 x a2 where a: "a = Nd a1 x Black a2" using ab(1,3) by (rule good_Suc_black)
    obtain s' where s': "erase_color_right p s = rest_right p x s'" "at F (FR b w Black # k) (Nd (Nd a1 x Black a2) p Red t) s'"
      using red_right [of F k b w a p c t s] at u' a by auto
    have "kgood (FR (Nd a1 x Black a2) p Red # FR b w Black # k) (Suc n)" using kg' ab a by simp
    from pass_black_right [OF s'(2) t this] show ?thesis using s'(1) u' a by (simp add: inord_plug)
  qed
qed

lemma short_fixed: "shorter_ok F k n"
proof (induction k arbitrary: n rule: length_induct)
  case (1 k)
  show ?case unfolding shorter_ok_def
  proof (intro allI impI)
    fix T s assume at: "at F k T s" and T: "rcol T = Black" "good T n" and kg: "kgood k (Suc n)"
    show "erased F (inord (plug k T)) (rptr T) (cptr k) s"
    proof (cases k)
      case Nil
      then show ?thesis using erase_exit_root [of F T s] at T by (auto simp: rbt_good)
    next
      case (Cons f k')
      have short: "shorter_ok F k' (Suc n)" using 1 Cons by simp
      have "passed F (inord (plug k T)) (case f of FL _ _ _ \<Rightarrow> erase_color_left (faddr f) s | FR _ _ _ \<Rightarrow> erase_color_right (faddr f) s)"
        using erase_pass_left [of F k' T _ _ _ s n] erase_pass_right [of F k' _ _ _ T s n] at T kg short Cons by (cases f) auto
      then show ?thesis using erase_step [of F f k' T s n] at T kg Cons by simp
    qed
  qed
qed

lemma erase_color:
  assumes "at F k T s" and "kgood k (Suc n)" and "good T n \<and> rcol T = Black \<or> rcol T = Red \<and> good (paint Black T) (Suc n)"
  shows "erased F (inord (plug k T)) (rptr T) (cptr k) s"
  using assms short_fixed [of F k n, unfolded shorter_ok_def] erase_exit_red [of F k T s "Suc n"] by blast

end
