(* ===== verification/Rbtree_Search.thy ===== *)
theory Rbtree_Search
  imports Rbtree_Insert
begin

text \<open>
  The search-tree macros \<^verbatim>\<open>rb_find\<close> and \<^verbatim>\<open>rb_insert\<close> over a represented tree. The comparison is the user's:
  \<open>cmp_ok\<close> says that its sign orders the keys, as for \<^verbatim>\<open>strcmp\<close>. The code descends to the left when the
  comparison of the node with the searched key is negative, so the keys decrease from left to right.
\<close>

definition nkey :: "(addr \<Rightarrow> 'k) \<Rightarrow> u64 \<Rightarrow> addr \<Rightarrow> 'k" where
  "nkey key off a = key (rb_entry a off)"

definition ordered :: "(addr \<Rightarrow> 'k::linorder) \<Rightarrow> u64 \<Rightarrow> rtree \<Rightarrow> bool" where
  "ordered key off t \<longleftrightarrow> sorted_wrt (\<lambda>x y. nkey key off x > nkey key off y) (inord t)"

lemma ordered_Nd:
  "ordered key off (Nd l a c r) \<longleftrightarrow> ordered key off l \<and> ordered key off r \<and>
     (\<forall>x \<in> set (inord l). nkey key off x > nkey key off a) \<and> (\<forall>x \<in> set (inord r). nkey key off x < nkey key off a)"
  by (auto simp: ordered_def sorted_wrt_append intro: order.strict_trans)

section \<open>Lookup\<close>

lemma find_loop:
  assumes "cmp_ok cmp" and "rep (rb_nodes s) par t" and "ordered key off t"
  shows "(\<exists>x \<in> set (inord t). nkey key off x = v \<and> rb_find_loop key off cmp v (rptr t) s = Some (rb_entry x off)) \<or>
    (\<forall>x \<in> set (inord t). nkey key off x \<noteq> v) \<and> rb_find_loop key off cmp v (rptr t) s = Some NULL"
  using assms(2,3)
proof (induction t arbitrary: par)
  case Tip
  then show ?case by (simp add: rb_find_loop.simps)
next
  case (Nd l a c r)
  have a: "nget rb_left a s = Some (rptr l)" "nget rb_right a s = Some (rptr r)" "a \<noteq> NULL"
    using Nd.prems(1) by (simp_all add: set_fields(4))
  have o: "ordered key off l" "ordered key off r" "\<forall>x \<in> set (inord l). nkey key off x > nkey key off a"
      "\<forall>x \<in> set (inord r). nkey key off x < nkey key off a" using Nd.prems(2) by (auto simp: ordered_Nd)
  note lp = rb_find_loop.simps [of key off cmp v a s]
  have cm: "cmp (key (rb_entry a off)) v < 0 \<longleftrightarrow> nkey key off a < v" "cmp (key (rb_entry a off)) v > 0 \<longleftrightarrow> v < nkey key off a"
    using cmp_cases [OF assms(1)] by (auto simp: nkey_def)
  consider "nkey key off a < v" | "v < nkey key off a" | "nkey key off a = v" by (rule linorder_cases)
  then show ?case
  proof cases
    case 1
    then have "rb_find_loop key off cmp v a s = rb_find_loop key off cmp v (rptr l) s" using a cm by (subst lp) (simp add: Let_def)
    moreover have "\<forall>x \<in> set (a # inord r). nkey key off x \<noteq> v" using o 1 by force
    ultimately show ?thesis using Nd.IH(1) [of a] Nd.prems(1) o(1) by auto
  next
    case 2
    then have "rb_find_loop key off cmp v a s = rb_find_loop key off cmp v (rptr r) s" using a cm by (subst lp) (simp add: Let_def)
    moreover have "\<forall>x \<in> set (inord l @ [a]). nkey key off x \<noteq> v" using o 2 by force
    ultimately show ?thesis using Nd.IH(2) [of a] Nd.prems(1) o(2) by auto
  next
    case 3
    then have "rb_find_loop key off cmp v a s = Some (rb_entry a off)" using a cm by (subst lp) (simp add: Let_def)
    then show ?thesis using 3 by auto
  qed
qed

section \<open>Linking a new node\<close>

fun klink :: "frame list \<Rightarrow> rb_link" where
  "klink [] = RootLink"
| "klink (FL a c r # k) = LeftLink a"
| "klink (FR l a c # k) = RightLink a"

lemma link_get_at: "at F k t s \<Longrightarrow> link_get (klink k) s = Some (rptr t)"
  using at_root [of F k t s] at_reads(1,2) [of F "tl k" _ "cptr k" _ _ s]
  by (cases k rule: klink.cases) (auto simp: link_get_def simp del: at_frame simp add: at_frame)

lemma link_set_relink:
  assumes "crep (rb_nodes s) (rb_root s) k p"
  shows "link_set (klink k) v s = Some (relink k v s)"
  using assms by (cases k rule: klink.cases) (auto simp: link_set_def set_fields)

lemma at_link:
  assumes "at F k Tip s" and x: "x \<notin> set (lefts k @ rights k)" "x \<noteq> NULL" "aligned x" "rb_nodes s x \<noteq> None"
  shows "\<exists>s'. rb_link_node x (cptr k) (klink k) s = Some s' \<and> at F k (Nd Tip x Red Tip) s'"
proof -
  define s1 where "s1 = s\<lparr>rb_nodes := (rb_nodes s)(x \<mapsto> mkn (cptr k) Red NULL NULL)\<rparr>"
  have c: "crep (rb_nodes s) (rb_root s) k NULL" and d: "distinct (lefts k @ rights k)"
    and o: "\<And>y. y \<notin> set (lefts k @ rights k) \<Longrightarrow> rb_nodes s y = F y"
    using assms(1) by (auto simp: at_def)
  have c1: "crep (rb_nodes s1) (rb_root s1) k NULL" using c x(1) by (simp add: s1_def)
  obtain n where n: "rb_nodes s x = Some n" using x(4) by blast
  have "rb_link_node x (cptr k) (klink k) s = link_set (klink k) x s1"
    using n x(2) by (cases n) (simp add: rb_link_node_def set_fields s1_def mkn_def)
  also have "\<dots> = Some (relink k x s1)" using c1 by (rule link_set_relink)
  finally have "rb_link_node x (cptr k) (klink k) s = Some (relink k x s1)" .
  moreover have "at F k (Nd Tip x Red Tip) (relink k x s1)"
  proof -
    have kx: "x \<noteq> cptr k \<or> k = []" using x(1) cptr_in [of k] by auto
    have "crep (rb_nodes (relink k x s1)) (rb_root (relink k x s1)) k x" using c1 d by (rule crep_relink)
    moreover have "rb_nodes (relink k x s1) x = Some (mkn (cptr k) Red NULL NULL)"
      using relink_nodes [OF kx, of x s1] by (simp add: s1_def)
    moreover have "rb_nodes (relink k x s1) y = F y" if "y \<notin> set (lefts k @ x # rights k)" for y
    proof -
      have "y \<noteq> cptr k \<or> k = []" using that cptr_in [of k] by auto
      then show ?thesis using relink_nodes [of y k x s1] that o [of y] by (simp add: s1_def)
    qed
    ultimately show ?thesis using x d by (simp add: at_def)
  qed
  ultimately show ?thesis by blast
qed

lemma plug_kgood:
  assumes "rbt (plug k t)"
  shows "\<exists>n. kgood k n \<and> good t n \<and> (rcol t = Red \<longrightarrow> kblack k)"
  using assms
proof (induction k arbitrary: t)
  case Nil
  then show ?case by (auto simp: rbt_good)
next
  case (Cons f k)
  then obtain n where n: "kgood k n" "good (fill f t) n" "rcol (fill f t) = Red \<longrightarrow> kblack k" by auto
  then show ?case by (cases f; cases "fcolor f") auto
qed

section \<open>Insertion\<close>

lemma insert_descend:
  assumes "cmp_ok cmp" and "at F k t s" and "ordered key off t"
    and "\<forall>y \<in> set (lefts k). nkey key off y > nkey key off x" and "\<forall>y \<in> set (rights k). nkey key off y < nkey key off x"
  shows "(\<exists>y \<in> set (inord t). nkey key off y = nkey key off x \<and>
      (\<exists>l p. rb_insert_loop key off cmp x (klink k) (cptr k) s = Some (False, l, p))) \<or>
    (\<exists>k'. rb_insert_loop key off cmp x (klink k) (cptr k) s = Some (True, klink k', cptr k') \<and>
      at F k' Tip s \<and> plug k' Tip = plug k t \<and>
      (\<forall>y \<in> set (lefts k'). nkey key off y > nkey key off x) \<and> (\<forall>y \<in> set (rights k'). nkey key off y < nkey key off x))"
  using assms(2-5)
proof (induction t arbitrary: k)
  case Tip
  then show ?case using link_get_at [OF Tip(1)] by (auto simp: rb_insert_loop.simps)
next
  case (Nd l a c r)
  have a: "a \<noteq> NULL" using at_node(1) [OF Nd.prems(1)] .
  note lg = link_get_at [OF Nd.prems(1)] and lp = rb_insert_loop.simps [of key off cmp x "klink k" "cptr k" s]
  have o: "ordered key off l" "ordered key off r" "\<forall>x \<in> set (inord l). nkey key off x > nkey key off a"
      "\<forall>x \<in> set (inord r). nkey key off x < nkey key off a" using Nd.prems(2) by (auto simp: ordered_Nd)
  have cm: "cmp (key (rb_entry a off)) (key (rb_entry x off)) < 0 \<longleftrightarrow> nkey key off a < nkey key off x"
      "cmp (key (rb_entry a off)) (key (rb_entry x off)) > 0 \<longleftrightarrow> nkey key off x < nkey key off a"
    using cmp_cases [OF assms(1)] by (auto simp: nkey_def)
  consider "nkey key off a < nkey key off x" | "nkey key off x < nkey key off a" | "nkey key off a = nkey key off x" by (rule linorder_cases)
  then show ?case
  proof cases
    case 1
    have "rb_insert_loop key off cmp x (klink k) (cptr k) s =
        rb_insert_loop key off cmp x (klink (FL a c r # k)) (cptr (FL a c r # k)) s"
      using 1 a lg cm by (subst lp) (simp add: Let_def)
    moreover have "\<forall>y \<in> set (rights (FL a c r # k)). nkey key off y < nkey key off x" using 1 o(4) Nd.prems(4) by force
    ultimately show ?thesis using Nd.IH(1) [of "FL a c r # k"] Nd.prems(1,3) o(1) by auto
  next
    case 2
    have "rb_insert_loop key off cmp x (klink k) (cptr k) s =
        rb_insert_loop key off cmp x (klink (FR l a c # k)) (cptr (FR l a c # k)) s"
      using 2 a lg cm by (subst lp) (simp add: Let_def)
    moreover have "\<forall>y \<in> set (lefts (FR l a c # k)). nkey key off y > nkey key off x" using 2 o(3) Nd.prems(3) by force
    ultimately show ?thesis using Nd.IH(2) [of "FR l a c # k"] Nd.prems(1,4) o(2) by auto
  next
    case 3
    then have "rb_insert_loop key off cmp x (klink k) (cptr k) s = Some (False, klink k, a)"
      using a lg cm by (subst lp) (simp add: Let_def)
    then show ?thesis using 3 by auto
  qed
qed

lemma insert_spec:
  assumes "cmp_ok cmp" and h: "holds F t s" "rbt t" "ordered key off t"
    and x: "x \<notin> set (inord t)" "x \<noteq> NULL" "aligned x" "F x \<noteq> None"
  shows "(\<exists>y \<in> set (inord t). nkey key off y = nkey key off x) \<and> rb_insert key off cmp x s = Some s \<or>
    (\<forall>y \<in> set (inord t). nkey key off y \<noteq> nkey key off x) \<and>
    (\<exists>s' t' ys zs. rb_insert key off cmp x s = Some s' \<and> holds F t' s' \<and> rbt t' \<and> ordered key off t' \<and>
       inord t = ys @ zs \<and> inord t' = ys @ x # zs)"
proof -
  consider (found) y l p where "y \<in> set (inord t)" "nkey key off y = nkey key off x"
      "rb_insert_loop key off cmp x RootLink NULL s = Some (False, l, p)"
    | (new) k where "rb_insert_loop key off cmp x RootLink NULL s = Some (True, klink k, cptr k)" "at F k Tip s" "plug k Tip = t"
      "\<forall>y \<in> set (lefts k). nkey key off y > nkey key off x" "\<forall>y \<in> set (rights k). nkey key off y < nkey key off x"
    using insert_descend [of cmp F "[]" t s key off x] assms by auto
  then show ?thesis
  proof cases
    case found
    then show ?thesis by (auto simp: rb_insert_def)
  next
    case new
    have t: "inord t = lefts k @ rights k" using new(3) inord_plug [of k Tip] by simp
    have "rb_nodes s x = F x" using h(1) x(1) by (simp add: at_def)
    then obtain s1 where s1: "rb_link_node x (cptr k) (klink k) s = Some s1" "at F k (Nd Tip x Red Tip) s1"
      using at_link [OF new(2), of x] x t by auto
    have "kgood k 0" using plug_kgood [of k Tip] h(2) new(3) by auto
    then obtain s2 t2 where s2: "rb_insert_color x s1 = Some s2" "holds F t2 s2" "rbt t2" "inord t2 = lefts k @ x # rights k"
      using insert_color [OF s1(2)] by blast
    have "ordered key off t2" using h(3) new(4,5) unfolding ordered_def s2(4) t by (auto simp: sorted_wrt_append)
    moreover have "\<forall>y \<in> set (inord t). nkey key off y \<noteq> nkey key off x" using new(4,5) t by force
    ultimately show ?thesis using new(1) s1(1) s2 t by (auto simp: rb_insert_def)
  qed
qed

end
