(* ===== verification/Rbtree_Traverse.thy ===== *)
theory Rbtree_Traverse
  imports Rbtree_Zipper
begin

text \<open>
  Traversal of a represented tree: \<^verbatim>\<open>rb_first\<close>, \<^verbatim>\<open>rb_last\<close>, \<^verbatim>\<open>rb_next\<close> and \<^verbatim>\<open>rb_prev\<close> step through the in-order
  sequence, so the iteration macros visit it.
\<close>

section \<open>Positions\<close>

lemma find_position:
  assumes "a \<in> set (inord t)"
  obtains k l c r where "t = plug k (Nd l a c r)"
proof -
  have "\<exists>k' l c r. plug k t = plug k' (Nd l a c r)" for k
    using assms
  proof (induction t arbitrary: k)
    case (Nd l b c r)
    consider "a \<in> set (inord l)" | "a = b" | "a \<in> set (inord r)" using Nd.prems by auto
    then show ?case
    proof cases
      case 1
      then show ?thesis using Nd.IH(1) [of "FL b c r # k"] by simp
    next
      case 2
      then show ?thesis by blast
    next
      case 3
      then show ?thesis using Nd.IH(2) [of "FR l b c # k"] by simp
    qed
  qed simp
  then show ?thesis using that by (metis plug.simps(1))
qed

lemma split_distinct:
  assumes "distinct (xs @ a # ys)" and "xs @ a # ys = us @ a # vs"
  shows "us = xs" and "vs = ys"
proof -
  have "distinct (us @ a # vs)" using assms by simp
  then have "a \<notin> set xs" "a \<notin> set us" using assms(1) by auto
  then have "takeWhile (\<lambda>x. x \<noteq> a) (xs @ a # ys) = xs" "takeWhile (\<lambda>x. x \<noteq> a) (us @ a # vs) = us"
    by (auto simp: takeWhile_append2 takeWhile_tail)
  then show "us = xs" using assms(2) by simp
  then show "vs = ys" using assms(2) by simp
qed

lemma position:
  assumes "holds F t s" and "inord t = xs @ a # ys"
  obtains k l c r where "t = plug k (Nd l a c r)" and "at F k (Nd l a c r) s" and "lefts k @ inord l = xs" and "inord r @ rights k = ys"
proof -
  have "a \<in> set (inord t)" using assms(2) by simp
  then obtain k l c r where t: "t = plug k (Nd l a c r)" by (rule find_position)
  have at: "at F k (Nd l a c r) s" using assms(1) at_plug [of F k "Nd l a c r" s] t by simp
  have "distinct (xs @ a # ys)" using assms by (auto simp: at_def)
  moreover have "xs @ a # ys = (lefts k @ inord l) @ a # (inord r @ rights k)" using assms(2) t by (simp add: inord_plug)
  ultimately have "lefts k @ inord l = xs" "inord r @ rights k = ys" by (rule split_distinct)+
  then show ?thesis using that t at by blast
qed

section \<open>Ends\<close>

lemma leftmost_spec:
  assumes "rep (rb_nodes s) par t" and "t \<noteq> Tip"
  shows "leftmost (rptr t) s = Some (hd (inord t))"
  using assms
proof (induction t arbitrary: par)
  case (Nd l a c r)
  have a: "nget rb_left a s = Some (rptr l)" using Nd.prems(1) by (simp add: set_fields(4))
  show ?case
  proof (cases "l = Tip")
    case True
    then show ?thesis using a by (subst leftmost.simps) simp
  next
    case False
    then have "rptr l \<noteq> NULL" "inord l \<noteq> []" using Nd.prems(1) rptr_eq_0 [of "rb_nodes s" a l] by (auto, cases l, auto)
    then show ?thesis using a Nd.IH(1) [of a] Nd.prems(1) False by (subst leftmost.simps) simp
  qed
qed simp

lemma rightmost_spec:
  assumes "rep (rb_nodes s) par t" and "t \<noteq> Tip"
  shows "rightmost (rptr t) s = Some (last (inord t))"
  using assms
proof (induction t arbitrary: par)
  case (Nd l a c r)
  have a: "nget rb_right a s = Some (rptr r)" using Nd.prems(1) by (simp add: set_fields(4))
  show ?case
  proof (cases "r = Tip")
    case True
    then show ?thesis using a by (subst rightmost.simps) simp
  next
    case False
    then have "rptr r \<noteq> NULL" "inord r \<noteq> []" using Nd.prems(1) rptr_eq_0 [of "rb_nodes s" a r] by (auto, cases r, auto)
    then show ?thesis using a Nd.IH(2) [of a] Nd.prems(1) False by (subst rightmost.simps) simp
  qed
qed simp

section \<open>Neighbours\<close>

lemma at_rep: "at F k t s \<Longrightarrow> rep (rb_nodes s) (cptr k) t"
  by (simp add: at_def)

lemma up_right_spec:
  assumes "at F k (Nd l a c r) s"
  shows "up_from_right a s = Some (first_of (rights k))"
  using assms
proof (induction k arbitrary: l a c r)
  case Nil
  then show ?case using at_reads(3) [OF Nil] by (subst up_from_right.simps) simp
next
  case (Cons f k)
  have p: "nget rb_parent a s = Some (faddr f)" "faddr f \<noteq> NULL" using at_reads(3) [OF Cons.prems] at_cptr_0 [OF Cons.prems] by simp_all
  have a: "a \<noteq> NULL" using at_node(1) [OF Cons.prems] .
  show ?case
  proof (cases f)
    case (FL b d q)
    have at: "at F k (Nd (Nd l a c r) b d q) s" using Cons.prems FL by simp
    have "a \<notin> set (inord q)" using at by (auto simp: at_def)
    then have "rptr q \<noteq> a" using a rptr_in [of q] by (cases q) auto
    then show ?thesis using p FL at_reads(2) [OF at] by (subst up_from_right.simps) simp
  next
    case (FR q b d)
    have at: "at F k (Nd q b d (Nd l a c r)) s" using Cons.prems FR by simp
    then show ?thesis using p FR at_reads(2) [OF at] Cons.IH [OF at] by (subst up_from_right.simps) simp
  qed
qed

lemma up_left_spec:
  assumes "at F k (Nd l a c r) s"
  shows "up_from_left a s = Some (first_of (rev (lefts k)))"
  using assms
proof (induction k arbitrary: l a c r)
  case Nil
  then show ?case using at_reads(3) [OF Nil] by (subst up_from_left.simps) simp
next
  case (Cons f k)
  have p: "nget rb_parent a s = Some (faddr f)" "faddr f \<noteq> NULL" using at_reads(3) [OF Cons.prems] at_cptr_0 [OF Cons.prems] by simp_all
  have a: "a \<noteq> NULL" using at_node(1) [OF Cons.prems] .
  show ?case
  proof (cases f)
    case (FR q b d)
    have at: "at F k (Nd q b d (Nd l a c r)) s" using Cons.prems FR by simp
    have "a \<notin> set (inord q)" using at by (auto simp: at_def)
    then have "rptr q \<noteq> a" using a rptr_in [of q] by (cases q) auto
    then show ?thesis using p FR at_reads(1) [OF at] by (subst up_from_left.simps) simp
  next
    case (FL b d q)
    have at: "at F k (Nd (Nd l a c r) b d q) s" using Cons.prems FL by simp
    then show ?thesis using p FL at_reads(1) [OF at] Cons.IH [OF at] by (subst up_from_left.simps) simp
  qed
qed

lemma at_no_self_parent:
  assumes "at F k (Nd l a c r) s"
  shows "cptr k \<noteq> a"
  using assms at_node(1) [OF assms] cptr_in [of k] by (cases "k = []") (auto simp: at_def)

lemma first_of_append: "first_of (xs @ ys) = (if xs = [] then first_of ys else hd xs)"
  by (cases xs) auto

lemma inord_nonempty: "inord t = [] \<longleftrightarrow> t = Tip"
  by (cases t) auto

lemma next_at:
  assumes "at F k (Nd l a c r) s"
  shows "rb_next a s = Some (first_of (inord r @ rights k))" and "rb_prev a s = Some (first_of (rev (lefts k @ inord l)))"
proof -
  note rd = at_reads [OF assms] and ns = at_no_self_parent [OF assms]
  have r: "rep (rb_nodes s) a r" "rep (rb_nodes s) a l" using at_rep [OF assms] by simp_all
  have n: "rptr r = NULL \<longleftrightarrow> r = Tip" "rptr l = NULL \<longleftrightarrow> l = Tip" using r rptr_eq_0 by blast+
  show "rb_next a s = Some (first_of (inord r @ rights k))"
    using rd(2,3) ns n(1) leftmost_spec [OF r(1)] up_right_spec [OF assms]
    by (cases "r = Tip") (auto simp: rb_next_def first_of_append inord_nonempty)
  show "rb_prev a s = Some (first_of (rev (lefts k @ inord l)))"
    using rd(1,3) ns n(2) rightmost_spec [OF r(2)] up_left_spec [OF assms]
    by (cases "l = Tip") (auto simp: rb_prev_def first_of_append inord_nonempty hd_rev)
qed

lemma next_spec:
  assumes "holds F t s" and "inord t = xs @ a # ys"
  shows "rb_next a s = Some (first_of ys)" and "rb_prev a s = Some (first_of (rev xs))"
proof -
  obtain k l c r where "at F k (Nd l a c r) s" "lefts k @ inord l = xs" "inord r @ rights k = ys"
    using assms by (rule position)
  then show "rb_next a s = Some (first_of ys)" and "rb_prev a s = Some (first_of (rev xs))" using next_at [of F k l a c r s] by simp_all
qed

lemma ends_spec:
  assumes "holds F t s"
  shows "rb_first s = Some (first_of (inord t))" and "rb_last s = Some (first_of (rev (inord t)))"
proof -
  have r: "rb_root s = rptr t" "rep (rb_nodes s) NULL t" using assms by (simp_all add: at_def)
  have n: "rptr t = NULL \<longleftrightarrow> t = Tip" using r(2) by (rule rptr_eq_0)
  show "rb_first s = Some (first_of (inord t))" using leftmost_spec [OF r(2)] r(1) n
    by (cases "inord t") (auto simp: rb_first_def inord_nonempty)
  show "rb_last s = Some (first_of (rev (inord t)))" using rightmost_spec [OF r(2)] r(1) n
    by (cases "inord t" rule: rev_cases) (auto simp: rb_last_def inord_nonempty)
qed

section \<open>Loops\<close>

lemma nodes_nonnull: "holds F t s \<Longrightarrow> a \<in> set (inord t) \<Longrightarrow> a \<noteq> NULL"
  using at_node(1) at_plug by (metis find_position)

lemma for_each_suffix:
  assumes "holds F t s" and "inord t = xs @ ys"
  shows "rb_for_each_loop rb_next (\<lambda>x (s, d). Some (s, f x d)) (first_of ys) (s, d) = Some (s, fold f ys d)"
  using assms(2)
proof (induction ys arbitrary: xs d)
  case Nil
  then show ?case by (simp add: rb_for_each_loop.simps)
next
  case (Cons a ys)
  have "a \<noteq> NULL" using nodes_nonnull [OF assms(1), of a] Cons.prems by simp
  moreover have "rb_next a s = Some (first_of ys)" using assms(1) Cons.prems by (rule next_spec)
  ultimately show ?case using Cons.IH [of "xs @ [a]"] Cons.prems by (subst rb_for_each_loop.simps) simp
qed

lemma for_each_prefix:
  assumes "holds F t s" and "inord t = xs @ ys"
  shows "rb_for_each_loop rb_prev (\<lambda>x (s, d). Some (s, f x d)) (first_of (rev xs)) (s, d) = Some (s, fold f (rev xs) d)"
  using assms(2)
proof (induction xs arbitrary: ys d rule: rev_induct)
  case Nil
  then show ?case by (simp add: rb_for_each_loop.simps)
next
  case (snoc a xs)
  have "a \<noteq> NULL" using nodes_nonnull [OF assms(1), of a] snoc.prems by simp
  moreover have "rb_prev a s = Some (first_of (rev xs))" by (rule next_spec(2) [OF assms(1), of xs a ys]) (use snoc.prems in simp)
  ultimately show ?case using snoc.IH [of "a # ys"] snoc.prems by (subst rb_for_each_loop.simps) simp
qed

end
