(* ===== verification/Rbtree_Erase.thy ===== *)
theory Rbtree_Erase
  imports Rbtree_Erase_Color Rbtree_Search Rbtree_Traverse
begin

text \<open>
  Removal and replacement of a node in a represented tree: \<^verbatim>\<open>rb_erase\<close> and \<^verbatim>\<open>rb_replace_node\<close>. A node with at
  most one child is spliced out; a node with two children is replaced by its successor, which is spliced
  out of its own place first. The removed node keeps a cell of the heap, outside the tree.
\<close>

section \<open>Splicing a node out\<close>

lemma at_frame_cong:
  assumes "at F k t s" and "\<And>x. x \<notin> set (lefts k @ inord t @ rights k) \<Longrightarrow> F' x = F x"
  shows "at F' k t s"
  using assms by (simp add: at_def)

lemma at_splice:
  assumes at: "at F k (Nd l a c r) s" and t: "l = Tip \<and> t = r \<or> r = Tip \<and> t = l"
  shows "at (F(a := rb_nodes s a)) k t (relink k (rptr t) (reparent t (cptr k) s))"
proof -
  let ?s1 = "reparent t (cptr k) s"
  let ?s2 = "relink k (rptr t) ?s1"
  have i: "set (inord (Nd l a c r)) = insert a (set (inord t))" "distinct (inord (Nd l a c r)) = distinct (a # inord t)"
    using t by auto
  have c: "crep (rb_nodes s) (rb_root s) k a" and n: "rep (rb_nodes s) (cptr k) (Nd l a c r)"
    and D: "distinct (lefts k @ inord (Nd l a c r) @ rights k)" using at by (simp_all add: at_def)
  have r: "rep (rb_nodes s) a t" using n t by auto
  have set: "set (lefts k @ inord (Nd l a c r) @ rights k) = insert a (set (lefts k @ inord t @ rights k))"
    unfolding set_append i by auto
  have d: "distinct (lefts k @ rights k)" "distinct (inord t)" "a \<notin> set (inord t)" "a \<notin> set (lefts k @ rights k)"
      "set (inord t) \<inter> set (lefts k @ rights k) = {}" "distinct (lefts k @ inord t @ rights k)"
    using D unfolding distinct_append set_append i by auto
  have o: "\<And>x. x \<notin> set (lefts k @ inord t @ rights k) \<Longrightarrow> x \<noteq> a \<Longrightarrow> rb_nodes s x = F x"
    using at set unfolding at_def by blast
  have c1: "crep (rb_nodes ?s1) (rb_root ?s1) k a"
    using crep_cong [OF c, of "rb_nodes ?s1"] d(5) by (auto intro!: reparent_nodes)
  have n2: "rb_nodes ?s2 x = rb_nodes ?s1 x" if "x \<notin> set (lefts k @ rights k)" for x
    using that cptr_in [of k] by (intro relink_nodes) auto
  have "crep (rb_nodes ?s2) (rb_root ?s2) k (rptr t)" using c1 d(1) by (rule crep_relink)
  moreover have "rep (rb_nodes ?s2) (cptr k) t"
    using rep_reparent [OF r d(2)] by (rule rep_cong) (rule n2, use d(5) in auto)
  moreover have "rb_nodes ?s2 x = (F(a := rb_nodes s a)) x" if "x \<notin> set (lefts k @ inord t @ rights k)" for x
    using that n2 [of x] reparent_nodes [of x t "cptr k" s] o [of x] by auto
  ultimately show ?thesis using d(6) unfolding at_def by blast
qed

lemma at_crep: "at F k t s \<Longrightarrow> crep (rb_nodes s) (rb_root s) k (rptr t)"
  by (simp add: at_def)

lemma reparent_crep:
  assumes "at F k (Nd l a c r) s" and "t = l \<or> t = r"
  shows "crep (rb_nodes (reparent t q s)) (rb_root (reparent t q s)) k a"
  using assms crep_cong [of "rb_nodes s" "rb_root s" k a "rb_nodes (reparent t q s)"]
  by (auto simp: at_def intro!: reparent_nodes)

lemma erase_one:
  assumes at: "at F k (Nd l a c r) s" and t: "l = Tip \<and> t = r \<or> r = Tip \<and> t = l"
  shows "erase_one a (rptr t) s = Some (rptr t, cptr k, cbit c, relink k (rptr t) (reparent t (cptr k) s))"
proof -
  have "rep (rb_nodes s) a t" using at t by (auto simp: at_def)
  then have "(if rptr t \<noteq> NULL then rb_set_parent (rptr t) (cptr k) s else Some s) = Some (reparent t (cptr k) s)"
    using at_node(2) [OF at] by (rule reparent_code)
  moreover have "a \<notin> set (lefts k @ rights k)" using at by (auto simp: at_def)
  then have "(if cptr k \<noteq> NULL then do {
            pl \<leftarrow> nget rb_left (cptr k) (reparent t (cptr k) s);
            if pl = a then set_left (cptr k) (rptr t) (reparent t (cptr k) s) else set_right (cptr k) (rptr t) (reparent t (cptr k) s) }
          else Some ((reparent t (cptr k) s)\<lparr>rb_root := rptr t\<rparr>)) = Some (relink k (rptr t) (reparent t (cptr k) s))"
    using reparent_crep [OF at, of t "cptr k"] t at_node(1) [OF at] by (intro relink_code(2)) auto
  ultimately show ?thesis using at_reads(3,4) [OF at] by (simp add: erase_one_def)
qed

section \<open>Replacing a node\<close>

lemma relink_fresh:
  "y \<notin> set (lefts k @ rights k) \<Longrightarrow>
   relink k v (s\<lparr>rb_nodes := (rb_nodes s)(y \<mapsto> n)\<rparr>) = (relink k v s)\<lparr>rb_nodes := (rb_nodes (relink k v s))(y \<mapsto> n)\<rparr>"
  by (cases k rule: lefts.cases) (auto simp: fun_upd_twist)

lemma reparent_fresh:
  "y \<notin> set (inord t) \<Longrightarrow>
   reparent t q (s\<lparr>rb_nodes := (rb_nodes s)(y \<mapsto> n)\<rparr>) = (reparent t q s)\<lparr>rb_nodes := (rb_nodes (reparent t q s))(y \<mapsto> n)\<rparr>"
  by (cases t) (auto simp: fun_upd_twist)

text \<open>The new node gets the old one's cell; the parent's link and the children's parent follow.\<close>

definition replaced :: "frame list \<Rightarrow> rtree \<Rightarrow> color \<Rightarrow> rtree \<Rightarrow> addr \<Rightarrow> rb_state \<Rightarrow> rb_state" where
  "replaced k l c r y s = (let s = reparent r y (reparent l y (relink k y s))
     in s\<lparr>rb_nodes := (rb_nodes s)(y \<mapsto> mkn (cptr k) c (rptr l) (rptr r))\<rparr>)"

lemma at_replaced:
  assumes at: "at F k (Nd l a c r) s" and y: "y \<notin> set (lefts k @ inord (Nd l a c r) @ rights k)" "y \<noteq> NULL" "aligned y"
  shows "at (F(a := rb_nodes s a)) k (Nd l y c r) (replaced k l c r y s)"
proof -
  have c: "crep (rb_nodes s) (rb_root s) k a" and l: "rep (rb_nodes s) a l" and r: "rep (rb_nodes s) a r"
    and D: "distinct (lefts k @ inord (Nd l a c r) @ rights k)"
    and o: "\<And>x. x \<notin> set (lefts k @ inord (Nd l a c r) @ rights k) \<Longrightarrow> rb_nodes s x = F x"
    using at by (simp_all add: at_def)
  have d: "distinct (lefts k @ rights k)" "distinct (inord l)" "distinct (inord r)" "set (inord l) \<inter> set (inord r) = {}"
      "set (inord l) \<inter> set (lefts k @ rights k) = {}" "set (inord r) \<inter> set (lefts k @ rights k) = {}"
    using D by auto
  define s1 where "s1 = relink k y s"
  define s2 where "s2 = reparent l y s1"
  define s3 where "s3 = reparent r y s2"
  have n1: "rb_nodes s1 x = rb_nodes s x" if "x \<notin> set (lefts k @ rights k)" for x
    unfolding s1_def using that cptr_in [of k] by (intro relink_nodes) auto
  have n2: "rb_nodes s2 x = rb_nodes s1 x" if "x \<notin> set (inord l)" for x
    unfolding s2_def using that by (rule reparent_nodes)
  have n3: "rb_nodes s3 x = rb_nodes s2 x" if "x \<notin> set (inord r)" for x
    unfolding s3_def using that by (rule reparent_nodes)
  have k1: "crep (rb_nodes s1) (rb_root s1) k y" unfolding s1_def using c d(1) by (rule crep_relink)
  have n13: "rb_nodes s3 x = rb_nodes s1 x" if "x \<in> set (lefts k @ rights k)" for x
  proof -
    have "x \<notin> set (inord l)" "x \<notin> set (inord r)" using that d(5,6) by auto
    then show ?thesis using n2 n3 by simp
  qed
  have "crep (rb_nodes s3) (rb_root s1) k y" using k1 n13 by (rule crep_cong)
  then have k3: "crep (rb_nodes s3) (rb_root s3) k y" by (simp add: s3_def s2_def)
  have "rep (rb_nodes s1) a l" using l by (rule rep_cong) (rule n1, use d in auto)
  then have "rep (rb_nodes s2) y l" unfolding s2_def using d(2) by (rule rep_reparent)
  then have l3: "rep (rb_nodes s3) y l" by (rule rep_cong) (rule n3, use d in auto)
  have "rep (rb_nodes s1) a r" using r by (rule rep_cong) (rule n1, use d in auto)
  then have "rep (rb_nodes s2) a r" by (rule rep_cong) (rule n2, use d in auto)
  then have r3: "rep (rb_nodes s3) y r" unfolding s3_def using d(3) by (rule rep_reparent)
  have o3: "rb_nodes s3 x = (F(a := rb_nodes s a)) x" if "x \<notin> set (lefts k @ inord l @ inord r @ rights k)" for x
    using that n1 [of x] n2 [of x] n3 [of x] o [of x] by auto
  have s': "replaced k l c r y s = s3\<lparr>rb_nodes := (rb_nodes s3)(y \<mapsto> mkn (cptr k) c (rptr l) (rptr r))\<rparr>"
    by (simp add: replaced_def s3_def s2_def s1_def Let_def)
  show ?thesis unfolding s' at_def using k3 l3 r3 o3 y D by auto
qed

lemma replace_links:
  fixes y s k l r
  defines "s1 \<equiv> relink k y s"
  defines "s2 \<equiv> reparent l y s1"
  defines "s3 \<equiv> reparent r y s2"
  assumes at: "at F k (Nd l a c r) s"
  shows "(if cptr k \<noteq> NULL then do {
            pl \<leftarrow> nget rb_left (cptr k) s;
            if a = pl then set_left (cptr k) y s else set_right (cptr k) y s }
          else Some (s\<lparr>rb_root := y\<rparr>)) = Some s1"
    and "(if cptr k \<noteq> NULL then do {
            pl \<leftarrow> nget rb_left (cptr k) s;
            if pl = a then set_left (cptr k) y s else set_right (cptr k) y s }
          else Some (s\<lparr>rb_root := y\<rparr>)) = Some s1"
    and "(if rptr l \<noteq> NULL then rb_set_parent (rptr l) y s1 else Some s1) = Some s2"
    and "(if rptr r \<noteq> NULL then rb_set_parent (rptr r) y s2 else Some s2) = Some s3"
    and "nget rb_left a s1 = Some (rptr l)" and "nget rb_right a s2 = Some (rptr r)"
    and "x \<notin> set (lefts k @ inord l @ inord r @ rights k) \<Longrightarrow> rb_nodes s3 x = rb_nodes s x"
proof -
  have D: "distinct (lefts k @ inord (Nd l a c r) @ rights k)" using at by (simp add: at_def)
  then have d: "a \<notin> set (lefts k @ rights k)" "a \<notin> set (inord l)" "a \<notin> set (inord r)" "set (inord l) \<inter> set (inord r) = {}"
      "set (inord l) \<inter> set (lefts k @ rights k) = {}" "set (inord r) \<inter> set (lefts k @ rights k) = {}" by auto
  have n1: "rb_nodes s1 x = rb_nodes s x" if "x \<notin> set (lefts k @ rights k)" for x
    unfolding s1_def using that cptr_in [of k] by (intro relink_nodes) auto
  have n2: "rb_nodes s2 x = rb_nodes s1 x" if "x \<notin> set (inord l)" for x
    unfolding s2_def using that by (rule reparent_nodes)
  have n3: "rb_nodes s3 x = rb_nodes s2 x" if "x \<notin> set (inord r)" for x
    unfolding s3_def using that by (rule reparent_nodes)
  note a = at_node [OF at]
  have c: "crep (rb_nodes s) (rb_root s) k a" using at by (simp add: at_def)
  have "rep (rb_nodes s) a l" and r0: "rep (rb_nodes s) a r" using at by (simp_all add: at_def)
  then have l1: "rep (rb_nodes s1) a l" by (elim rep_cong) (rule n1, use d in auto)
  have "rep (rb_nodes s1) a r" using r0 by (rule rep_cong) (rule n1, use d in auto)
  then have r2: "rep (rb_nodes s2) a r" by (rule rep_cong) (rule n2, use d in auto)
  show "(if cptr k \<noteq> NULL then do {
            pl \<leftarrow> nget rb_left (cptr k) s;
            if a = pl then set_left (cptr k) y s else set_right (cptr k) y s }
          else Some (s\<lparr>rb_root := y\<rparr>)) = Some s1"
    unfolding s1_def using c a(1) d(1) by (rule relink_code(1))
  show "(if cptr k \<noteq> NULL then do {
            pl \<leftarrow> nget rb_left (cptr k) s;
            if pl = a then set_left (cptr k) y s else set_right (cptr k) y s }
          else Some (s\<lparr>rb_root := y\<rparr>)) = Some s1"
    unfolding s1_def using c a(1) d(1) by (rule relink_code(2))
  show "(if rptr l \<noteq> NULL then rb_set_parent (rptr l) y s1 else Some s1) = Some s2"
    unfolding s2_def using l1 a(2) by (rule reparent_code)
  show "(if rptr r \<noteq> NULL then rb_set_parent (rptr r) y s2 else Some s2) = Some s3"
    unfolding s3_def using r2 a(2) by (rule reparent_code)
  show "nget rb_left a s1 = Some (rptr l)" and "nget rb_right a s2 = Some (rptr r)"
    using a n1 [of a] n2 [of a] d by (simp_all add: set_fields)
  show "x \<notin> set (lefts k @ inord l @ inord r @ rights k) \<Longrightarrow> rb_nodes s3 x = rb_nodes s x"
    using n1 [of x] n2 [of x] n3 [of x] by simp
qed

lemma replace_node:
  assumes at: "at F k (Nd l a c r) s" and y: "y \<notin> set (lefts k @ inord (Nd l a c r) @ rights k)" "y \<noteq> NULL" "rb_nodes s y \<noteq> None"
  shows "rb_replace_node a y s = Some (replaced k l c r y s)"
proof -
  let ?s3 = "reparent r y (reparent l y (relink k y s))"
  note ln = replace_links [OF at, where y = y] and a = at_node [OF at]
  obtain n where n: "rb_nodes s y = Some n" using y(3) by blast
  have "a \<notin> set (lefts k @ inord l @ inord r @ rights k)" using at by (auto simp: at_def)
  then have cells: "rb_nodes ?s3 a = Some (mkn (cptr k) c (rptr l) (rptr r))" "rb_nodes ?s3 y = Some n"
    using ln(7) [where x = a] ln(7) [where x = y] y(1) a(4) n by auto
  then have "nget (\<lambda>n. n) a ?s3 = Some (mkn (cptr k) c (rptr l) (rptr r))" using a(1) by (simp add: set_fields)
  then have "rb_replace_node a y s = nmod (\<lambda>_. mkn (cptr k) c (rptr l) (rptr r)) y ?s3"
    unfolding rb_replace_node_def using at_reads(3) [OF at] ln(1,3-6) by (simp add: bind_Some_eq)
  then show ?thesis using cells(2) y(2) by (simp add: set_fields replaced_def Let_def)
qed

section \<open>A node with two children\<close>

text \<open>The successor sits at the end of a path of left turns.\<close>

fun left_path :: "frame list \<Rightarrow> bool" where
  "left_path [] \<longleftrightarrow> True"
| "left_path (FL a c r # k) \<longleftrightarrow> left_path k"
| "left_path (FR l a c # k) \<longleftrightarrow> False"

lemma left_path_append [simp]: "left_path (j @ k) \<longleftrightarrow> left_path j \<and> left_path k"
  by (induction j rule: left_path.induct) auto

lemma plug_append: "plug (j @ k) t = plug k (plug j t)"
  by (induction j arbitrary: t) auto

lemma at_append: "at F (j @ k) t s = at F k (plug j t) s"
  by (induction j arbitrary: t) auto

lemma left_path_lefts: "left_path j \<Longrightarrow> lefts (j @ k) = lefts k"
  by (induction j rule: left_path.induct) auto

lemma successor_position:
  assumes "t \<noteq> Tip"
  obtains k y d q where "t = plug k (Nd Tip y d q)" and "left_path k"
proof -
  have "\<exists>k y d q. t = plug k (Nd Tip y d q) \<and> left_path k" using assms
  proof (induction t)
    case (Nd l a c r)
    show ?case
    proof (cases "l = Tip")
      case True
      then show ?thesis by (metis left_path.simps(1) plug.simps(1))
    next
      case False
      then obtain k y d q where "l = plug k (Nd Tip y d q)" "left_path k" using Nd.IH(1) by blast
      then have "Nd l a c r = plug (k @ [FL a c r]) (Nd Tip y d q)" "left_path (k @ [FL a c r])" by (simp_all add: plug_append)
      then show ?thesis by blast
    qed
  qed simp
  then show ?thesis using that by blast
qed

lemma successor_unlink:
  assumes K: "K = j @ FR l a c # k" "left_path j" and at: "at F K (Nd Tip y d q) s"
  shows "(if cptr K = a then do { s \<leftarrow> set_right (cptr K) (rptr q) (reparent q (cptr K) s); Some (y, s) }
       else do { s \<leftarrow> set_left (cptr K) (rptr q) (reparent q (cptr K) s); Some (cptr K, s) }) =
     Some (cptr (j @ FR l y c # k), relink K (rptr q) (reparent q (cptr K) s))"
proof -
  have c: "crep (rb_nodes (reparent q (cptr K) s)) (rb_root (reparent q (cptr K) s)) K y"
    using reparent_crep [OF at, of q] by simp
  show ?thesis
  proof (cases j)
    case Nil
    then show ?thesis using K c by (auto simp: set_fields)
  next
    case (Cons f j')
    then obtain p e u where f: "f = FL p e u" using K(2) by (cases f) auto
    have "a \<in> set (lefts (j' @ FR l a c # k))"
      using left_path_lefts [of j' "FR l a c # k"] K(2) Cons f by simp
    moreover have "p \<notin> set (lefts (j' @ FR l a c # k))" using at K Cons f unfolding at_def by auto
    ultimately have "p \<noteq> a" by blast
    then show ?thesis using K c Cons f by (auto simp: set_fields)
  qed
qed

lemma erase_two:
  assumes at: "at F k (Nd l a c (plug j (Nd Tip y d q))) s" and j: "left_path j" and l: "l \<noteq> Tip"
  shows "\<exists>s'. erase_two a s = Some (rptr q, cptr (j @ FR l y c # k), cbit d, s') \<and>
    (\<exists>n. at (F(a \<mapsto> n)) (j @ FR l y c # k) q s')"
proof -
  define K where "K = j @ FR l a c # k"
  define s2 where "s2 = relink K (rptr q) (reparent q (cptr K) s)"
  define r where "r = plug j q"
  let ?r0 = "plug j (Nd Tip y d q)"
  have atK: "at F K (Nd Tip y d q) s" using at by (simp add: K_def at_append)
  have "?r0 \<noteq> Tip" using inord_plug [of j "Nd Tip y d q"] by auto
  moreover have "hd (inord ?r0) = y" using left_path_lefts [OF j, of "[]"] by (simp add: inord_plug)
  ultimately have lm: "leftmost (rptr ?r0) s = Some y" using leftmost_spec [of s a ?r0] at by (simp add: at_def)
  have "at (F(y := rb_nodes s y)) K q s2" unfolding s2_def using atK by (rule at_splice) simp
  then have at2: "at (F(y := rb_nodes s y)) k (Nd l a c r) s2" by (simp add: K_def at_append r_def)
  note n2 = at_node [OF at2]
  have fresh: "y \<notin> set (lefts k @ inord (Nd l a c r) @ rights k)" using at unfolding at_def r_def inord.simps inord_plug by auto
  have y: "y \<noteq> NULL" "aligned y" using at_node [OF atK] by simp_all
  have ya: "y \<noteq> a" using fresh by simp
  have y2: "rb_nodes s2 y \<noteq> None"
  proof -
    have "rb_nodes s2 y = (F(y := rb_nodes s y)) y" using at2 fresh unfolding at_def by blast
    then show ?thesis using at_node(4) [OF atK] by simp
  qed
  let ?n = "mkn (cptr k) c (rptr l) (rptr r)"
  define s3 where "s3 = s2\<lparr>rb_nodes := (rb_nodes s2)(y \<mapsto> ?n)\<rparr>"
  define s4 where "s4 = relink k y s3"
  define s5 where "s5 = reparent l y s4"
  define s6 where "s6 = reparent r y s5"
  have s6: "s6 = replaced k l c r y s2" unfolding s6_def s5_def s4_def s3_def replaced_def Let_def
    using fresh by (simp add: relink_fresh reparent_fresh)
  have at6: "at ((F(y := rb_nodes s y))(a := rb_nodes s2 a)) k (Nd l y c r) s6"
    unfolding s6 using at2 fresh y by (rule at_replaced)
  have "at (F(a \<mapsto> ?n)) k (Nd l y c r) s6" using at6 by (rule at_frame_cong) (use n2(4) in auto)
  then have fin: "at (F(a \<mapsto> ?n)) (j @ FR l y c # k) q s6" by (simp add: at_append r_def)
  have "at ((F(y := rb_nodes s y))(y \<mapsto> ?n)) k (Nd l a c r) s3"
    using at2 fresh unfolding at_def s3_def by auto
  note ln = replace_links [OF this, where y = y, folded s4_def s5_def s6_def] and n3 = at_node [OF this] and rd3 = at_reads [OF this]
  have s5: "rb_set_parent (rptr l) y s4 = Some s5" using ln(3) l at_rptr_0 [of F "FL a c ?r0 # k" l s] at by simp
  obtain n0 where n0: "rb_nodes s2 y = Some n0" using y2 by blast
  have s3: "do {
     s \<leftarrow> nmod (rb_parent_color_update (\<lambda>_. rb_parent_color ?n)) y s2;
     orr \<leftarrow> nget rb_right a s;
     s \<leftarrow> set_right y orr s;
     ol \<leftarrow> nget rb_left a s;
     set_left y ol s } = Some s3"
    using n0 n2 y ya by (cases n0) (simp add: set_fields s3_def mkn_def)
  then obtain sa orr sb ol where s3': "nmod (rb_parent_color_update (\<lambda>_. rb_parent_color ?n)) y s2 = Some sa"
      "nget rb_right a sa = Some orr" "set_right y orr sa = Some sb" "nget rb_left a sb = Some ol" "set_left y ol sb = Some s3"
    by (auto simp: bind_Some_eq)
  have "rep (rb_nodes s) y q" using atK by (simp add: at_def)
  then have s1: "(if rptr q \<noteq> NULL then rb_set_parent (rptr q) (cptr K) s else Some s) = Some (reparent q (cptr K) s)"
    using y(2) by (rule reparent_code)
  have pc: "nget rb_parent_color a s2 = Some (rb_parent_color ?n)" using n2 by (simp add: set_fields)
  note su = successor_unlink [OF K_def j atK, folded s2_def]
  have "erase_two a s = Some (rptr q, cptr (j @ FR l y c # k), cbit d, s6)"
    by (simp only: erase_two_def at_reads(2) [OF at] lm at_reads(2-4) [OF atK] s1 su pc s3' rd3(3) ln(2,4-6) s5
        Option.bind.simps prod.case)
  then show ?thesis using fin by blast
qed

section \<open>Removal\<close>

text \<open>The end of \<^verbatim>\<open>rb_erase\<close>: a hole left by a red node needs nothing, one left by a black node is rebalanced.\<close>

lemma erase_rebalance:
  assumes at: "at F k t s" and g: "good (Nd l a c r) n" "kgood k n" and t: "t = l \<or> t = r"
  shows "\<exists>s' T. (if cbit c = RB_BLACK then rb_erase_color (rptr t) (cptr k) s else Some s) = Some s' \<and>
    holds F T s' \<and> rbt T \<and> inord T = inord (plug k t)"
proof (cases c)
  case Red
  then have "rbt (plug k t)" using g t by (intro plug_good [of k n]) auto
  then show ?thesis using Red at_plug [THEN iffD1, OF at] by (auto simp: RB_BLACK_def)
next
  case Black
  then obtain m where m: "n = Suc m" "good t m" using g(1) t by auto
  then have "good t m \<and> rcol t = Black \<or> rcol t = Red \<and> good (paint Black t) (Suc m)" by (cases t; cases "rcol t") auto
  then show ?thesis using erase_color [OF at, of m] g(2) m(1) Black by (auto simp: erased_def RB_BLACK_def)
qed

lemma kblack_swap: "kblack (j @ FR l a c # k) = kblack (j @ FR l y c # k)"
  by (cases j) auto

lemma kgood_swap: "kgood (j @ FR l a c # k) n = kgood (j @ FR l y c # k) n"
proof (induction j arbitrary: n)
  case Nil
  then show ?case by (cases c) auto
next
  case (Cons f j)
  then show ?case using kblack_swap [of j l a c k y] by (cases f; cases "fcolor f") auto
qed

lemma erase_at:
  assumes at: "at F k (Nd l a c r) s" and rbt: "rbt (plug k (Nd l a c r))"
  shows "\<exists>s' T n. rb_erase a s = Some s' \<and> holds (F(a \<mapsto> n)) T s' \<and> rbt T \<and> inord T = lefts k @ inord l @ inord r @ rights k"
proof (cases "l = Tip \<or> r = Tip")
  case True
  define t where "t = (if l = Tip then r else l)"
  have t: "l = Tip \<and> t = r \<or> r = Tip \<and> t = l" using True by (auto simp: t_def)
  obtain n where n: "kgood k n" "good (Nd l a c r) n" using plug_kgood [OF rbt] by blast
  let ?s1 = "relink k (rptr t) (reparent t (cptr k) s)"
  have at1: "at (F(a \<mapsto> mkn (cptr k) c (rptr l) (rptr r))) k t ?s1" using at_splice [OF at t] at_node(4) [OF at] by simp
  obtain s' T where s': "(if cbit c = RB_BLACK then rb_erase_color (rptr t) (cptr k) ?s1 else Some ?s1) = Some s'"
      "holds (F(a \<mapsto> mkn (cptr k) c (rptr l) (rptr r))) T s'" "rbt T" "inord T = inord (plug k t)"
    using erase_rebalance [OF at1 n(2,1)] t by blast
  have "rptr l = NULL \<longleftrightarrow> l = Tip" using at_rptr_0 [of F "FL a c r # k" l s] at by simp
  moreover have "rptr r = NULL \<longleftrightarrow> r = Tip" using at_rptr_0 [of F "FR l a c # k" r s] at by simp
  ultimately have "rb_erase a s = Some s'"
    using at_reads(1,2) [OF at] erase_one [OF at t] s'(1) True by (auto simp: rb_erase_def t_def)
  moreover have "inord T = lefts k @ inord l @ inord r @ rights k" using s'(4) t by (auto simp: inord_plug)
  ultimately show ?thesis using s'(2,3) by blast
next
  case False
  then have "r \<noteq> Tip" by blast
  then obtain j y d q where r: "r = plug j (Nd Tip y d q)" "left_path j" by (rule successor_position)
  obtain s1 m where s1: "erase_two a s = Some (rptr q, cptr (j @ FR l y c # k), cbit d, s1)" "at (F(a \<mapsto> m)) (j @ FR l y c # k) q s1"
    using erase_two [of F k l a c j y d q s] at r False by blast
  have "rbt (plug (j @ FR l a c # k) (Nd Tip y d q))" using rbt r by (simp add: plug_append)
  then obtain n where n: "kgood (j @ FR l y c # k) n" "good (Nd Tip y d q) n" using plug_kgood kgood_swap by blast
  obtain s' T where s': "(if cbit d = RB_BLACK then rb_erase_color (rptr q) (cptr (j @ FR l y c # k)) s1 else Some s1) = Some s'"
      "holds (F(a \<mapsto> m)) T s'" "rbt T" "inord T = inord (plug (j @ FR l y c # k) q)"
    using erase_rebalance [OF s1(2) n(2,1)] by blast
  have "rptr l \<noteq> NULL" "rptr r \<noteq> NULL"
    using False at_rptr_0 [of F "FL a c r # k" l s] at_rptr_0 [of F "FR l a c # k" r s] at by simp_all
  then have "rb_erase a s = Some s'" using at_reads(1,2) [OF at] s1(1) s'(1) by (simp add: rb_erase_def)
  moreover have "inord T = lefts k @ inord l @ inord r @ rights k"
    using s'(4) r left_path_lefts [OF r(2), of "[]"] by (simp add: plug_append inord_plug)
  ultimately show ?thesis using s'(2,3) by blast
qed

lemma erase_spec:
  assumes h: "holds F t s" "rbt t" and t: "inord t = xs @ a # ys"
  shows "\<exists>s' t' n. rb_erase a s = Some s' \<and> holds (F(a \<mapsto> n)) t' s' \<and> rbt t' \<and> inord t' = xs @ ys"
proof -
  obtain k l c r where k: "t = plug k (Nd l a c r)" "at F k (Nd l a c r) s" "lefts k @ inord l = xs" "inord r @ rights k = ys"
    using h(1) t by (rule position)
  show ?thesis using erase_at [OF k(2)] h(2) k by force
qed

lemma replace_spec:
  assumes h: "holds F t s" "rbt t" and t: "inord t = xs @ a # ys" and y: "y \<notin> set (inord t)" "y \<noteq> NULL" "aligned y" "F y \<noteq> None"
  shows "\<exists>s' t' n. rb_replace_node a y s = Some s' \<and> holds (F(a \<mapsto> n)) t' s' \<and> rbt t' \<and> inord t' = xs @ y # ys"
proof -
  obtain k l c r where k: "t = plug k (Nd l a c r)" "at F k (Nd l a c r) s" "lefts k @ inord l = xs" "inord r @ rights k = ys"
    using h(1) t by (rule position)
  have fresh: "y \<notin> set (lefts k @ inord (Nd l a c r) @ rights k)" using y(1) k(1) by (simp add: inord_plug)
  have "rb_nodes s y \<noteq> None" using h(1) y(1,4) by (simp add: at_def)
  then have "rb_replace_node a y s = Some (replaced k l c r y s)" using replace_node [OF k(2) fresh y(2)] by simp
  moreover have "at (F(a \<mapsto> mkn (cptr k) c (rptr l) (rptr r))) k (Nd l y c r) (replaced k l c r y s)"
    using at_replaced [OF k(2) fresh y(2,3)] at_node(4) [OF k(2)] by simp
  moreover have "rbt (plug k (Nd l y c r))"
  proof -
    obtain n where n: "kgood k n" "good (Nd l a c r) n" "c = Red \<Longrightarrow> kblack k" using plug_kgood [of k "Nd l a c r"] h(2) k(1) by auto
    then show ?thesis by (intro plug_good [of k n]) (cases c; auto)+
  qed
  moreover have "inord (plug k (Nd l y c r)) = xs @ y # ys" using k(3,4) by (simp add: inord_plug)
  ultimately show ?thesis using at_plug by blast
qed

end
