(* ===== verification/Ordered_Index.thy ===== *)
theory Ordered_Index
  imports Libkern_Prelude
begin

text \<open>
  The contract of an ordered index of nodes, as the red-black tree offers it to its clients: the state holds
  a sequence of nodes in strictly descending key order, insertion puts a node with a new key in its place and
  leaves the state alone when the key is there, removal takes a node out, and both leave every cell allocated.
\<close>

lemma sorted_keys_distinct: "sorted_wrt (\<lambda>x y. key x > (key y :: 'k::linorder)) xs \<Longrightarrow> distinct (map key xs)"
  by (induction xs) force+

locale ordered_index =
  fixes index :: "addr list \<Rightarrow> 's \<Rightarrow> bool"
    and avail :: "addr \<Rightarrow> 's \<Rightarrow> bool"
    and key :: "addr \<Rightarrow> 'k::linorder"
    and insert_node :: "addr \<Rightarrow> 's \<Rightarrow> 's option"
    and remove_node :: "addr \<Rightarrow> 's \<Rightarrow> 's option"
  assumes index_sorted: "index xs s \<Longrightarrow> sorted_wrt (\<lambda>x y. key x > key y) xs"
    and insert_new: "index xs s \<Longrightarrow> avail x s \<Longrightarrow> x \<notin> set xs \<Longrightarrow> key x \<notin> key ` set xs \<Longrightarrow>
      \<exists>s' ys zs. insert_node x s = Some s' \<and> xs = ys @ zs \<and> index (ys @ x # zs) s' \<and> (\<forall>y. avail y s \<longrightarrow> avail y s')"
    and insert_dup: "index xs s \<Longrightarrow> avail x s \<Longrightarrow> x \<notin> set xs \<Longrightarrow> key x \<in> key ` set xs \<Longrightarrow> insert_node x s = Some s"
    and remove_law: "index (ys @ x # zs) s \<Longrightarrow>
      \<exists>s'. remove_node x s = Some s' \<and> index (ys @ zs) s' \<and> (\<forall>y. avail y s \<longrightarrow> avail y s')"
begin

lemma index_distinct: "index xs s \<Longrightarrow> distinct (map key xs)"
  by (rule sorted_keys_distinct) (rule index_sorted)

lemma index_keys: "index xs s \<Longrightarrow> set xs = A \<Longrightarrow> map key xs = rev (sorted_list_of_set (key ` A))"
proof -
  assume a: "index xs s" "set xs = A"
  have "sorted (rev (map key xs))"
    using index_sorted [OF a(1)] by (simp add: sorted_wrt_rev sorted_wrt_map) (erule sorted_wrt_mono_rel [rotated], simp)
  moreover have "distinct (rev (map key xs))" using index_distinct [OF a(1)] by simp
  ultimately have "rev (map key xs) = sorted_list_of_set (set (rev (map key xs)))"
    by (metis sorted_list_of_set.idem_if_sorted_distinct)
  then show ?thesis using a(2) by (simp add: rev_swap)
qed

lemma insert_all:
  assumes "index ys s" and "\<And>x. x \<in> set xs \<Longrightarrow> avail x s" and "distinct xs" and "set xs \<inter> set ys = {}"
    and "inj_on key (set xs \<union> set ys)"
  shows "\<exists>s' zs. steps insert_node xs s = Some s' \<and> index zs s' \<and> set zs = set xs \<union> set ys \<and> (\<forall>y. avail y s \<longrightarrow> avail y s')"
  using assms
proof (induction xs arbitrary: ys s)
  case (Cons x xs)
  have "key x \<notin> key ` set ys" "avail x s" "x \<notin> set ys" using Cons.prems(2,4,5) by (auto simp: inj_on_def)
  then obtain s1 us vs where s1: "insert_node x s = Some s1" "ys = us @ vs" "index (us @ x # vs) s1" "\<forall>y. avail y s \<longrightarrow> avail y s1"
    using insert_new [OF Cons.prems(1)] by blast
  have "\<exists>s' zs. steps insert_node xs s1 = Some s' \<and> index zs s' \<and> set zs = set xs \<union> set (us @ x # vs) \<and>
      (\<forall>y. avail y s1 \<longrightarrow> avail y s')"
  proof (rule Cons.IH [OF s1(3)])
    show "avail y s1" if "y \<in> set xs" for y using Cons.prems(2) s1(4) that by simp
    show "distinct xs" "set xs \<inter> set (us @ x # vs) = {}" using Cons.prems(3,4) s1(2) by auto
    show "inj_on key (set xs \<union> set (us @ x # vs))" using Cons.prems(5) by (rule inj_on_subset) (use s1(2) in auto)
  qed
  then obtain s2 zs where "steps insert_node xs s1 = Some s2" "index zs s2" "set zs = set xs \<union> set (us @ x # vs)"
      "\<forall>y. avail y s1 \<longrightarrow> avail y s2" by blast
  moreover have "set xs \<union> set (us @ x # vs) = set (x # xs) \<union> set ys" using s1(2) by auto
  ultimately show ?case using s1(1,4) by (intro exI [of _ s2] exI [of _ zs]) simp
qed auto

lemma remove_all:
  assumes "index ys s" and "distinct xs" and "set xs \<subseteq> set ys"
  shows "\<exists>s' zs. steps remove_node xs s = Some s' \<and> index zs s' \<and> zs = filter (\<lambda>y. y \<notin> set xs) ys \<and> (\<forall>y. avail y s \<longrightarrow> avail y s')"
  using assms
proof (induction xs arbitrary: ys s)
  case (Cons x xs)
  then obtain us vs where ys: "ys = us @ x # vs" by (meson list.set_intros(1) split_list subset_code(1))
  then obtain s1 where s1: "remove_node x s = Some s1" "index (us @ vs) s1" "\<forall>y. avail y s \<longrightarrow> avail y s1"
    using remove_law Cons.prems(1) by blast
  have "distinct ys" using index_distinct [OF Cons.prems(1)] by (simp add: distinct_map)
  then have x: "x \<notin> set us" "x \<notin> set vs" using ys by auto
  then have "set xs \<subseteq> set (us @ vs)" using Cons.prems(2,3) ys by auto
  then obtain s2 where s2: "steps remove_node xs s1 = Some s2" "index (filter (\<lambda>y. y \<notin> set xs) (us @ vs)) s2" "\<forall>y. avail y s1 \<longrightarrow> avail y s2"
    using Cons.IH [OF s1(2)] Cons.prems(2) by auto
  have "filter (\<lambda>y. y \<notin> set xs) us = filter (\<lambda>y. y \<notin> set (x # xs)) us" "filter (\<lambda>y. y \<notin> set xs) vs = filter (\<lambda>y. y \<notin> set (x # xs)) vs"
    using x by (auto intro!: filter_cong)
  then have "filter (\<lambda>y. y \<notin> set xs) (us @ vs) = filter (\<lambda>y. y \<notin> set (x # xs)) ys" using ys by simp
  then show ?case using s1 s2 by auto
qed auto

end

end
