(* ===== verification/Rbtree_Props.thy ===== *)
theory Rbtree_Props
  imports Rbtree_Erase Ordered_Index
begin

text \<open>
  The properties of the red-black tree over its heap model: insertion, lookup, removal, deletion by key,
  replacement and iteration in terms of the in-order sequence of the nodes, the red-black invariant, the
  height bound, and the tree as an instance of the ordered index.
\<close>

section \<open>The tree in a state\<close>

text \<open>
  \<open>rb_tree F xs s\<close>: the root of \<open>s\<close> leads to a valid red-black tree whose nodes are \<open>xs\<close> from left to right, and
  the heap agrees with \<open>F\<close> outside the tree.
\<close>

definition rb_tree :: "rb_node heap \<Rightarrow> addr list \<Rightarrow> rb_state \<Rightarrow> bool" where
  "rb_tree F xs s \<longleftrightarrow> (\<exists>t. holds F t s \<and> rbt t \<and> inord t = xs)"

definition descending :: "(addr \<Rightarrow> 'k::linorder) \<Rightarrow> u64 \<Rightarrow> addr list \<Rightarrow> bool" where
  "descending key off xs \<longleftrightarrow> sorted_wrt (\<lambda>x y. key (rb_entry x off) > key (rb_entry y off)) xs"

text \<open>A node that can be linked: a cell of the heap, at an address whose two low bits are free.\<close>

definition rb_usable :: "addr \<Rightarrow> rb_state \<Rightarrow> bool" where
  "rb_usable x s \<longleftrightarrow> x \<noteq> NULL \<and> aligned x \<and> rb_nodes s x \<noteq> None"

lemma ordered_descending: "ordered key off t \<longleftrightarrow> descending key off (inord t)"
  by (simp add: ordered_def descending_def nkey_def)

lemma node_cell:
  assumes "holds F t s"
  shows "rb_nodes s x \<noteq> None \<longleftrightarrow> x \<in> set (inord t) \<or> F x \<noteq> None"
proof (cases "x \<in> set (inord t)")
  case True
  then obtain ys zs where "inord t = ys @ x # zs" by (meson split_list)
  with assms obtain k l c r where "at F k (Nd l x c r) s" by (rule position)
  then show ?thesis using at_node(4) True by blast
next
  case False
  then show ?thesis using assms by (simp add: at_def)
qed

lemma tree_cell: "rb_tree F xs s \<Longrightarrow> rb_nodes s x \<noteq> None \<longleftrightarrow> x \<in> set xs \<or> F x \<noteq> None"
  unfolding rb_tree_def using node_cell by blast

lemma insert_tree:
  assumes "cmp_ok cmp" and t: "rb_tree F xs s" and d: "descending key off xs" and x: "rb_usable x s" "x \<notin> set xs"
  shows "key (rb_entry x off) \<in> (\<lambda>y. key (rb_entry y off)) ` set xs \<Longrightarrow> rb_insert key off cmp x s = Some s"
    and "key (rb_entry x off) \<notin> (\<lambda>y. key (rb_entry y off)) ` set xs \<Longrightarrow>
      \<exists>s' ys zs. rb_insert key off cmp x s = Some s' \<and> xs = ys @ zs \<and> rb_tree F (ys @ x # zs) s' \<and> descending key off (ys @ x # zs)"
proof -
  obtain t where t: "holds F t s" "rbt t" "inord t = xs" using t by (auto simp: rb_tree_def)
  have F: "F x \<noteq> None" using node_cell [OF t(1), of x] x t(3) by (auto simp: rb_usable_def)
  have o: "ordered key off t" using d t(3) by (simp add: ordered_descending)
  note sp = insert_spec [OF assms(1) t(1,2) o, of x]
  show "key (rb_entry x off) \<in> (\<lambda>y. key (rb_entry y off)) ` set xs \<Longrightarrow> rb_insert key off cmp x s = Some s"
    using sp x t(3) F by (auto simp: rb_usable_def nkey_def)
  assume "key (rb_entry x off) \<notin> (\<lambda>y. key (rb_entry y off)) ` set xs"
  then obtain s' t' ys zs where "rb_insert key off cmp x s = Some s'" "holds F t' s'" "rbt t'" "ordered key off t'"
      "xs = ys @ zs" "inord t' = ys @ x # zs"
    using sp x t(3) F by (auto simp: rb_usable_def nkey_def image_iff)
  then show "\<exists>s' ys zs. rb_insert key off cmp x s = Some s' \<and> xs = ys @ zs \<and> rb_tree F (ys @ x # zs) s' \<and>
      descending key off (ys @ x # zs)"
    unfolding rb_tree_def ordered_descending by metis
qed

lemma erase_tree:
  assumes "rb_tree F (xs @ a # ys) s"
  shows "\<exists>s' n. rb_erase a s = Some s' \<and> rb_tree (F(a \<mapsto> n)) (xs @ ys) s'"
  using assms erase_spec unfolding rb_tree_def by metis

section \<open>The tree as an ordered index\<close>

definition rb_index :: "(addr \<Rightarrow> 'k::linorder) \<Rightarrow> u64 \<Rightarrow> addr list \<Rightarrow> rb_state \<Rightarrow> bool" where
  "rb_index key off xs s \<longleftrightarrow> (\<exists>F. rb_tree F xs s) \<and> descending key off xs"

lemma descending_split: "descending key off (xs @ a # ys) \<Longrightarrow> descending key off (xs @ ys)"
  by (auto simp: descending_def sorted_wrt_append)

lemma rb_index_laws:
  assumes "rb_index key off xs s"
  shows "sorted_wrt (\<lambda>x y. key (rb_entry x off) > key (rb_entry y off)) xs"
    and "rb_usable x s \<Longrightarrow> x \<notin> set xs \<Longrightarrow> key (rb_entry x off) \<notin> (\<lambda>y. key (rb_entry y off)) ` set xs \<Longrightarrow>
      \<exists>s' ys zs. rb_insert key off cmp3 x s = Some s' \<and> xs = ys @ zs \<and> rb_index key off (ys @ x # zs) s' \<and>
        (\<forall>y. rb_usable y s \<longrightarrow> rb_usable y s')"
    and "rb_usable x s \<Longrightarrow> x \<notin> set xs \<Longrightarrow> key (rb_entry x off) \<in> (\<lambda>y. key (rb_entry y off)) ` set xs \<Longrightarrow>
      rb_insert key off cmp3 x s = Some s"
    and "xs = ys @ x # zs \<Longrightarrow> \<exists>s'. rb_erase x s = Some s' \<and> rb_index key off (ys @ zs) s' \<and> (\<forall>y. rb_usable y s \<longrightarrow> rb_usable y s')"
proof -
  obtain F where F: "rb_tree F xs s" and d: "descending key off xs" using assms by (auto simp: rb_index_def)
  show "sorted_wrt (\<lambda>x y. key (rb_entry x off) > key (rb_entry y off)) xs" using d by (simp add: descending_def)
  show "rb_insert key off cmp3 x s = Some s"
    if "rb_usable x s" "x \<notin> set xs" "key (rb_entry x off) \<in> (\<lambda>y. key (rb_entry y off)) ` set xs"
    using insert_tree(1) [OF cmp_ok_cmp3 F d] that by blast
  show "\<exists>s' ys zs. rb_insert key off cmp3 x s = Some s' \<and> xs = ys @ zs \<and> rb_index key off (ys @ x # zs) s' \<and>
        (\<forall>y. rb_usable y s \<longrightarrow> rb_usable y s')"
    if x: "rb_usable x s" "x \<notin> set xs" "key (rb_entry x off) \<notin> (\<lambda>y. key (rb_entry y off)) ` set xs"
  proof -
    obtain s' ys zs where s': "rb_insert key off cmp3 x s = Some s'" "xs = ys @ zs" "rb_tree F (ys @ x # zs) s'" "descending key off (ys @ x # zs)"
      using insert_tree(2) [OF cmp_ok_cmp3 F d x] by blast
    have "rb_usable y s'" if "rb_usable y s" for y
      using that tree_cell [OF F, of y] tree_cell [OF s'(3), of y] s'(2) by (auto simp: rb_usable_def)
    then show ?thesis using s' unfolding rb_index_def by blast
  qed
  show "\<exists>s'. rb_erase x s = Some s' \<and> rb_index key off (ys @ zs) s' \<and> (\<forall>y. rb_usable y s \<longrightarrow> rb_usable y s')" if xs: "xs = ys @ x # zs"
  proof -
    obtain s' n where s': "rb_erase x s = Some s'" "rb_tree (F(x \<mapsto> n)) (ys @ zs) s'" using erase_tree F xs by blast
    have "rb_usable y s'" if "rb_usable y s" for y
      using that tree_cell [OF F, of y] tree_cell [OF s'(2), of y] xs by (auto simp: rb_usable_def split: if_splits)
    then show ?thesis using s' descending_split d xs unfolding rb_index_def by blast
  qed
qed

interpretation rb: ordered_index "rb_index key off" rb_usable "\<lambda>x. key (rb_entry x off)" "rb_insert key off cmp3" rb_erase
  for key :: "addr \<Rightarrow> 'k::linorder" and off :: u64
proof
  fix xs ys zs s x
  show "rb_index key off xs s \<Longrightarrow> sorted_wrt (\<lambda>x y. key (rb_entry x off) > key (rb_entry y off)) xs" by (rule rb_index_laws)
  show "rb_index key off xs s \<Longrightarrow> rb_usable x s \<Longrightarrow> x \<notin> set xs \<Longrightarrow>
      key (rb_entry x off) \<notin> (\<lambda>y. key (rb_entry y off)) ` set xs \<Longrightarrow>
      \<exists>s' ys zs. rb_insert key off cmp3 x s = Some s' \<and> xs = ys @ zs \<and> rb_index key off (ys @ x # zs) s' \<and>
        (\<forall>y. rb_usable y s \<longrightarrow> rb_usable y s')" by (rule rb_index_laws)
  show "rb_index key off xs s \<Longrightarrow> rb_usable x s \<Longrightarrow> x \<notin> set xs \<Longrightarrow>
      key (rb_entry x off) \<in> (\<lambda>y. key (rb_entry y off)) ` set xs \<Longrightarrow> rb_insert key off cmp3 x s = Some s" by (rule rb_index_laws)
  show "rb_index key off (ys @ x # zs) s \<Longrightarrow>
      \<exists>s'. rb_erase x s = Some s' \<and> rb_index key off (ys @ zs) s' \<and> (\<forall>y. rb_usable y s \<longrightarrow> rb_usable y s')"
    using rb_index_laws(4) by blast
qed

section \<open>Height and paths\<close>

fun rheight :: "rtree \<Rightarrow> nat" where
  "rheight Tip = 0"
| "rheight (Nd l a c r) = Suc (max (rheight l) (rheight r))"

lemma height_bh: "invc t \<Longrightarrow> invh t \<Longrightarrow> rheight t \<le> 2 * bh t + (if rcol t = Red then 1 else 0)"
proof (induction t)
  case (Nd l a c r)
  then show ?case by (cases c) (auto split: if_splits)
qed simp

lemma bh_size: "invh t \<Longrightarrow> 2 ^ bh t \<le> length (inord t) + 1"
proof (induction t)
  case (Nd l a c r)
  then have "(2::nat) ^ bh l + 2 ^ bh r \<le> length (inord l) + 1 + (length (inord r) + 1)" and "bh l = bh r" by auto
  then show ?case by (cases c) auto
qed simp

lemma height_bound:
  assumes "rbt t"
  shows "2 ^ rheight t \<le> (length (inord t) + 1) ^ 2"
proof -
  have "rheight t \<le> 2 * bh t" using height_bh [of t] assms by (simp add: rbt_def)
  then have "(2::nat) ^ rheight t \<le> (2 ^ bh t) ^ 2" by (simp add: power_increasing flip: power_mult mult.commute)
  also have "\<dots> \<le> (length (inord t) + 1) ^ 2" using bh_size [of t] assms by (intro power_mono) (simp_all add: rbt_def)
  finally show ?thesis .
qed

lemma depth_height: "length k + rheight u \<le> rheight (plug k u)"
proof (induction k arbitrary: u)
  case (Cons f k)
  then show ?case using Cons [of "fill f u"] by (cases f) auto
qed simp

text \<open>The nodes that the augmentation callback is called for, on the way from a position to the root.\<close>

fun visits :: "frame list \<Rightarrow> addr \<Rightarrow> addr list" where
  "visits [] a = [a]"
| "visits (FL p c r # k) a = a # (if r = Tip then a else rptr r) # visits k p"
| "visits (FR l p c # k) a = a # (if l = Tip then [] else [rptr l]) @ visits k p"

lemma visits_ends: "visits k a \<noteq> []" "hd (visits k a) = a" "length (visits k a) \<le> 2 * length k + 1"
  by (induction k a rule: visits.induct) auto

lemma visits_last: "last (visits k a) = rptr (plug k (Nd l a c r))"
proof (induction k a arbitrary: l c r rule: visits.induct)
  case (2 p d u k a)
  then show ?case using visits_ends(1) [of k p] by (cases u) auto
next
  case (3 u p d k a)
  then show ?case using visits_ends(1) [of k p] by (cases u) auto
qed auto

lemma augment_path:
  assumes "at F k (Nd l a c r) s"
  shows "rb_augment_path a (\<lambda>_ x d. Some (f x d)) s d = Some (fold f (visits k a) d)"
  using assms
proof (induction k arbitrary: l a c r d)
  case Nil
  then show ?case using at_reads(3) [OF Nil] by (subst rb_augment_path.simps) simp
next
  case (Cons g k)
  have p: "nget rb_parent a s = Some (faddr g)" "faddr g \<noteq> NULL" using at_reads(3) [OF Cons.prems] at_cptr_0 [OF Cons.prems] by simp_all
  have a: "a \<noteq> NULL" using at_node(1) [OF Cons.prems] .
  show ?case
  proof (cases g)
    case (FL b e q)
    have at: "at F k (Nd (Nd l a c r) b e q) s" using Cons.prems FL by simp
    have "rptr q = NULL \<longleftrightarrow> q = Tip" using at_rptr_0 [of F "FR (Nd l a c r) b e # k" q s] at by simp
    then show ?thesis using p a FL at_reads(1,2) [OF at] Cons.IH [OF at] by (subst rb_augment_path.simps) auto
  next
    case (FR q b e)
    have at: "at F k (Nd q b e (Nd l a c r)) s" using Cons.prems FR by simp
    have "rptr q = NULL \<longleftrightarrow> q = Tip" using at_rptr_0 [of F "FL b e (Nd l a c r) # k" q s] at by simp
    moreover have "rptr q \<noteq> a" using at_ne [of F "FL b e (Nd l a c r) # k" q s a] a at at_distinct_here [OF at] by auto
    ultimately show ?thesis using p FR at_reads(1,2) [OF at] Cons.IH [OF at] by (subst rb_augment_path.simps) auto
  qed
qed

section \<open>Erasing while iterating\<close>

lemma safe_erase_loop:
  assumes "rb_tree F ys s"
  shows "\<exists>s' F'. rb_for_each_safe_loop rb_next (\<lambda>x (s, d). map_option (\<lambda>s. (s, d @ [x])) (rb_erase x s)) (first_of ys) (s, d) =
      Some (s', d @ ys) \<and> rb_tree F' [] s'"
  using assms
proof (induction ys arbitrary: F s d)
  case Nil
  then show ?case by (auto simp: rb_for_each_safe_loop.simps)
next
  case (Cons a ys)
  obtain t where t: "holds F t s" "inord t = [] @ a # ys" using Cons.prems by (auto simp: rb_tree_def)
  have a: "a \<noteq> NULL" using nodes_nonnull [OF t(1), of a] t(2) by simp
  have n: "rb_next a s = Some (first_of ys)" using t by (rule next_spec)
  obtain s1 m where s1: "rb_erase a s = Some s1" "rb_tree (F(a \<mapsto> m)) ys s1" using erase_tree [of F "[]" a ys s] Cons.prems by auto
  obtain s' F' where "rb_for_each_safe_loop rb_next (\<lambda>x (s, d). map_option (\<lambda>s. (s, d @ [x])) (rb_erase x s)) (first_of ys) (s1, d @ [a]) =
      Some (s', (d @ [a]) @ ys)" "rb_tree F' [] s'" using Cons.IH [OF s1(2)] by blast
  then show ?case using a n s1(1) by (subst rb_for_each_safe_loop.simps) auto
qed

lemma empty_tree: "rb_tree F [] s \<longleftrightarrow> rb_root s = NULL \<and> rb_nodes s = F"
  unfolding rb_tree_def by (auto simp: inord_nonempty at_def rbt_def intro!: exI [of _ Tip])

lemma for_each_tree:
  assumes "rb_tree F xs s"
  shows "rb_for_each (\<lambda>x (s, d). Some (s, f x d)) (s, d) = Some (s, fold f xs d)"
    and "rb_for_each_prev (\<lambda>x (s, d). Some (s, f x d)) (s, d) = Some (s, fold f (rev xs) d)"
    and "rb_for_each_entry off (\<lambda>x (s, d). Some (s, f x d)) (s, d) = Some (s, fold f (map (\<lambda>x. rb_entry x off) xs) d)"
proof -
  obtain t where t: "holds F t s" "inord t = xs" using assms by (auto simp: rb_tree_def)
  show "rb_for_each (\<lambda>x (s, d). Some (s, f x d)) (s, d) = Some (s, fold f xs d)"
    using for_each_suffix [OF t(1), of "[]" xs f d] ends_spec [OF t(1)] t(2) by (simp add: rb_for_each_def)
  show "rb_for_each_prev (\<lambda>x (s, d). Some (s, f x d)) (s, d) = Some (s, fold f (rev xs) d)"
    using for_each_prefix [OF t(1), of xs "[]" f d] ends_spec [OF t(1)] t(2) by (simp add: rb_for_each_prev_def)
  show "rb_for_each_entry off (\<lambda>x (s, d). Some (s, f x d)) (s, d) = Some (s, fold f (map (\<lambda>x. rb_entry x off) xs) d)"
    using for_each_suffix [OF t(1), of "[]" xs "\<lambda>x. f (rb_entry x off)" d] ends_spec [OF t(1)] t(2)
    by (simp add: rb_for_each_entry_def fold_map comp_def)
qed

lemma find_tree:
  assumes "cmp_ok cmp" and "rb_tree F xs s" and "descending key off xs"
  shows "if v \<in> (\<lambda>y. key (rb_entry y off)) ` set xs
    then \<exists>x. x \<in> set xs \<and> key (rb_entry x off) = v \<and> rb_find key off cmp v s = Some (rb_entry x off)
    else rb_find key off cmp v s = Some NULL"
proof -
  obtain t where t: "holds F t s" "inord t = xs" using assms(2) by (auto simp: rb_tree_def)
  have "rep (rb_nodes s) NULL t" "rb_root s = rptr t" using t(1) by (simp_all add: at_def)
  then show ?thesis using find_loop [OF assms(1), of s NULL t key off v] assms(3) t(2)
    by (auto simp: ordered_descending nkey_def rb_find_def)
qed

text \<open>A concrete tree: a black root between two red leaves, and a spare node outside the tree.\<close>

definition spare :: "rb_node heap" where
  "spare = [0x400 \<mapsto> mkn NULL Red NULL NULL]"

definition three :: rb_state where
  "three = \<lparr>rb_nodes = spare(0x100 \<mapsto> mkn NULL Black 0x200 0x300, 0x200 \<mapsto> mkn 0x100 Red NULL NULL, 0x300 \<mapsto> mkn 0x100 Red NULL NULL),
    rb_root = 0x100\<rparr>"

definition three_key :: "addr \<Rightarrow> nat" where
  "three_key x = (if x = 0x200 then 3 else if x = 0x100 then 2 else if x = 0x300 then 1 else 0)"

lemma three_tree: "rb_tree spare [0x200, 0x100, 0x300] three"
  unfolding rb_tree_def
  by (rule exI [of _ "Nd (Nd Tip 0x200 Red Tip) 0x100 Black (Nd Tip 0x300 Red Tip)"])
    (auto simp: at_def rbt_def three_def spare_def aligned_def)

lemma three_descending: "descending three_key 0 [0x200, 0x100, 0x300]"
  by (simp add: descending_def three_key_def rb_entry_def)

lemma three_usable: "rb_usable 0x400 three"
  by (simp add: rb_usable_def three_def spare_def aligned_def)

section \<open>Properties\<close>

text \<open>
  C1: rb_insert on a search tree. When no node has the key of the new item, the call returns, the item
  stands between two halves of the old node sequence, the keys still descend and the tree is again a valid
  red-black tree (black root, no red node under a red one, equal black heights); the rest of the heap is
  as before. When the key is there, nothing changes.
\<close>

theorem rb_insert_search_tree:
  assumes "cmp_ok cmp" and "rb_tree F xs s" and "descending key off xs" and "rb_usable x s" and "x \<notin> set xs"
  shows "if key (rb_entry x off) \<in> (\<lambda>y. key (rb_entry y off)) ` set xs then rb_insert key off cmp x s = Some s
    else \<exists>s' ys zs. rb_insert key off cmp x s = Some s' \<and> xs = ys @ zs \<and> rb_tree F (ys @ x # zs) s' \<and>
      descending key off (ys @ x # zs)"
  using insert_tree [OF assms] by simp

theorem rb_insert_search_tree_witness:
  "\<exists>s' ys zs. rb_insert three_key 0 cmp3 0x400 three = Some s' \<and> [0x200, 0x100, 0x300] = ys @ zs \<and>
     rb_tree spare (ys @ 0x400 # zs) s' \<and> descending three_key 0 (ys @ 0x400 # zs)"
  using rb_insert_search_tree [OF cmp_ok_cmp3 three_tree three_descending three_usable]
  by (simp add: three_key_def rb_entry_def)

text \<open>
  C2: rb_erase of any node of a valid tree returns, for every shape and colouring around the node: the
  remaining nodes keep their order and form a valid red-black tree, the removed node's cell is outside
  the tree and the rest of the heap is as before.
\<close>

theorem rb_erase_node:
  assumes "rb_tree F (xs @ a # ys) s"
  shows "\<exists>s' n. rb_erase a s = Some s' \<and> rb_tree (F(a \<mapsto> n)) (xs @ ys) s'"
  using assms by (rule erase_tree)

theorem rb_erase_node_witness:
  "\<exists>s' n. rb_erase 0x100 three = Some s' \<and> rb_tree (spare(0x100 \<mapsto> n)) [0x200, 0x300] s'"
  using rb_erase_node [of spare "[0x200]" "0x100" "[0x300]" three] three_tree by simp

text \<open>
  C3: rb_find returns the struct around the node with the searched key, and NULL exactly when no node
  has it; it terminates on every search tree.
\<close>

theorem rb_find_key:
  assumes "cmp_ok cmp" and "rb_tree F xs s" and "descending key off xs"
  shows "if v \<in> (\<lambda>y. key (rb_entry y off)) ` set xs
    then \<exists>x. x \<in> set xs \<and> key (rb_entry x off) = v \<and> rb_find key off cmp v s = Some (rb_entry x off)
    else rb_find key off cmp v s = Some NULL"
  using assms by (rule find_tree)

theorem rb_find_key_witness:
  "(\<exists>x. x \<in> set [0x200, 0x100, 0x300] \<and> three_key (rb_entry x 0) = 1 \<and> rb_find three_key 0 cmp3 1 three = Some (rb_entry x 0)) \<and>
   rb_find three_key 0 cmp3 7 three = Some NULL"
  using rb_find_key [OF cmp_ok_cmp3 three_tree three_descending, of 1] rb_find_key [OF cmp_ok_cmp3 three_tree three_descending, of 7]
  by (simp add: three_key_def rb_entry_def)

text \<open>
  C4: rb_delete, for a node at the start of its struct: the node with the key is taken out and the
  tree stays a valid search tree; without such a node nothing changes.
\<close>

theorem rb_delete_key:
  assumes "cmp_ok cmp" and "rb_tree F xs s" and "descending key 0 xs"
  shows "if v \<in> key ` set xs
    then \<exists>ys a zs s' n. xs = ys @ a # zs \<and> key a = v \<and> rb_delete key 0 cmp v s = Some s' \<and>
      rb_tree (F(a \<mapsto> n)) (ys @ zs) s' \<and> descending key 0 (ys @ zs)
    else rb_delete key 0 cmp v s = Some s"
proof (cases "v \<in> key ` set xs")
  case True
  then obtain x where x: "x \<in> set xs" "key x = v" "rb_find key 0 cmp v s = Some x"
    using find_tree [OF assms, of v] by (auto simp: rb_entry_def)
  obtain t where t: "holds F t s" "inord t = xs" using assms(2) by (auto simp: rb_tree_def)
  have "x \<noteq> NULL" using nodes_nonnull [OF t(1)] t(2) x(1) by simp
  then have d: "rb_delete key 0 cmp v s = rb_erase x s" using x(3) by (simp add: rb_delete_def)
  obtain ys zs where xs: "xs = ys @ x # zs" using x(1) by (meson split_list)
  obtain s' n where "rb_erase x s = Some s'" "rb_tree (F(x \<mapsto> n)) (ys @ zs) s'" using erase_tree assms(2) xs by blast
  then show ?thesis using True d xs x(2) descending_split assms(3) by metis
next
  case False
  then show ?thesis using find_tree [OF assms, of v] by (simp add: rb_entry_def rb_delete_def)
qed

theorem rb_delete_key_witness:
  "(\<exists>ys a zs s' n. [0x200, 0x100, 0x300] = ys @ a # zs \<and> three_key a = 2 \<and> rb_delete three_key 0 cmp3 2 three = Some s' \<and>
      rb_tree (spare(a \<mapsto> n)) (ys @ zs) s' \<and> descending three_key 0 (ys @ zs)) \<and>
   rb_delete three_key 0 cmp3 9 three = Some three"
  using rb_delete_key [OF cmp_ok_cmp3 three_tree three_descending, of 2] rb_delete_key [OF cmp_ok_cmp3 three_tree three_descending, of 9]
  by (simp add: three_key_def)

text \<open>
  C7: rb_replace_node puts a fresh node in the place of the victim: same position in the order, and the tree
  stays valid, with every link to the victim redirected.
\<close>

theorem rb_replace_node_keeps:
  assumes "rb_tree F (xs @ a # ys) s" and "rb_usable y s" and "y \<notin> set (xs @ a # ys)"
  shows "\<exists>s' n. rb_replace_node a y s = Some s' \<and> rb_tree (F(a \<mapsto> n)) (xs @ y # ys) s'"
proof -
  obtain t where t: "holds F t s" "rbt t" "inord t = xs @ a # ys" using assms(1) by (auto simp: rb_tree_def)
  moreover have "F y \<noteq> None" using tree_cell [OF assms(1), of y] assms(2,3) by (auto simp: rb_usable_def)
  ultimately show ?thesis using replace_spec [of F t s xs a ys y] assms(2,3) unfolding rb_tree_def rb_usable_def by metis
qed

theorem rb_replace_node_keeps_witness:
  "\<exists>s' n. rb_replace_node 0x100 0x400 three = Some s' \<and> rb_tree (spare(0x100 \<mapsto> n)) [0x200, 0x400, 0x300] s'"
  using rb_replace_node_keeps [of spare "[0x200]" "0x100" "[0x300]" three "0x400"] three_tree three_usable by simp

text \<open>
  rb_first, rb_last, rb_next and rb_prev are the ends of the in-order sequence and the neighbours in
  it, NULL past either end.
\<close>

theorem rb_neighbours:
  assumes "rb_tree F (xs @ a # ys) s"
  shows "rb_next a s = Some (first_of ys) \<and> rb_prev a s = Some (first_of (rev xs)) \<and>
    rb_first s = Some (first_of (xs @ a # ys)) \<and> rb_last s = Some (first_of (rev (xs @ a # ys)))"
proof -
  obtain t where t: "holds F t s" "inord t = xs @ a # ys" using assms by (auto simp: rb_tree_def)
  then show ?thesis using next_spec [OF t] ends_spec [OF t(1)] by simp
qed

theorem rb_neighbours_witness:
  "rb_next 0x100 three = Some 0x300 \<and> rb_prev 0x100 three = Some 0x200 \<and> rb_first three = Some 0x200 \<and> rb_last three = Some 0x300"
  using rb_neighbours [of spare "[0x200]" "0x100" "[0x300]" three] three_tree by simp

text \<open>
  The iteration macros terminate and call a body that leaves the tree alone once per node, in order for
  rb_for_each, in reverse for rb_for_each_prev, with the surrounding struct for rb_for_each_entry.
\<close>

theorem rb_for_each_in_order:
  assumes "rb_tree F xs s"
  shows "rb_for_each (\<lambda>x (s, d). Some (s, f x d)) (s, d) = Some (s, fold f xs d) \<and>
    rb_for_each_prev (\<lambda>x (s, d). Some (s, f x d)) (s, d) = Some (s, fold f (rev xs) d) \<and>
    rb_for_each_entry off (\<lambda>x (s, d). Some (s, f x d)) (s, d) = Some (s, fold f (map (\<lambda>x. rb_entry x off) xs) d)"
  by (intro conjI for_each_tree [OF assms])

theorem rb_for_each_in_order_witness:
  "rb_for_each (\<lambda>x (s, d). Some (s, d @ [x])) (three, []) = Some (three, [0x200, 0x100, 0x300]) \<and>
   rb_for_each_entry 8 (\<lambda>x (s, d). Some (s, d @ [x])) (three, []) = Some (three, [0x1F8, 0xF8, 0x2F8])"
  using rb_for_each_in_order [OF three_tree, of "\<lambda>x d. d @ [x]" "[]" 8] by (simp add: rb_entry_def)

text \<open>
  C6: rb_for_each_safe survives a body that erases the node it is given: every node is visited once, in
  order, and the tree is empty at the end.
\<close>

theorem rb_for_each_safe_erase:
  assumes "rb_tree F xs s"
  shows "\<exists>s'. rb_for_each_safe (\<lambda>x (s, d). map_option (\<lambda>s. (s, d @ [x])) (rb_erase x s)) (s, []) = Some (s', xs) \<and> RB_EMPTY_ROOT s'"
proof -
  obtain t where t: "holds F t s" "inord t = xs" using assms by (auto simp: rb_tree_def)
  then show ?thesis using safe_erase_loop [OF assms, of "[]"] ends_spec(1) [OF t(1)]
    by (auto simp: rb_for_each_safe_def empty_tree RB_EMPTY_ROOT_def)
qed

theorem rb_for_each_safe_erase_witness:
  "\<exists>s'. rb_for_each_safe (\<lambda>x (s, d). map_option (\<lambda>s. (s, d @ [x])) (rb_erase x s)) (three, []) = Some (s', [0x200, 0x100, 0x300]) \<and>
     RB_EMPTY_ROOT s'"
  using rb_for_each_safe_erase [OF three_tree] .

text \<open>
  C8: rb_augment_path calls the callback from the node up to the root, and in a tree of n nodes at most
  4 * log2 (n + 1) - 1 times: the height of a red-black tree is at most 2 * log2 (n + 1).
\<close>

theorem rb_augment_path_bound:
  assumes "rb_tree F xs s" and "a \<in> set xs"
  shows "\<exists>vs. (\<forall>f d. rb_augment_path a (\<lambda>_ x d. Some (f x d)) s (d :: 'd) = Some (fold f vs d)) \<and>
    hd vs = a \<and> last vs = rb_root s \<and> 2 * 2 ^ length vs \<le> (length xs + 1) ^ 4"
proof -
  obtain t where t: "holds F t s" "rbt t" "inord t = xs" using assms(1) by (auto simp: rb_tree_def)
  obtain ys zs where "inord t = ys @ a # zs" using assms(2) t(3) by (meson split_list)
  with t(1) obtain k l c r where k: "t = plug k (Nd l a c r)" "at F k (Nd l a c r) s" by (rule position)
  have "length k + 1 \<le> rheight t" using depth_height [of k "Nd l a c r"] k(1) by simp
  then have "Suc (length (visits k a)) \<le> 2 * rheight t" using visits_ends(3) [of k a] by simp
  then have "(2::nat) ^ Suc (length (visits k a)) \<le> 2 ^ (2 * rheight t)" by (intro power_increasing) simp_all
  also have "\<dots> = (2 ^ rheight t) ^ 2" by (simp add: mult.commute flip: power_mult)
  also have "\<dots> \<le> ((length xs + 1) ^ 2) ^ 2" using height_bound [OF t(2)] t(3) by (intro power_mono) simp_all
  finally have "2 * 2 ^ length (visits k a) \<le> (length xs + 1) ^ 4" by (simp flip: power_mult)
  then show ?thesis using visits_ends(2) visits_last [of k a l c r] at_root [OF k(2)]
    by (intro exI [of _ "visits k a"]) (simp add: augment_path [OF k(2)])
qed

theorem rb_augment_path_bound_witness:
  "\<exists>vs. rb_augment_path 0x300 (\<lambda>_ x d. Some (d @ [x])) three [] = Some vs \<and> length vs < 8"
proof -
  have "(0x300 :: addr) \<in> set [0x200, 0x100, 0x300]" by simp
  from rb_augment_path_bound [OF three_tree this] obtain vs where
    all: "\<forall>f d. rb_augment_path 0x300 (\<lambda>_ x d. Some (f x d)) three (d :: addr list) = Some (fold f vs d)" and
    len: "2 * 2 ^ length vs \<le> (length [0x200, 0x100, 0x300 :: addr] + 1) ^ 4" by blast
  have v: "rb_augment_path 0x300 (\<lambda>_ x d. Some (d @ [x])) three [] = Some (fold (\<lambda>x d. d @ [x]) vs [])" "2 * 2 ^ length vs \<le> (256 :: nat)"
    using all [rule_format, of "\<lambda>x d. d @ [x]" "[]"] len by (simp_all add: eval_nat_numeral)
  have "fold (\<lambda>x d. d @ [x]) vs e = e @ vs" for e by (induction vs arbitrary: e) auto
  moreover have "length vs < 8"
  proof (rule ccontr)
    assume "\<not> length vs < 8"
    then have "(2::nat) ^ 8 \<le> 2 ^ length vs" by (intro power_increasing) auto
    then show False using v(2) by simp
  qed
  ultimately show ?thesis using v(1) by auto
qed

text \<open>
  C5: Insertion of distinct keys into an empty tree, then iteration: whatever the order of the insertions, the
  nodes come out by descending key, each once.
\<close>

theorem rb_insert_all_sorts:
  fixes key :: "addr \<Rightarrow> 'k::linorder"
  assumes "RB_EMPTY_ROOT s" and "\<And>x. x \<in> set xs \<Longrightarrow> rb_usable x s" and "distinct xs" and "inj_on (\<lambda>x. key (rb_entry x off)) (set xs)"
  shows "\<exists>s'. steps (rb_insert key off cmp3) xs s = Some s' \<and>
    rb_for_each (\<lambda>x (s, d). Some (s, d @ [key (rb_entry x off)])) (s', []) =
      Some (s', rev (sorted_list_of_set ((\<lambda>x. key (rb_entry x off)) ` set xs)))"
proof -
  have "rb_index key off [] s" using assms(1) by (auto simp: rb_index_def empty_tree RB_EMPTY_ROOT_def descending_def)
  from rb.insert_all [OF this assms(2,3)] assms(4) obtain s' zs where
    s': "steps (rb_insert key off cmp3) xs s = Some s'" "rb_index key off zs s'" "set zs = set xs" by auto
  obtain F where "rb_tree F zs s'" using s'(2) by (auto simp: rb_index_def)
  note fe = for_each_tree(1) [OF this, of "\<lambda>x d. d @ [key (rb_entry x off)]" "[]"]
  have "fold (\<lambda>x d. d @ [key (rb_entry x off)]) zs e = e @ map (\<lambda>x. key (rb_entry x off)) zs" for e
    by (induction zs arbitrary: e) auto
  then show ?thesis using fe s'(1) rb.index_keys [OF s'(2,3)] by simp
qed

theorem rb_insert_all_sorts_witness:
  "\<exists>s'. steps (rb_insert unat 0 cmp3) [0x20, 0x10, 0x30] \<lparr>rb_nodes = (\<lambda>_. Some (mkn NULL Red NULL NULL)), rb_root = NULL\<rparr> = Some s' \<and>
     rb_for_each (\<lambda>x (s, d). Some (s, d @ [unat (rb_entry x 0)])) (s', []) = Some (s', [48, 32, 16])"
proof -
  let ?s = "\<lparr>rb_nodes = (\<lambda>_. Some (mkn NULL Red NULL NULL)), rb_root = NULL\<rparr>"
  have u: "rb_usable x ?s" if "x \<in> set [0x20, 0x10, 0x30]" for x using that by (auto simp: rb_usable_def aligned_def)
  show ?thesis using rb_insert_all_sorts [of ?s "[0x20, 0x10, 0x30]" unat 0] u by (simp add: RB_EMPTY_ROOT_def rb_entry_def)
qed

end
