(* ===== verification/Lheap.thy ===== *)
theory Lheap
  imports Libkern_Prelude
begin

text \<open>
  \<^verbatim>\<open>include/lheap.h\<close>: the intrusive leftist heap. The state is the heap of nodes and the pointer in
  \<^verbatim>\<open>struct lh_heap\<close>. \<open>key\<close> reads the key of the struct around a node and \<open>off\<close> is the offset of the node in it;
  the comparison is the user's. The null path length is an \<^verbatim>\<open>int\<close> that counts links of one path, so it is
  modelled without wrap-around. Loops over pointers are partial functions.
\<close>

section \<open>Nodes\<close>

record lh_node =
  lh_parent :: addr
  lh_left :: addr
  lh_right :: addr
  lh_npl :: int

record lh_heap =
  lh_nodes :: "lh_node heap"
  lh_node :: addr

definition lget :: "(lh_node \<Rightarrow> 'a) \<Rightarrow> addr \<Rightarrow> lh_heap \<Rightarrow> 'a option" where
  "lget f p s = getf f (lh_nodes s) p"

definition lmod :: "(lh_node \<Rightarrow> lh_node) \<Rightarrow> addr \<Rightarrow> lh_heap \<Rightarrow> lh_heap option" where
  "lmod u p s = map_option (\<lambda>h. s\<lparr>lh_nodes := h\<rparr>) (modf u p (lh_nodes s))"

definition lset_parent :: "addr \<Rightarrow> addr \<Rightarrow> lh_heap \<Rightarrow> lh_heap option" where
  "lset_parent p v = lmod (lh_parent_update (\<lambda>_. v)) p"

definition lset_left :: "addr \<Rightarrow> addr \<Rightarrow> lh_heap \<Rightarrow> lh_heap option" where
  "lset_left p v = lmod (lh_left_update (\<lambda>_. v)) p"

definition lset_right :: "addr \<Rightarrow> addr \<Rightarrow> lh_heap \<Rightarrow> lh_heap option" where
  "lset_right p v = lmod (lh_right_update (\<lambda>_. v)) p"

definition lset_npl :: "addr \<Rightarrow> int \<Rightarrow> lh_heap \<Rightarrow> lh_heap option" where
  "lset_npl p v = lmod (lh_npl_update (\<lambda>_. v)) p"

definition lh_heap_init :: "lh_heap \<Rightarrow> lh_heap" where
  "lh_heap_init s = s\<lparr>lh_node := NULL\<rparr>"

definition lh_heap_empty :: "lh_heap \<Rightarrow> bool" where
  "lh_heap_empty s \<longleftrightarrow> lh_node s = NULL"

definition lh_node_empty :: "addr \<Rightarrow> bool" where
  "lh_node_empty node \<longleftrightarrow> node = NULL"

definition lh_node_init :: "addr \<Rightarrow> lh_heap \<Rightarrow> lh_heap option" where
  "lh_node_init node s = do {
     s \<leftarrow> lset_parent node NULL s;
     s \<leftarrow> lset_right node NULL s;
     s \<leftarrow> lset_left node NULL s;
     lset_npl node 0 s }"

definition lh_entry :: "addr \<Rightarrow> u64 \<Rightarrow> addr" where
  "lh_entry ptr off = ptr - off"

section \<open>Merging\<close>

text \<open>\<^verbatim>\<open>lh_swap\<close> exchanges two pointer cells; here the two child cells of a node.\<close>

definition lh_swap_children :: "addr \<Rightarrow> lh_heap \<Rightarrow> lh_heap option" where
  "lh_swap_children p s = do {
     temp \<leftarrow> lget lh_left p s;
     r \<leftarrow> lget lh_right p s;
     s \<leftarrow> lset_left p r s;
     lset_right p temp s }"

text \<open>The first loop of \<^verbatim>\<open>lh_merge\<close>: down the right paths, swapping the smaller rest away.\<close>

partial_function (option) merge_down ::
  "(addr \<Rightarrow> 'k) \<Rightarrow> u64 \<Rightarrow> ('k \<Rightarrow> 'k \<Rightarrow> int) \<Rightarrow> addr \<Rightarrow> addr \<Rightarrow> lh_heap \<Rightarrow> (addr \<times> lh_heap) option" where
  "merge_down key off cmp merged mergee s =
     (if merged \<noteq> NULL \<and> mergee \<noteq> NULL then do {
        r \<leftarrow> lget lh_right merged s;
        if r = NULL \<or> cmp (key (lh_entry r off)) (key (lh_entry mergee off)) < 0 then do {
          s \<leftarrow> lset_right merged mergee s;
          let mergee = r;
          r \<leftarrow> lget lh_right merged s;
          s \<leftarrow> lset_parent r merged s;
          if mergee = NULL then Some (merged, s)
          else merge_down key off cmp r mergee s }
        else merge_down key off cmp r mergee s }
      else Some (merged, s))"

text \<open>One pass of the second loop: the leftist condition and the null path length of one node.\<close>

definition merge_fix :: "addr \<Rightarrow> lh_heap \<Rightarrow> lh_heap option" where
  "merge_fix merged s = do {
     l \<leftarrow> lget lh_left merged s;
     r \<leftarrow> lget lh_right merged s;
     b \<leftarrow> (if l = NULL then Some True
           else if r \<noteq> NULL then do { ln \<leftarrow> lget lh_npl l s; rn \<leftarrow> lget lh_npl r s; Some (ln < rn) }
           else Some False);
     s \<leftarrow> (if b then lh_swap_children merged s else Some s);
     r \<leftarrow> lget lh_right merged s;
     n \<leftarrow> (if r \<noteq> NULL then do { rn \<leftarrow> lget lh_npl r s; Some (rn + 1) } else Some 0);
     lset_npl merged n s }"

partial_function (option) merge_up :: "addr \<Rightarrow> lh_heap \<Rightarrow> (addr \<times> lh_heap) option" where
  "merge_up merged s =
     (if merged \<noteq> NULL then do {
        s \<leftarrow> merge_fix merged s;
        p \<leftarrow> lget lh_parent merged s;
        if p = NULL then Some (merged, s) else merge_up p s }
      else Some (merged, s))"

definition lh_merge ::
  "(addr \<Rightarrow> 'k) \<Rightarrow> u64 \<Rightarrow> ('k \<Rightarrow> 'k \<Rightarrow> int) \<Rightarrow> addr \<Rightarrow> addr \<Rightarrow> lh_heap \<Rightarrow> (addr \<times> lh_heap) option" where
  "lh_merge key off cmp heap1 heap2 s =
     (if heap1 = NULL then Some (heap2, s)
      else if heap2 \<noteq> NULL then do {
        let (merged, mergee) = (if cmp (key (lh_entry heap1 off)) (key (lh_entry heap2 off)) < 0
                                then (heap2, heap1) else (heap1, heap2));
        (merged, s) \<leftarrow> merge_down key off cmp merged mergee s;
        merge_up merged s }
      else Some (heap1, s))"

section \<open>Operations\<close>

definition lh_insert :: "(addr \<Rightarrow> 'k) \<Rightarrow> u64 \<Rightarrow> ('k \<Rightarrow> 'k \<Rightarrow> int) \<Rightarrow> addr \<Rightarrow> lh_heap \<Rightarrow> lh_heap option" where
  "lh_insert key off cmp item s = do {
     (m, s) \<leftarrow> lh_merge key off cmp (lh_node s) item s;
     Some (s\<lparr>lh_node := m\<rparr>) }"

definition lh_del_min :: "(addr \<Rightarrow> 'k) \<Rightarrow> u64 \<Rightarrow> ('k \<Rightarrow> 'k \<Rightarrow> int) \<Rightarrow> lh_heap \<Rightarrow> lh_heap option" where
  "lh_del_min key off cmp s = do {
     l \<leftarrow> lget lh_left (lh_node s) s;
     r \<leftarrow> lget lh_right (lh_node s) s;
     (m, s) \<leftarrow> lh_merge key off cmp l r s;
     Some (s\<lparr>lh_node := m\<rparr>) }"

definition lh_min :: "lh_heap \<Rightarrow> addr" where
  "lh_min s = lh_node s"

text \<open>The loop of \<^verbatim>\<open>lh_del\<close> that repairs the ancestors of the removed node.\<close>

partial_function (option) del_up :: "addr \<Rightarrow> lh_heap \<Rightarrow> lh_heap option" where
  "del_up parent s = do {
     p \<leftarrow> lget lh_parent parent s;
     if p \<noteq> NULL then do {
       r \<leftarrow> lget lh_right p s;
       b \<leftarrow> (if r \<noteq> NULL then do {
              rn \<leftarrow> lget lh_npl r s;
              l \<leftarrow> lget lh_left p s;
              ln \<leftarrow> lget lh_npl l s;
              Some (rn > ln) }
            else Some False);
       s \<leftarrow> (if b then lh_swap_children p s else Some s);
       r \<leftarrow> lget lh_right p s;
       n \<leftarrow> (if r \<noteq> NULL then do { rn \<leftarrow> lget lh_npl r s; Some (rn + 1) } else Some 0);
       s \<leftarrow> lset_npl p n s;
       del_up p s }
     else Some s }"

text \<open>The first half of \<^verbatim>\<open>lh_del\<close>: the children are merged into \<^verbatim>\<open>new\<close> and the node is cleared; the second half cuts the
  node from its parent, repairs the ancestors and merges \<^verbatim>\<open>new\<close> in.\<close>

definition del_detach :: "(addr \<Rightarrow> 'k) \<Rightarrow> u64 \<Rightarrow> ('k \<Rightarrow> 'k \<Rightarrow> int) \<Rightarrow> addr \<Rightarrow> lh_heap \<Rightarrow> (addr \<times> addr \<times> lh_heap) option" where
  "del_detach key off cmp item s = do {
     l \<leftarrow> lget lh_left item s;
     s \<leftarrow> (if l \<noteq> NULL then lset_parent l NULL s else Some s);
     r \<leftarrow> lget lh_right item s;
     s \<leftarrow> (if r \<noteq> NULL then lset_parent r NULL s else Some s);
     (new, s) \<leftarrow> lh_merge key off cmp l r s;
     s \<leftarrow> lset_right item NULL s;
     s \<leftarrow> lset_left item NULL s;
     parent \<leftarrow> lget lh_parent item s;
     s \<leftarrow> lset_parent item NULL s;
     Some (new, parent, s) }"

definition lh_del :: "(addr \<Rightarrow> 'k) \<Rightarrow> u64 \<Rightarrow> ('k \<Rightarrow> 'k \<Rightarrow> int) \<Rightarrow> addr \<Rightarrow> lh_heap \<Rightarrow> lh_heap option" where
  "lh_del key off cmp item s = do {
     (new, parent, s) \<leftarrow> del_detach key off cmp item s;
     if parent \<noteq> NULL then do {
       s \<leftarrow> lset_npl parent 0 s;
       pr \<leftarrow> lget lh_right parent s;
       s \<leftarrow> (if pr \<noteq> item then lset_left parent pr s else Some s);
       s \<leftarrow> lset_right parent NULL s;
       s \<leftarrow> del_up parent s;
       (m, s) \<leftarrow> lh_merge key off cmp (lh_node s) new s;
       Some (s\<lparr>lh_node := m\<rparr>) }
     else Some (s\<lparr>lh_node := new\<rparr>) }"

end
