(* ===== verification/Lheap_Zipper.thy ===== *)
theory Lheap_Zipper
  imports Lheap
begin

text \<open>
  Leftist trees in the heap of nodes. A tree is represented when every node holds its parent, its children
  and its null path length; a position is a subtree under a path of frames. Besides the tree at the
  position the state may hold a second, detached tree, the one that is being merged in.
\<close>

section \<open>Trees\<close>

datatype ltree = LT | LN ltree addr int ltree

fun lptr :: "ltree \<Rightarrow> addr" where
  "lptr LT = NULL"
| "lptr (LN l a n r) = a"

fun lnodes :: "ltree \<Rightarrow> addr list" where
  "lnodes LT = []"
| "lnodes (LN l a n r) = a # lnodes l @ lnodes r"

text \<open>The null path length plus one, zero for the empty tree.\<close>

fun rank :: "ltree \<Rightarrow> int" where
  "rank LT = 0"
| "rank (LN l a n r) = n + 1"

definition lcell :: "addr \<Rightarrow> addr \<Rightarrow> addr \<Rightarrow> int \<Rightarrow> lh_node" where
  "lcell p l r n = \<lparr>lh_parent = p, lh_left = l, lh_right = r, lh_npl = n\<rparr>"

lemma lcell_simps [simp]:
  "lh_parent (lcell p l r n) = p" "lh_left (lcell p l r n) = l" "lh_right (lcell p l r n) = r" "lh_npl (lcell p l r n) = n"
  "lh_parent_update (\<lambda>_. v) (lcell p l r n) = lcell v l r n" "lh_left_update (\<lambda>_. v) (lcell p l r n) = lcell p v r n"
  "lh_right_update (\<lambda>_. v) (lcell p l r n) = lcell p l v n" "lh_npl_update (\<lambda>_. m) (lcell p l r n) = lcell p l r m"
  by (simp_all add: lcell_def)

fun lrep :: "lh_node heap \<Rightarrow> addr \<Rightarrow> ltree \<Rightarrow> bool" where
  "lrep h par LT \<longleftrightarrow> True"
| "lrep h par (LN l a n r) \<longleftrightarrow> a \<noteq> NULL \<and> h a = Some (lcell par (lptr l) (lptr r) n) \<and> lrep h a l \<and> lrep h a r"

datatype lframe = HL addr int ltree | HR ltree addr int

fun laddr :: "lframe \<Rightarrow> addr" where
  "laddr (HL a n r) = a"
| "laddr (HR l a n) = a"

fun lfill :: "lframe \<Rightarrow> ltree \<Rightarrow> ltree" where
  "lfill (HL a n r) t = LN t a n r"
| "lfill (HR l a n) t = LN l a n t"

fun lplug :: "lframe list \<Rightarrow> ltree \<Rightarrow> ltree" where
  "lplug [] t = t"
| "lplug (f # k) t = lplug k (lfill f t)"

fun kptr :: "lframe list \<Rightarrow> addr" where
  "kptr [] = NULL"
| "kptr (f # k) = laddr f"

fun knodes :: "lframe list \<Rightarrow> addr list" where
  "knodes [] = []"
| "knodes (HL a n r # k) = a # lnodes r @ knodes k"
| "knodes (HR l a n # k) = a # lnodes l @ knodes k"

fun lcrep :: "lh_node heap \<Rightarrow> lframe list \<Rightarrow> addr \<Rightarrow> bool" where
  "lcrep h [] p \<longleftrightarrow> True"
| "lcrep h (HL a n r # k) p \<longleftrightarrow> a \<noteq> NULL \<and> h a = Some (lcell (kptr k) p (lptr r) n) \<and> lrep h a r \<and> lcrep h k a"
| "lcrep h (HR l a n # k) p \<longleftrightarrow> a \<noteq> NULL \<and> h a = Some (lcell (kptr k) (lptr l) p n) \<and> lrep h a l \<and> lcrep h k a"

text \<open>The tree \<open>t\<close> under the path \<open>k\<close>, the detached tree \<open>d\<close>, the heap's pointer \<open>R\<close>, the rest \<open>F\<close>.\<close>

definition lat :: "lh_node heap \<Rightarrow> addr \<Rightarrow> lframe list \<Rightarrow> ltree \<Rightarrow> ltree \<Rightarrow> lh_heap \<Rightarrow> bool" where
  "lat F R k t d s \<longleftrightarrow> lcrep (lh_nodes s) k (lptr t) \<and> lrep (lh_nodes s) (kptr k) t \<and> (\<exists>p. lrep (lh_nodes s) p d) \<and>
     distinct (knodes k @ lnodes t @ lnodes d) \<and> lh_node s = R \<and>
     (\<forall>x. x \<notin> set (knodes k @ lnodes t @ lnodes d) \<longrightarrow> lh_nodes s x = F x)"

lemma lat_frame: "lat F R (f # k) t d s = lat F R k (lfill f t) d s"
  by (cases f) (auto simp: lat_def)

lemma set_lplug: "set (lnodes (lplug k t)) = set (knodes k) \<union> set (lnodes t)"
proof (induction k arbitrary: t)
  case (Cons f k)
  then show ?case by (cases f) auto
qed simp

lemma lat_plug: "lat F R k t d s = lat F R [] (lplug k t) d s"
  by (induction k arbitrary: t) (simp_all add: lat_frame)

lemma lrep_upd [simp]: "a \<notin> set (lnodes t) \<Longrightarrow> lrep (h(a \<mapsto> c)) par t = lrep h par t"
  by (induction t arbitrary: par) auto

lemma lcrep_upd [simp]: "a \<notin> set (knodes k) \<Longrightarrow> lcrep (h(a \<mapsto> c)) k p = lcrep h k p"
  by (induction h k p rule: lcrep.induct) auto

lemma lptr_in: "t \<noteq> LT \<Longrightarrow> lptr t \<in> set (lnodes t)"
  by (cases t) auto

lemma lrep_null: "lrep h p t \<Longrightarrow> lptr t = NULL \<longleftrightarrow> t = LT"
  by (cases t) auto

lemma lget_cell: "a \<noteq> NULL \<Longrightarrow> lh_nodes s a = Some c \<Longrightarrow> lget f a s = Some (f c)"
  by (simp add: lget_def getf_def deref_def)

lemma lmod_cell:
  "a \<noteq> NULL \<Longrightarrow> lh_nodes s a = Some c \<Longrightarrow> lmod u a s = Some (s\<lparr>lh_nodes := (lh_nodes s)(a \<mapsto> u c)\<rparr>)"
  by (simp add: lmod_def modf_def deref_def)

lemmas lset_cell = lset_parent_def lset_left_def lset_right_def lset_npl_def lmod_cell

lemma lrep_npl: "lrep (lh_nodes s) p t \<Longrightarrow> t \<noteq> LT \<Longrightarrow> lget lh_npl (lptr t) s = Some (rank t - 1)"
  by (cases t) (auto simp: lget_cell)

lemma lat_node:
  assumes "lat F R k (LN l a n r) d s"
  shows "a \<noteq> NULL" and "lh_nodes s a = Some (lcell (kptr k) (lptr l) (lptr r) n)"
    and "lrep (lh_nodes s) a l" and "lrep (lh_nodes s) a r"
  using assms by (auto simp: lat_def)

lemma kptr_null: "lcrep h k p \<Longrightarrow> kptr k = NULL \<longleftrightarrow> k = []"
  by (cases k rule: knodes.cases) auto

lemma lat_kptr: "lat F R k t d s \<Longrightarrow> kptr k = NULL \<longleftrightarrow> k = []"
  using kptr_null by (auto simp: lat_def)

section \<open>One node\<close>

text \<open>The node rebuilt with the leftist condition, as the second loop of \<^verbatim>\<open>lh_merge\<close> leaves it.\<close>

definition mk :: "ltree \<Rightarrow> addr \<Rightarrow> ltree \<Rightarrow> ltree" where
  "mk l a r = (if l = LT \<or> r \<noteq> LT \<and> rank l < rank r then LN r a (rank l) l else LN l a (rank r) r)"

lemma mk_simps [simp]: "lptr (mk l a r) = a" "mk l a r \<noteq> LT" "set (lnodes (mk l a r)) = insert a (set (lnodes l) \<union> set (lnodes r))"
  by (auto simp: mk_def)

lemma lat_children:
  assumes "lat F R k (LN l a n r) d s" and "l' = l \<and> r' = r \<or> l' = r \<and> r' = l"
  shows "lat F R k (LN l' a m r') d (s\<lparr>lh_nodes := (lh_nodes s)(a \<mapsto> lcell (kptr k) (lptr l') (lptr r') m)\<rparr>)"
  using assms by (auto simp: lat_def)

lemma swap_cell:
  assumes "a \<noteq> NULL" and "lh_nodes s a = Some (lcell p l r n)"
  shows "lh_swap_children a s = Some (s\<lparr>lh_nodes := (lh_nodes s)(a \<mapsto> lcell p r l n)\<rparr>)"
  using assms by (simp add: lh_swap_children_def lset_cell lget_cell)

lemma rank_right:
  assumes "lrep (lh_nodes s) p r"
  shows "(if lptr r \<noteq> NULL then do { rn \<leftarrow> lget lh_npl (lptr r) s; Some (rn + 1) } else Some 0) = Some (rank r)"
  using lrep_null [OF assms] lrep_npl [OF assms] by (cases r) auto

lemma lat_fix:
  assumes at: "lat F R k (LN l a n r) d s"
  shows "\<exists>s'. merge_fix a s = Some s' \<and> lat F R k (mk l a r) d s'"
proof -
  note nd = lat_node [OF at]
  have a: "a \<notin> set (lnodes l)" "a \<notin> set (lnodes r)" using at by (auto simp: lat_def)
  define b where "b \<longleftrightarrow> l = LT \<or> r \<noteq> LT \<and> rank l < rank r"
  define l' r' where "l' = (if b then r else l)" and "r' = (if b then l else r)"
  define s1 where "s1 = s\<lparr>lh_nodes := (lh_nodes s)(a \<mapsto> lcell (kptr k) (lptr l') (lptr r') n)\<rparr>"
  have t: "(if lptr l = NULL then Some True
           else if lptr r \<noteq> NULL then do { ln \<leftarrow> lget lh_npl (lptr l) s; rn \<leftarrow> lget lh_npl (lptr r) s; Some (ln < rn) }
           else Some False) = Some b"
    using lrep_null [OF nd(3)] lrep_null [OF nd(4)] lrep_npl [OF nd(3)] lrep_npl [OF nd(4)] by (auto simp: b_def)
  have at1: "lat F R k (LN l' a n r') d s1" unfolding s1_def using at by (rule lat_children) (simp add: l'_def r'_def)
  have sw: "(if b then lh_swap_children a s else Some s) = Some s1"
    using swap_cell [OF nd(1,2)] nd(2) by (simp add: s1_def l'_def r'_def fun_upd_idem)
  note nd1 = lat_node [OF at1]
  define s2 where "s2 = s1\<lparr>lh_nodes := (lh_nodes s1)(a \<mapsto> lcell (kptr k) (lptr l') (lptr r') (rank r'))\<rparr>"
  have at2: "lat F R k (LN l' a (rank r') r') d s2" unfolding s2_def using at1 by (rule lat_children) simp
  have np: "lset_npl a (rank r') s1 = Some s2" using nd1 by (simp add: lset_cell s2_def)
  have reads: "lget lh_left a s = Some (lptr l)" "lget lh_right a s = Some (lptr r)" "lget lh_right a s1 = Some (lptr r')"
    using nd nd1 by (simp_all add: lget_cell)
  have "merge_fix a s = Some s2"
    by (simp only: merge_fix_def reads t sw rank_right [OF nd1(4)] np Option.bind.simps)
  moreover have "LN l' a (rank r') r' = mk l a r" by (simp add: mk_def b_def l'_def r'_def)
  ultimately show ?thesis using at2 by auto
qed

section \<open>Linking the detached tree\<close>

lemma lat_link:
  assumes at: "lat F R k (LN l a n r) d s" and "d \<noteq> LT"
  shows "\<exists>s1 s'. lset_right a (lptr d) s = Some s1 \<and> lget lh_right a s1 = Some (lptr d) \<and> lset_parent (lptr d) a s1 = Some s' \<and>
    lat F R k (LN l a n d) r s'"
proof -
  note nd = lat_node [OF at]
  obtain dl b m dr where d: "d = LN dl b m dr" using assms(2) by (cases d) auto
  have D: "distinct (knodes k @ lnodes (LN l a n r) @ lnodes d)"
    and o: "\<forall>x. x \<notin> set (knodes k @ lnodes (LN l a n r) @ lnodes d) \<longrightarrow> lh_nodes s x = F x"
    and R: "lh_node s = R" and c: "lcrep (lh_nodes s) k a" using at by (simp_all add: lat_def)
  obtain p where rp: "lrep (lh_nodes s) p d" using at by (auto simp: lat_def)
  define s1 where "s1 = s\<lparr>lh_nodes := (lh_nodes s)(a \<mapsto> lcell (kptr k) (lptr l) b n)\<rparr>"
  define s2 where "s2 = s1\<lparr>lh_nodes := (lh_nodes s1)(b \<mapsto> lcell a (lptr dl) (lptr dr) m)\<rparr>"
  have ab: "a \<noteq> b" "b \<noteq> NULL" "lh_nodes s1 b = Some (lcell p (lptr dl) (lptr dr) m)" using D d rp by (auto simp: s1_def)
  have "lset_right a b s = Some s1" "lget lh_right a s1 = Some b" using nd by (simp_all add: lset_cell lget_cell s1_def)
  moreover have "lset_parent b a s1 = Some s2" using ab by (simp add: lset_cell s2_def)
  moreover have "lat F R k (LN l a n d) r s2"
  proof -
    have "lcrep (lh_nodes s2) k a" using c D d by (simp add: s2_def s1_def)
    moreover have "lrep (lh_nodes s2) a l" "lrep (lh_nodes s2) a r" using nd(3,4) D d by (simp_all add: s2_def s1_def)
    moreover have "lrep (lh_nodes s2) a d" using rp D d by (simp add: s2_def s1_def)
    moreover have "lh_nodes s2 a = Some (lcell (kptr k) (lptr l) (lptr d) n)" using ab(1) d by (simp add: s2_def s1_def)
    moreover have "\<forall>x. x \<notin> set (knodes k @ lnodes (LN l a n d) @ lnodes r) \<longrightarrow> lh_nodes s2 x = F x"
      using o d by (auto simp: s2_def s1_def)
    moreover have "distinct (knodes k @ lnodes (LN l a n d) @ lnodes r)" using D by auto
    ultimately show ?thesis using nd(1) R by (auto simp: lat_def s2_def s1_def)
  qed
  ultimately show ?thesis using d by auto
qed

end
