(* ===== verification/Lheap_Merge.thy ===== *)
theory Lheap_Merge
  imports Lheap_Zipper
begin

text \<open>
  The merge of leftist heaps: the two pointer loops of \<^verbatim>\<open>lh_merge\<close> compute the recursive merge of trees,
  which keeps heap order and the leftist condition.
\<close>

section \<open>The merge of trees\<close>

fun lsize :: "ltree \<Rightarrow> nat" where
  "lsize LT = 0"
| "lsize (LN l a n r) = Suc (lsize l + lsize r)"

function meld :: "(addr \<Rightarrow> 'k::linorder) \<Rightarrow> ltree \<Rightarrow> ltree \<Rightarrow> ltree" where
  "meld key LT d = d"
| "meld key (LN l a n r) d = mk l a (if r = LT then d else if key (lptr r) < key (lptr d) then meld key d r else meld key r d)"
  by pat_completeness auto
termination by (relation "measure (\<lambda>(key, t, d). lsize t + lsize d)") auto

lemma meld_not_LT: "t \<noteq> LT \<Longrightarrow> meld key t d \<noteq> LT"
  by (cases t) auto

lemma meld_root: "t \<noteq> LT \<Longrightarrow> lptr (meld key t d) = lptr t"
  by (cases t) auto

lemma meld_nodes: "set (lnodes (meld key t d)) = set (lnodes t) \<union> set (lnodes d)"
  by (induction key t d rule: meld.induct) auto

fun heap_ordered :: "(addr \<Rightarrow> 'k::linorder) \<Rightarrow> ltree \<Rightarrow> bool" where
  "heap_ordered key LT \<longleftrightarrow> True"
| "heap_ordered key (LN l a n r) \<longleftrightarrow> heap_ordered key l \<and> heap_ordered key r \<and> (\<forall>x \<in> set (lnodes l) \<union> set (lnodes r). key x \<le> key a)"

fun leftist :: "ltree \<Rightarrow> bool" where
  "leftist LT \<longleftrightarrow> True"
| "leftist (LN l a n r) \<longleftrightarrow> leftist l \<and> leftist r \<and> n = rank r \<and> rank r \<le> rank l"

lemma rank_nonneg: "leftist t \<Longrightarrow> 0 \<le> rank t"
  by (induction t) auto

lemma rank_pos: "leftist t \<Longrightarrow> t \<noteq> LT \<Longrightarrow> 0 < rank t"
  using rank_nonneg by (cases t) force+

lemma leftist_mk: "leftist l \<Longrightarrow> leftist r \<Longrightarrow> leftist (mk l a r)"
  using rank_nonneg [of l] rank_nonneg [of r] by (cases r) (auto simp: mk_def)

lemma ordered_mk:
  "heap_ordered key l \<Longrightarrow> heap_ordered key r \<Longrightarrow> (\<And>x. x \<in> set (lnodes l) \<union> set (lnodes r) \<Longrightarrow> key x \<le> key a) \<Longrightarrow> heap_ordered key (mk l a r)"
  by (auto simp: mk_def)

lemma ordered_root: "heap_ordered key t \<Longrightarrow> x \<in> set (lnodes t) \<Longrightarrow> key x \<le> key (lptr t)"
  by (cases t) auto

lemma leftist_meld: "leftist t \<Longrightarrow> leftist d \<Longrightarrow> leftist (meld key t d)"
  by (induction key t d rule: meld.induct) (auto intro: leftist_mk)

lemma ordered_meld:
  "heap_ordered key t \<Longrightarrow> heap_ordered key d \<Longrightarrow> (d \<noteq> LT \<Longrightarrow> t \<noteq> LT \<Longrightarrow> key (lptr d) \<le> key (lptr t)) \<Longrightarrow> heap_ordered key (meld key t d)"
proof (induction key t d rule: meld.induct)
  case (2 key l a n r d)
  let ?m = "if r = LT then d else if key (lptr r) < key (lptr d) then meld key d r else meld key r d"
  have d: "key x \<le> key a" if "x \<in> set (lnodes d)" for x
    using ordered_root [OF 2(4) that] 2(5) that by (cases d) (auto intro: order_trans)
  have "heap_ordered key ?m" using 2 by auto
  moreover have "key x \<le> key a" if "x \<in> set (lnodes l) \<union> set (lnodes ?m)" for x
    using that d 2(3) by (auto simp: meld_nodes split: if_splits)
  ultimately show ?case using 2(3) by (simp only: meld.simps) (rule ordered_mk, auto)
qed simp

section \<open>The loops\<close>

definition climb :: "lframe list \<Rightarrow> ltree \<Rightarrow> lh_heap \<Rightarrow> (addr \<times> lh_heap) option" where
  "climb k t s = (if k = [] then Some (lptr t, s) else merge_up (kptr k) s)"

lemma up_step:
  assumes "lat F R k (LN l a n r) d s"
  shows "\<exists>s'. merge_up a s = climb k (mk l a r) s' \<and> lat F R k (mk l a r) d s'"
proof -
  obtain s' where s': "merge_fix a s = Some s'" "lat F R k (mk l a r) d s'" using lat_fix [OF assms] by blast
  obtain l' n' r' where m: "mk l a r = LN l' a n' r'" by (cases "mk l a r") (use mk_simps(1,2) [of l a r] in auto)
  have "lget lh_parent a s' = Some (kptr k)" using lat_node [of F R k l' a n' r' d s'] s'(2) m by (simp add: lget_cell)
  then have "merge_up a s = climb k (mk l a r) s'" using s'(1) lat_node(1) [OF assms] lat_kptr [OF s'(2)]
    by (subst merge_up.simps) (simp add: climb_def)
  then show ?thesis using s'(2) by blast
qed

lemma merge_loops:
  fixes key :: "addr \<Rightarrow> 'k::linorder"
  assumes cmp: "cmp_ok cmp" and at: "lat F R k t d s" and ne: "t \<noteq> LT" "d \<noteq> LT"
  shows "\<exists>s'. merge_down key off cmp (lptr t) (lptr d) s \<bind> (\<lambda>(m, s). merge_up m s) =
      climb k (meld (\<lambda>x. key (lh_entry x off)) t d) s' \<and>
    lat F R k (meld (\<lambda>x. key (lh_entry x off)) t d) LT s'"
  using at ne
proof (induction "lsize t + lsize d" arbitrary: k t d s rule: less_induct)
  case less
  let ?k = "\<lambda>x. key (lh_entry x off)"
  obtain l a n r where t: "t = LN l a n r" using less.prems(2) by (cases t) auto
  have at: "lat F R k (LN l a n r) d s" using less.prems(1) t by simp
  note nd = lat_node [OF at]
  have dn: "lptr d \<noteq> NULL" using at less.prems(3) lrep_null by (auto simp: lat_def)
  have rn: "lptr r = NULL \<longleftrightarrow> r = LT" using nd(4) by (rule lrep_null)
  have rd: "lget lh_right a s = Some (lptr r)" using nd by (simp add: lget_cell)
  have c: "cmp (key (lh_entry (lptr r) off)) (key (lh_entry (lptr d) off)) < 0 \<longleftrightarrow> ?k (lptr r) < ?k (lptr d)"
    using cmp by (simp add: cmp_cases)
  note step = merge_down.simps [of key off cmp a "lptr d" s]
  obtain s1 s2 where lk: "lset_right a (lptr d) s = Some s1" "lget lh_right a s1 = Some (lptr d)" "lset_parent (lptr d) a s1 = Some s2"
      "lat F R k (LN l a n d) r s2" using lat_link [OF at less.prems(3)] by blast
  have up: "\<exists>s'. merge_down key off cmp a (lptr d) s \<bind> (\<lambda>(m, s). merge_up m s) = climb k (mk l a T) s' \<and> lat F R k (mk l a T) LT s'"
    if u: "merge_down key off cmp a (lptr d) s = merge_down key off cmp (lptr u) (lptr v) s3" "lat F R (HR l a n # k) u v s3"
      "T = meld ?k u v" "u \<noteq> LT" "v \<noteq> LT" "lsize u + lsize v < lsize t + lsize d" for u v s3 T
  proof -
    obtain s4 where s4: "merge_down key off cmp (lptr u) (lptr v) s3 \<bind> (\<lambda>(m, s). merge_up m s) = climb (HR l a n # k) T s4"
        "lat F R (HR l a n # k) T LT s4" using less.hyps [OF u(6,2,4,5)] u(3) by blast
    show ?thesis using up_step [of F R k l a n T LT s4] s4 u(1) by (simp add: lat_frame climb_def)
  qed
  consider "r = LT" | "r \<noteq> LT" "?k (lptr r) < ?k (lptr d)" | "r \<noteq> LT" "\<not> ?k (lptr r) < ?k (lptr d)" by blast
  then show ?case
  proof cases
    case 1
    then have "merge_down key off cmp a (lptr d) s = Some (a, s2)" using step nd(1) dn rd lk by (simp add: Let_def)
    then show ?thesis using up_step [OF lk(4)] 1 t by simp
  next
    case 2
    then have "merge_down key off cmp a (lptr d) s = merge_down key off cmp (lptr d) (lptr r) s2"
      using step nd(1) dn rd rn lk c by (simp add: Let_def)
    from up [OF this] show ?thesis using lk(4) 2 t less.prems(3) by (simp add: lat_frame)
  next
    case 3
    then have "merge_down key off cmp a (lptr d) s = merge_down key off cmp (lptr r) (lptr d) s"
      using step nd(1) dn rd rn c by (simp add: Let_def)
    from up [OF this] show ?thesis using at 3 t less.prems(3) by (simp add: lat_frame)
  qed
qed

section \<open>The macro\<close>

lemma lat_swap:
  assumes "lat F R [] t d s" and "lrep (lh_nodes s) NULL d"
  shows "lat F R [] d t s"
  using assms unfolding lat_def by (auto simp: ac_simps)

lemma merge_spec:
  fixes key :: "addr \<Rightarrow> 'k::linorder"
  assumes cmp: "cmp_ok cmp" and at: "lat F R [] t d s" and d: "lrep (lh_nodes s) NULL d"
  shows "\<exists>s' T. lh_merge key off cmp (lptr t) (lptr d) s = Some (lptr T, s') \<and> lat F R [] T LT s' \<and>
    set (lnodes T) = set (lnodes t) \<union> set (lnodes d) \<and> (leftist t \<and> leftist d \<longrightarrow> leftist T) \<and>
    (heap_ordered (\<lambda>x. key (lh_entry x off)) t \<and> heap_ordered (\<lambda>x. key (lh_entry x off)) d \<longrightarrow> heap_ordered (\<lambda>x. key (lh_entry x off)) T)"
proof -
  let ?k = "\<lambda>x. key (lh_entry x off)"
  have n: "lptr t = NULL \<longleftrightarrow> t = LT" "lptr d = NULL \<longleftrightarrow> d = LT" using at d lrep_null unfolding lat_def by blast+
  consider "t = LT" | "t \<noteq> LT" "d = LT" | "t \<noteq> LT" "d \<noteq> LT" by blast
  then show ?thesis
  proof cases
    case 1
    then show ?thesis using lat_swap [OF at d] by (intro exI [of _ s] exI [of _ d]) (simp add: lh_merge_def)
  next
    case 2
    then show ?thesis using at n by (intro exI [of _ s] exI [of _ t]) (simp add: lh_merge_def)
  next
    case 3
    define a b where "a = (if ?k (lptr t) < ?k (lptr d) then d else t)" and "b = (if ?k (lptr t) < ?k (lptr d) then t else d)"
    have ab: "lat F R [] a b s" "a \<noteq> LT" "b \<noteq> LT" using at lat_swap [OF at d] 3 by (simp_all add: a_def b_def)
    obtain s' where s': "merge_down key off cmp (lptr a) (lptr b) s \<bind> (\<lambda>(m, s). merge_up m s) = Some (lptr (meld ?k a b), s')"
        "lat F R [] (meld ?k a b) LT s'" using merge_loops [OF cmp ab, of key off] by (auto simp: climb_def)
    have "lh_merge key off cmp (lptr t) (lptr d) s = Some (lptr (meld ?k a b), s')"
      using s'(1) 3 n cmp_cases(1) [OF cmp] by (cases "?k (lptr t) < ?k (lptr d)") (simp_all add: lh_merge_def a_def b_def)
    moreover have "?k (lptr b) \<le> ?k (lptr a)" by (auto simp: a_def b_def)
    ultimately show ?thesis using s'(2) ordered_meld [of ?k a b] leftist_meld [of a b ?k]
      by (intro exI [of _ s'] exI [of _ "meld ?k a b"]) (auto simp: meld_nodes a_def b_def)
  qed
qed

section \<open>Repairing ancestors\<close>

fun refill :: "lframe list \<Rightarrow> ltree \<Rightarrow> ltree" where
  "refill [] t = t"
| "refill (HL a n r # k) t = refill k (mk t a r)"
| "refill (HR l a n # k) t = refill k (mk l a t)"

fun left_siblings :: "lframe list \<Rightarrow> bool" where
  "left_siblings [] \<longleftrightarrow> True"
| "left_siblings (HL a n r # k) \<longleftrightarrow> left_siblings k"
| "left_siblings (HR l a n # k) \<longleftrightarrow> l \<noteq> LT \<and> left_siblings k"

lemma refill_nodes: "set (lnodes (refill k t)) = set (knodes k) \<union> set (lnodes t)"
  by (induction k t rule: refill.induct) auto

lemma refill_root: "lptr t = lptr u \<Longrightarrow> lptr (refill k t) = lptr (lplug k u)"
proof (induction k t arbitrary: u rule: refill.induct)
  case (2 a n r k t)
  then show ?case using 2(1) [of "LN u a n r"] by simp
next
  case (3 l a n k t)
  then show ?case using 3(1) [of "LN l a n u"] by simp
qed simp

lemma plug_leftist:
  "leftist (lplug k t) \<Longrightarrow> leftist t"
proof (induction k arbitrary: t)
  case (Cons f k)
  then show ?case by (cases f) force+
qed simp

lemma refill_leftist: "leftist (lplug k t) \<Longrightarrow> leftist u \<Longrightarrow> leftist (refill k u)"
proof (induction k arbitrary: t u)
  case (Cons f k)
  then have "leftist (lfill f t)" using plug_leftist by simp
  then show ?case using Cons by (cases f) (auto intro!: leftist_mk)
qed simp

lemma plug_ordered:
  "heap_ordered key (lplug k t) \<Longrightarrow> heap_ordered key t"
proof (induction k arbitrary: t)
  case (Cons f k)
  then show ?case by (cases f) force+
qed simp

lemma refill_ordered:
  "heap_ordered key (lplug k t) \<Longrightarrow> heap_ordered key u \<Longrightarrow> set (lnodes u) \<subseteq> set (lnodes t) \<Longrightarrow> heap_ordered key (refill k u)"
proof (induction k arbitrary: t u)
  case (Cons f k)
  then have o: "heap_ordered key (lfill f t)" using plug_ordered by simp
  show ?case
  proof (cases f)
    case (HL a n r)
    have "heap_ordered key (mk u a r)" using o HL Cons.prems(2,3) by (intro ordered_mk) auto
    then show ?thesis using Cons.IH [of "lfill f t" "mk u a r"] Cons.prems HL by auto
  next
    case (HR l a n)
    have "heap_ordered key (mk l a u)" using o HR Cons.prems(2,3) by (intro ordered_mk) auto
    then show ?thesis using Cons.IH [of "lfill f t" "mk l a u"] Cons.prems HR by auto
  qed
qed simp

lemma leftist_siblings: "leftist (lplug k t) \<Longrightarrow> t \<noteq> LT \<Longrightarrow> left_siblings k"
proof (induction k arbitrary: t)
  case (Cons f k)
  have "leftist (lfill f t)" using plug_leftist Cons.prems(1) by simp
  moreover have "lfill f t \<noteq> LT" by (cases f) simp_all
  ultimately show ?case using Cons.IH [of "lfill f t"] Cons.prems rank_pos [of t] by (cases f) auto
qed simp

lemma del_step:
  assumes at: "lat F R k (LN l a n r) d s" and l: "l \<noteq> LT" and p: "lget lh_parent c s = Some a"
  shows "\<exists>s'. del_up c s = del_up a s' \<and> lat F R k (mk l a r) d s'"
proof -
  note nd = lat_node [OF at]
  obtain s' where s': "merge_fix a s = Some s'" "lat F R k (mk l a r) d s'" using lat_fix [OF at] by blast
  have reads: "lget lh_left a s = Some (lptr l)" "lget lh_right a s = Some (lptr r)" using nd by (simp_all add: lget_cell)
  have n: "lptr l \<noteq> NULL" "lptr r = NULL \<longleftrightarrow> r = LT" "lget lh_npl (lptr l) s = Some (rank l - 1)" "r \<noteq> LT \<Longrightarrow> lget lh_npl (lptr r) s = Some (rank r - 1)"
    using lrep_null [OF nd(3)] lrep_null [OF nd(4)] lrep_npl [OF nd(3)] lrep_npl [OF nd(4)] l by auto
  have "merge_fix a s \<bind> del_up a = del_up c s"
    unfolding del_up.simps [of c s] using reads n p nd(1) by (cases "r = LT") (simp_all add: merge_fix_def)
  then have "del_up c s = del_up a s'" using s'(1) by simp
  then show ?thesis using s'(2) by blast
qed

lemma del_up_spec:
  assumes "lat F R k t d s" and "t \<noteq> LT" and "left_siblings k"
  shows "\<exists>s'. del_up (lptr t) s = Some s' \<and> lat F R [] (refill k t) d s'"
  using assms
proof (induction k arbitrary: t s)
  case Nil
  then obtain l a n r where t: "t = LN l a n r" by (cases t) auto
  then have "lget lh_parent a s = Some NULL" using lat_node [of F R "[]" l a n r d s] Nil by (simp add: lget_cell)
  then show ?case using Nil t by (subst del_up.simps) simp
next
  case (Cons f k)
  obtain tl c m tr where t: "t = LN tl c m tr" using Cons.prems(2) by (cases t) auto
  have p: "lget lh_parent c s = Some (laddr f)" using lat_node [of F R "f # k" tl c m tr d s] Cons.prems t by (simp add: lget_cell)
  obtain l n r where f: "lfill f t = LN l (laddr f) n r" "l \<noteq> LT" "refill (f # k) t = refill k (mk l (laddr f) r)"
    using Cons.prems by (cases f) auto
  have "lat F R k (LN l (laddr f) n r) d s" using Cons.prems(1) f(1) by (simp add: lat_frame)
  then obtain s1 where s1: "del_up c s = del_up (laddr f) s1" "lat F R k (mk l (laddr f) r) d s1" using del_step f(2) p by blast
  moreover have "left_siblings k" using Cons.prems(3) by (cases f) auto
  ultimately show ?case using Cons.IH [of "mk l (laddr f) r" s1] t f(3) by auto
qed

end
