(* ===== verification/Lheap_Del.thy ===== *)
theory Lheap_Del
  imports Lheap_Merge
begin

text \<open>
  Insertion into and removal from a leftist heap that the state holds: \<^verbatim>\<open>lh_insert\<close> and \<^verbatim>\<open>lh_del\<close> in terms of the
  set of nodes.
\<close>

section \<open>The heap in a state\<close>

text \<open>
  \<open>lh_ok key off F A s\<close>: the pointer of \<open>s\<close> leads to a leftist tree in heap order (no key above its parent's) with
  the nodes \<open>A\<close>, whose root has no parent; outside the tree the heap agrees with \<open>F\<close>.
\<close>

definition lh_ok :: "(addr \<Rightarrow> 'k::linorder) \<Rightarrow> u64 \<Rightarrow> lh_node heap \<Rightarrow> addr set \<Rightarrow> lh_heap \<Rightarrow> bool" where
  "lh_ok key off F A s \<longleftrightarrow>
     (\<exists>t. lat F (lptr t) [] t LT s \<and> heap_ordered (\<lambda>x. key (lh_entry x off)) t \<and> leftist t \<and> set (lnodes t) = A)"

definition lh_fresh :: "addr \<Rightarrow> lh_heap \<Rightarrow> bool" where
  "lh_fresh x s \<longleftrightarrow> x \<noteq> NULL \<and> lh_nodes s x = Some (lcell NULL NULL NULL 0)"

lemma lat_root: "lat F R [] t LT s \<Longrightarrow> lat F (lptr t) [] t LT (s\<lparr>lh_node := lptr t\<rparr>)"
  by (auto simp: lat_def)

lemma insert_ok:
  fixes key :: "addr \<Rightarrow> 'k::linorder"
  assumes "cmp_ok cmp" and "lh_ok key off F A s" and x: "lh_fresh x s" "x \<notin> A"
  shows "\<exists>s'. lh_insert key off cmp x s = Some s' \<and> lh_ok key off F (insert x A) s'"
proof -
  obtain t where t: "lat F (lptr t) [] t LT s" "heap_ordered (\<lambda>x. key (lh_entry x off)) t" "leftist t" "set (lnodes t) = A"
    using assms(2) by (auto simp: lh_ok_def)
  have c: "lrep (lh_nodes s) NULL (LN LT x 0 LT)" using x(1) by (simp add: lh_fresh_def)
  have "lat F (lptr t) [] t (LN LT x 0 LT) s" using t(1,4) c x(2) unfolding lat_def by auto
  from merge_spec [OF assms(1) this c, of key off] obtain s' T where
    T: "lh_merge key off cmp (lptr t) x s = Some (lptr T, s')" "lat F (lptr t) [] T LT s'" "set (lnodes T) = insert x A" "leftist T"
      "heap_ordered (\<lambda>x. key (lh_entry x off)) T" using t by auto
  have "lh_node s = lptr t" using t(1) by (simp add: lat_def)
  then have "lh_insert key off cmp x s = Some (s'\<lparr>lh_node := lptr T\<rparr>)" using T(1) by (simp add: lh_insert_def)
  then show ?thesis using lat_root [OF T(2)] T(3-5) unfolding lh_ok_def by blast
qed

section \<open>Taking a node out\<close>

lemma lrep_cong: "lrep h p t \<Longrightarrow> (\<And>x. x \<in> set (lnodes t) \<Longrightarrow> h' x = h x) \<Longrightarrow> lrep h' p t"
  by (induction t arbitrary: p) auto

lemma lcrep_cong: "lcrep h k p \<Longrightarrow> (\<And>x. x \<in> set (knodes k) \<Longrightarrow> h' x = h x) \<Longrightarrow> lcrep h' k p"
proof (induction h k p rule: lcrep.induct)
  case (2 h a n r k p)
  then show ?case using lrep_cong [of h a r h'] by auto
next
  case (3 h l a n k p)
  then show ?case using lrep_cong [of h a l h'] by auto
qed auto

lemma clear_parent:
  assumes "lrep (lh_nodes s) p t" and "distinct (lnodes t)"
  shows "\<exists>s'. (if lptr t \<noteq> NULL then lset_parent (lptr t) NULL s else Some s) = Some s' \<and> lrep (lh_nodes s') NULL t \<and>
    (\<forall>y. y \<notin> set (lnodes t) \<longrightarrow> lh_nodes s' y = lh_nodes s y) \<and> lh_node s' = lh_node s"
proof (cases t)
  case (LN l a n r)
  then show ?thesis using assms by (simp add: lset_cell)
qed simp

fun sib :: "lframe \<Rightarrow> ltree" where
  "sib (HL a n r) = r"
| "sib (HR l a n) = l"

lemma knodes_sib: "knodes (f # k) = laddr f # lnodes (sib f) @ knodes k"
  by (cases f) auto

lemma cut_parent:
  assumes c: "lcrep (lh_nodes s) (f # k) x" and x: "x \<noteq> NULL" "x \<notin> set (knodes (f # k))" and d: "distinct (knodes (f # k))"
  shows "\<exists>s1 s2 s3 pr. lset_npl (laddr f) 0 s = Some s1 \<and> lget lh_right (laddr f) s1 = Some pr \<and>
    (if pr \<noteq> x then lset_left (laddr f) pr s1 else Some s1) = Some s2 \<and> lset_right (laddr f) NULL s2 = Some s3 \<and>
    lat (lh_nodes s3) (lh_node s) k (LN (sib f) (laddr f) 0 LT) LT s3 \<and> (\<forall>y. y \<noteq> laddr f \<longrightarrow> lh_nodes s3 y = lh_nodes s y)"
proof (cases f)
  case (HL p m u)
  have p: "p \<noteq> NULL" "lh_nodes s p = Some (lcell (kptr k) x (lptr u) m)" "lrep (lh_nodes s) p u" "lcrep (lh_nodes s) k p"
    using c HL by auto
  have "lptr u \<noteq> x" using x HL lptr_in [of u] by (cases "u = LT") auto
  then show ?thesis using p HL d by (simp add: lset_cell lget_cell lat_def Int_commute)
next
  case (HR u p m)
  have p: "p \<noteq> NULL" "lh_nodes s p = Some (lcell (kptr k) (lptr u) x m)" "lrep (lh_nodes s) p u" "lcrep (lh_nodes s) k p"
    using c HR by auto
  then show ?thesis using HR d by (simp add: lset_cell lget_cell lat_def Int_commute)
qed

lemma del_detach:
  fixes key :: "addr \<Rightarrow> 'k::linorder"
  assumes cmp: "cmp_ok cmp" and at: "lat F R k (LN l x n r) LT s"
    and t: "leftist l" "leftist r" "heap_ordered (\<lambda>x. key (lh_entry x off)) l" "heap_ordered (\<lambda>x. key (lh_entry x off)) r"
  shows "\<exists>s' T. del_detach key off cmp x s = Some (lptr T, kptr k, s') \<and> lrep (lh_nodes s') NULL T \<and> distinct (lnodes T) \<and>
    set (lnodes T) = set (lnodes l) \<union> set (lnodes r) \<and> leftist T \<and> heap_ordered (\<lambda>x. key (lh_entry x off)) T \<and>
    lh_node s' = R \<and> lh_nodes s' x = Some (lcell NULL NULL NULL n) \<and>
    (\<forall>y. y \<notin> set (lnodes (LN l x n r)) \<longrightarrow> lh_nodes s' y = lh_nodes s y)"
proof -
  note nd = lat_node [OF at]
  have D: "distinct (lnodes (LN l x n r))" and R: "lh_node s = R" using at by (simp_all add: lat_def)
  obtain s1 where s1: "(if lptr l \<noteq> NULL then lset_parent (lptr l) NULL s else Some s) = Some s1" "lrep (lh_nodes s1) NULL l"
      "\<forall>y. y \<notin> set (lnodes l) \<longrightarrow> lh_nodes s1 y = lh_nodes s y" "lh_node s1 = R"
    using clear_parent [OF nd(3)] D R by auto
  have x1: "lh_nodes s1 x = Some (lcell (kptr k) (lptr l) (lptr r) n)" using s1(3) nd(2) D by simp
  have "lrep (lh_nodes s1) x r" using nd(4) by (rule lrep_cong) (use s1(3) D in auto)
  then obtain s2 where s2: "(if lptr r \<noteq> NULL then lset_parent (lptr r) NULL s1 else Some s1) = Some s2" "lrep (lh_nodes s2) NULL r"
      "\<forall>y. y \<notin> set (lnodes r) \<longrightarrow> lh_nodes s2 y = lh_nodes s1 y" "lh_node s2 = R"
    using clear_parent [of s1 x r] D s1(4) by auto
  have x2: "lh_nodes s2 x = Some (lcell (kptr k) (lptr l) (lptr r) n)" using s2(3) x1 D by simp
  have "lrep (lh_nodes s2) NULL l" using s1(2) by (rule lrep_cong) (use s2(3) D in auto)
  then have "lat (lh_nodes s2) R [] l r s2" using s2(2,4) D by (auto simp: lat_def)
  from merge_spec [OF cmp this s2(2), of key off] t obtain s3 T where
    T: "lh_merge key off cmp (lptr l) (lptr r) s2 = Some (lptr T, s3)" "lat (lh_nodes s2) R [] T LT s3"
      "set (lnodes T) = set (lnodes l) \<union> set (lnodes r)" "leftist T" "heap_ordered (\<lambda>x. key (lh_entry x off)) T" by auto
  have out: "lh_nodes s3 y = lh_nodes s2 y" if "y \<notin> set (lnodes T)" for y using T(2) that by (simp add: lat_def)
  have xT: "x \<notin> set (lnodes T)" using D T(3) by simp
  have x3: "lh_nodes s3 x = Some (lcell (kptr k) (lptr l) (lptr r) n)" using out [OF xT] x2 by simp
  define s4 where "s4 = s3\<lparr>lh_nodes := (lh_nodes s3)(x \<mapsto> lcell NULL NULL NULL n)\<rparr>"
  have reads: "lget lh_left x s = Some (lptr l)" "lget lh_right x s1 = Some (lptr r)" using nd x1 by (simp_all add: lget_cell)
  have cl: "do {
     s \<leftarrow> lset_right x NULL s3;
     s \<leftarrow> lset_left x NULL s;
     parent \<leftarrow> lget lh_parent x s;
     s \<leftarrow> lset_parent x NULL s;
     Some (lptr T, parent, s) } = Some (lptr T, kptr k, s4)" using x3 nd(1) by (simp add: lset_cell lget_cell s4_def)
  have "del_detach key off cmp x s = Some (lptr T, kptr k, s4)"
    by (simp only: del_detach_def reads s1(1) s2(1) T(1) cl Option.bind.simps prod.case)
  moreover have "lrep (lh_nodes s4) NULL T" "distinct (lnodes T)" "lh_node s4 = R" using T(2) xT by (simp_all add: lat_def s4_def)
  moreover have "lh_nodes s4 y = lh_nodes s y" if "y \<notin> set (lnodes (LN l x n r))" for y
    using that out [of y] s2(3) s1(3) T(3) by (simp add: s4_def)
  moreover have "lh_nodes s4 x = Some (lcell NULL NULL NULL n)" by (simp add: s4_def)
  ultimately show ?thesis using T(3-5) by (intro exI [of _ s4] exI [of _ T]) blast
qed

lemma del_at:
  fixes key :: "addr \<Rightarrow> 'k::linorder" and off :: u64
  defines "ky \<equiv> \<lambda>x. key (lh_entry x off)"
  assumes cmp: "cmp_ok cmp" and at: "lat F R k (LN l x n r) LT s" and R: "R = lptr (lplug k (LN l x n r))"
    and lf: "leftist (lplug k (LN l x n r))" and ho: "heap_ordered ky (lplug k (LN l x n r))"
  shows "\<exists>s' t'. lh_del key off cmp x s = Some s' \<and> lat (F(x \<mapsto> lcell NULL NULL NULL n)) (lptr t') [] t' LT s' \<and> heap_ordered ky t' \<and>
    leftist t' \<and> set (lnodes t') = set (knodes k) \<union> set (lnodes l) \<union> set (lnodes r)"
proof -
  have sub: "leftist l" "leftist r" "heap_ordered ky l" "heap_ordered ky r" using plug_leftist [OF lf] plug_ordered [OF ho] by auto
  have D: "distinct (knodes k @ lnodes (LN l x n r))" and o: "\<And>y. y \<notin> set (knodes k @ lnodes (LN l x n r)) \<Longrightarrow> lh_nodes s y = F y"
    and c: "lcrep (lh_nodes s) k x" and x0: "x \<noteq> NULL" using at by (simp_all add: lat_def)
  obtain s1 T where s1: "del_detach key off cmp x s = Some (lptr T, kptr k, s1)" "lrep (lh_nodes s1) NULL T" "distinct (lnodes T)"
      "set (lnodes T) = set (lnodes l) \<union> set (lnodes r)" "leftist T" "heap_ordered ky T" "lh_node s1 = R"
      "lh_nodes s1 x = Some (lcell NULL NULL NULL n)" "\<forall>y. y \<notin> set (lnodes (LN l x n r)) \<longrightarrow> lh_nodes s1 y = lh_nodes s y"
    using del_detach [OF cmp at, of key off] sub unfolding ky_def by blast
  let ?F = "F(x \<mapsto> lcell NULL NULL NULL n)"
  have F1: "lh_nodes s1 y = ?F y" if "y \<notin> set (knodes k) \<union> set (lnodes T)" for y
    using that s1(4,8) o [of y] spec [OF s1(9), of y] by (cases "y = x") simp_all
  have dk: "set (knodes k) \<inter> set (lnodes (LN l x n r)) = {}" using D by (simp only: distinct_append)
  have ck: "lcrep (lh_nodes s1) k x" using c by (rule lcrep_cong) (use s1(9) dk in blast)
  show ?thesis
  proof (cases k)
    case Nil
    have "lat ?F (lptr T) [] T LT (s1\<lparr>lh_node := lptr T\<rparr>)" using s1(2,3) F1 Nil by (simp add: lat_def)
    moreover have "lh_del key off cmp x s = Some (s1\<lparr>lh_node := lptr T\<rparr>)" using s1(1) Nil by (simp add: lh_del_def)
    ultimately show ?thesis using s1 Nil by auto
  next
    case (Cons f j)
    have c1: "lcrep (lh_nodes s1) (f # j) x" using ck Cons by simp
    have Df: "distinct (knodes (f # j))" "x \<notin> set (knodes (f # j))" using D Cons by auto
    let ?t = "LN (sib f) (laddr f) 0 LT"
    obtain s2 s3 s4 pr where s4: "lset_npl (laddr f) 0 s1 = Some s2" "lget lh_right (laddr f) s2 = Some pr"
        "(if pr \<noteq> x then lset_left (laddr f) pr s2 else Some s2) = Some s3" "lset_right (laddr f) NULL s3 = Some s4"
        "lat (lh_nodes s4) R j ?t LT s4" "\<forall>y. y \<noteq> laddr f \<longrightarrow> lh_nodes s4 y = lh_nodes s1 y"
      using cut_parent [OF c1 x0 Df(2,1)] s1(7) by blast
    have lfj: "leftist (lplug j (lfill f (LN l x n r)))" and hoj: "heap_ordered ky (lplug j (lfill f (LN l x n r)))" using lf ho Cons by simp_all
    have "leftist (lfill f (LN l x n r))" "heap_ordered ky (lfill f (LN l x n r))" using plug_leftist [OF lfj] plug_ordered [OF hoj] .
    then have tt: "leftist ?t" "heap_ordered ky ?t" "set (lnodes ?t) \<subseteq> set (lnodes (lfill f (LN l x n r)))" "lptr ?t = lptr (lfill f (LN l x n r))"
      using rank_nonneg by (cases f; auto)+
    have "left_siblings j" using leftist_siblings [OF lfj] by (cases f) auto
    then obtain s5 where s5: "del_up (laddr f) s4 = Some s5" "lat (lh_nodes s4) R [] (refill j ?t) LT s5"
      using del_up_spec [OF s4(5)] by auto
    define U where "U = refill j ?t"
    have U: "leftist U" "heap_ordered ky U" "set (lnodes U) = set (knodes k)" "lptr U = R"
      using refill_leftist [OF lfj tt(1)] refill_ordered [OF hoj tt(2,3)] refill_root [OF tt(4), of j] R Cons
      by (auto simp: U_def refill_nodes knodes_sib)
    have n5: "lh_nodes s5 y = lh_nodes s1 y" if "y \<notin> set (knodes k)" for y
    proof -
      have "lh_nodes s5 y = lh_nodes s4 y" using s5(2) that U(3) unfolding U_def lat_def by simp
      then show ?thesis using s4(6) that Cons by (auto simp: knodes_sib)
    qed
    have dj: "set (knodes k) \<inter> set (lnodes T) = {}" using dk s1(4) by auto
    have T5: "lrep (lh_nodes s5) NULL T" using s1(2) by (rule lrep_cong) (use n5 dj in auto)
    have "lat ?F R [] U T s5" using s5(2) T5 s1(3) dj U(3) n5 F1 unfolding U_def [symmetric] lat_def by auto
    from merge_spec [OF cmp this T5, of key off] U s1(4-6) obtain s6 V where
      V: "lh_merge key off cmp R (lptr T) s5 = Some (lptr V, s6)" "lat ?F R [] V LT s6" "leftist V" "heap_ordered ky V"
        "set (lnodes V) = set (knodes k) \<union> set (lnodes l) \<union> set (lnodes r)" unfolding ky_def by (auto simp: Un_assoc)
    have f0: "laddr f \<noteq> NULL" "kptr k = laddr f" "lh_node s5 = R" using c1 s5(2) Cons by (cases f; simp add: lat_def)+
    have "lh_del key off cmp x s = Some (s6\<lparr>lh_node := lptr V\<rparr>)"
      using s1(1) f0 s4(1-4) s5(1) V(1) by (simp add: lh_del_def)
    then show ?thesis using lat_root [OF V(2)] V(3-5) by blast
  qed
qed

lemma lposition:
  assumes "x \<in> set (lnodes t)"
  obtains k l n r where "t = lplug k (LN l x n r)"
proof -
  have "\<exists>j l n r. lplug k t = lplug j (LN l x n r)" for k
    using assms
  proof (induction t arbitrary: k)
    case (LN l b n r)
    consider "x = b" | "x \<in> set (lnodes l)" | "x \<in> set (lnodes r)" using LN.prems by auto
    then show ?case
      using LN.IH(1) [of "HL b n r # k"] LN.IH(2) [of "HR l b n # k"] by cases auto
  qed simp
  then show ?thesis using that by (metis lplug.simps(1))
qed

lemma del_ok:
  fixes key :: "addr \<Rightarrow> 'k::linorder"
  assumes "cmp_ok cmp" and "lh_ok key off F A s" and "x \<in> A"
  shows "\<exists>s' n. lh_del key off cmp x s = Some s' \<and> lh_ok key off (F(x \<mapsto> lcell NULL NULL NULL n)) (A - {x}) s'"
proof -
  obtain t where t: "lat F (lptr t) [] t LT s" "heap_ordered (\<lambda>x. key (lh_entry x off)) t" "leftist t" "set (lnodes t) = A"
    using assms(2) by (auto simp: lh_ok_def)
  obtain k l n r where k: "t = lplug k (LN l x n r)" using lposition assms(3) t(4) by blast
  have at: "lat F (lptr t) k (LN l x n r) LT s" using t(1) k lat_plug by metis
  have "x \<notin> set (knodes k) \<union> set (lnodes l) \<union> set (lnodes r)" using at by (auto simp: lat_def)
  then have "set (knodes k) \<union> set (lnodes l) \<union> set (lnodes r) = A - {x}" using t(4) k by (auto simp: set_lplug)
  then show ?thesis using del_at [OF assms(1) at, of key off] t(2,3) k unfolding lh_ok_def by metis
qed

end
