(* ===== verification/Priority_Queue.thy ===== *)
theory Priority_Queue
  imports Libkern_Prelude
begin

text \<open>
  The contract of an intrusive priority queue, as the leftist heap offers it: the state holds a set of
  nodes, the best node is one of greatest priority, a fresh node can be inserted and any held node removed. The
  client facts are about inserting many nodes and about draining the queue best first.
\<close>

text \<open>Taking the best node out, a number of times.\<close>

fun drain :: "('s \<Rightarrow> addr) \<Rightarrow> (addr \<Rightarrow> 's \<Rightarrow> 's option) \<Rightarrow> nat \<Rightarrow> 's \<Rightarrow> (addr list \<times> 's) option" where
  "drain best del 0 s = Some ([], s)"
| "drain best del (Suc n) s = do {
     s' \<leftarrow> del (best s) s;
     (xs, s'') \<leftarrow> drain best del n s';
     Some (best s # xs, s'') }"

locale priority_queue =
  fixes queue :: "addr set \<Rightarrow> 's \<Rightarrow> bool"
    and fresh :: "addr \<Rightarrow> 's \<Rightarrow> bool"
    and prio :: "addr \<Rightarrow> 'k::linorder"
    and insert_item :: "addr \<Rightarrow> 's \<Rightarrow> 's option"
    and delete_item :: "addr \<Rightarrow> 's \<Rightarrow> 's option"
    and best :: "'s \<Rightarrow> addr"
  assumes queue_finite: "queue A s \<Longrightarrow> finite A"
    and best_null: "queue A s \<Longrightarrow> best s = NULL \<longleftrightarrow> A = {}"
    and best_max: "queue A s \<Longrightarrow> A \<noteq> {} \<Longrightarrow> best s \<in> A \<and> (\<forall>x \<in> A. prio x \<le> prio (best s))"
    and insert_law: "queue A s \<Longrightarrow> fresh x s \<Longrightarrow> x \<notin> A \<Longrightarrow>
      \<exists>s'. insert_item x s = Some s' \<and> queue (insert x A) s' \<and> (\<forall>y. y \<notin> insert x A \<longrightarrow> fresh y s \<longrightarrow> fresh y s')"
    and delete_law: "queue A s \<Longrightarrow> x \<in> A \<Longrightarrow> \<exists>s'. delete_item x s = Some s' \<and> queue (A - {x}) s'"
begin

lemma insert_items:
  assumes "queue A s" and "distinct xs" and "set xs \<inter> A = {}" and "\<And>x. x \<in> set xs \<Longrightarrow> fresh x s"
  shows "\<exists>s'. steps insert_item xs s = Some s' \<and> queue (set xs \<union> A) s'"
  using assms
proof (induction xs arbitrary: A s)
  case (Cons x xs)
  obtain s1 where s1: "insert_item x s = Some s1" "queue (insert x A) s1" "\<forall>y. y \<notin> insert x A \<longrightarrow> fresh y s \<longrightarrow> fresh y s1"
    using insert_law [OF Cons.prems(1), of x] Cons.prems(3,4) by auto
  have "\<exists>s'. steps insert_item xs s1 = Some s' \<and> queue (set xs \<union> insert x A) s'"
  proof (rule Cons.IH [OF s1(2)])
    show "distinct xs" "set xs \<inter> insert x A = {}" using Cons.prems(2,3) by auto
    show "fresh y s1" if "y \<in> set xs" for y
    proof -
      have "y \<notin> insert x A" "fresh y s" using that Cons.prems(2-4) by auto
      then show ?thesis using s1(3) by blast
    qed
  qed
  then show ?case using s1(1) by simp
qed simp

lemma drain_sorts:
  assumes "queue A s"
  shows "\<exists>xs s'. drain best delete_item (card A) s = Some (xs, s') \<and> set xs = A \<and> distinct xs \<and>
    sorted_wrt (\<lambda>x y. prio y \<le> prio x) xs \<and> queue {} s'"
  using assms
proof (induction "card A" arbitrary: A s)
  case 0
  then show ?case using queue_finite [OF 0(2)] by auto
next
  case (Suc n)
  then have "A \<noteq> {}" by auto
  then have m: "best s \<in> A" "\<forall>x \<in> A. prio x \<le> prio (best s)" using best_max [OF Suc.prems] by auto
  obtain s1 where s1: "delete_item (best s) s = Some s1" "queue (A - {best s}) s1" using delete_law [OF Suc.prems m(1)] by blast
  have n: "n = card (A - {best s})" using Suc.hyps(2) m(1) queue_finite [OF Suc.prems] by simp
  obtain xs s2 where "drain best delete_item n s1 = Some (xs, s2)" "set xs = A - {best s}" "distinct xs"
      "sorted_wrt (\<lambda>x y. prio y \<le> prio x) xs" "queue {} s2" using Suc.hyps(1) [OF n s1(2)] n by auto
  moreover have "insert (best s) (A - {best s}) = A" using m(1) by blast
  ultimately show ?case using s1(1) m(2) unfolding Suc.hyps(2) [symmetric] by (intro exI [of _ "best s # xs"] exI [of _ s2]) auto
qed

end

end
