(* ===== verification/Lheap_Props.thy ===== *)
theory Lheap_Props
  imports Lheap_Del Priority_Queue
begin

text \<open>
  The leftist heap as a priority queue: the interpretation of the interface on the model of \<^verbatim>\<open>lheap.h\<close>, the
  properties of its operations, and the case in which \<^verbatim>\<open>lh_del_min\<close> does not delete.
\<close>

section \<open>The heap as a priority queue\<close>

definition lh_queue :: "(addr \<Rightarrow> 'k::linorder) \<Rightarrow> u64 \<Rightarrow> addr set \<Rightarrow> lh_heap \<Rightarrow> bool" where
  "lh_queue key off A s \<longleftrightarrow> (\<exists>F. lh_ok key off F A s)"

lemma ok_tree:
  assumes "lh_ok key off F A s"
  shows "finite A" and "lh_min s = NULL \<longleftrightarrow> A = {}"
    and "A \<noteq> {} \<Longrightarrow> lh_min s \<in> A \<and> (\<forall>x \<in> A. key (lh_entry x off) \<le> key (lh_entry (lh_min s) off))"
proof -
  obtain t where t: "lat F (lptr t) [] t LT s" "heap_ordered (\<lambda>x. key (lh_entry x off)) t" "set (lnodes t) = A"
    using assms by (auto simp: lh_ok_def)
  have m: "lh_min s = lptr t" "lptr t = NULL \<longleftrightarrow> t = LT" using t(1) lrep_null by (auto simp: lat_def lh_min_def)
  show "finite A" using t(3) by auto
  show "lh_min s = NULL \<longleftrightarrow> A = {}" using m t(3) by (cases t) auto
  show "lh_min s \<in> A \<and> (\<forall>x \<in> A. key (lh_entry x off) \<le> key (lh_entry (lh_min s) off))" if "A \<noteq> {}"
    using that m(1) t(3) ordered_root [OF t(2)] by (cases t) auto
qed

lemma ok_cong:
  assumes "lh_ok key off F A s" and "\<And>y. y \<notin> A \<Longrightarrow> G y = F y"
  shows "lh_ok key off G A s"
proof -
  have "lat G R [] t LT s" if "lat F R [] t LT s" "set (lnodes t) = A" for R t using that assms(2) by (simp add: lat_def)
  then show ?thesis using assms(1) unfolding lh_ok_def by blast
qed

lemma ok_outside: "lh_ok key off F A s \<Longrightarrow> y \<notin> A \<Longrightarrow> lh_nodes s y = F y"
  by (auto simp: lh_ok_def lat_def)

interpretation lh: priority_queue "lh_queue key off" lh_fresh "\<lambda>x. key (lh_entry x off)" "lh_insert key off cmp3" "lh_del key off cmp3" lh_min
  for key :: "addr \<Rightarrow> 'k::linorder" and off :: u64
proof
  fix A s x
  assume q: "lh_queue key off A s"
  then obtain F where F: "lh_ok key off F A s" by (auto simp: lh_queue_def)
  show "finite A" "lh_min s = NULL \<longleftrightarrow> A = {}" using ok_tree [OF F] by auto
  show "A \<noteq> {} \<Longrightarrow> lh_min s \<in> A \<and> (\<forall>x \<in> A. key (lh_entry x off) \<le> key (lh_entry (lh_min s) off))" using ok_tree(3) [OF F] .
  show "x \<in> A \<Longrightarrow> \<exists>s'. lh_del key off cmp3 x s = Some s' \<and> lh_queue key off (A - {x}) s'"
    using del_ok [OF cmp_ok_cmp3 F] unfolding lh_queue_def by blast
  assume x: "lh_fresh x s" "x \<notin> A"
  then obtain s' where s': "lh_insert key off cmp3 x s = Some s'" "lh_ok key off F (insert x A) s'"
    using insert_ok [OF cmp_ok_cmp3 F] by blast
  moreover have "lh_fresh y s'" if "y \<notin> insert x A" "lh_fresh y s" for y
    using that ok_outside [OF s'(2), of y] ok_outside [OF F, of y] by (simp add: lh_fresh_def)
  ultimately show "\<exists>s'. lh_insert key off cmp3 x s = Some s' \<and> lh_queue key off (insert x A) s' \<and>
      (\<forall>y. y \<notin> insert x A \<longrightarrow> lh_fresh y s \<longrightarrow> lh_fresh y s')" unfolding lh_queue_def by blast
qed

section \<open>Null path lengths\<close>

lemma rank_size: "leftist t \<Longrightarrow> 2 ^ nat (rank t) \<le> length (lnodes t) + 1"
proof (induction t)
  case (LN l a n r)
  have r: "0 \<le> rank r" "rank r \<le> rank l" "n = rank r" using LN.prems rank_nonneg by auto
  have "(2::nat) ^ nat (rank r) \<le> 2 ^ nat (rank l)" using r by (intro power_increasing) auto
  also have "\<dots> \<le> length (lnodes l) + 1" using LN by simp
  finally have "(2::nat) ^ nat (rank r) + 2 ^ nat (rank r) \<le> length (lnodes l) + 1 + (length (lnodes r) + 1)"
    using LN by (intro add_mono) auto
  moreover have "nat (rank (LN l a n r)) = Suc (nat (rank r))" using r by (simp add: nat_add_distrib)
  ultimately show ?case by simp
qed simp

lemma plug_length: "length (lnodes t) \<le> length (lnodes (lplug k t))"
proof (induction k arbitrary: t)
  case (Cons f k)
  then show ?case using Cons [of "lfill f t"] by (cases f) auto
qed simp

lemma ok_npl:
  assumes "lh_ok key off F A s" and "x \<in> A"
  shows "\<exists>n. lget lh_npl x s = Some n \<and> 0 \<le> n \<and> 2 ^ Suc (nat n) \<le> card A + 1"
proof -
  obtain t where t: "lat F (lptr t) [] t LT s" "leftist t" "set (lnodes t) = A" using assms(1) by (auto simp: lh_ok_def)
  obtain k l n r where k: "t = lplug k (LN l x n r)" using lposition assms(2) t(3) by blast
  have at: "lat F (lptr t) k (LN l x n r) LT s" using t(1) k lat_plug by metis
  have lf: "leftist (LN l x n r)" using plug_leftist t(2) k by blast
  then have n: "0 \<le> n" using rank_nonneg by auto
  have "length (lnodes t) = card A" using t(1,3) distinct_card by (fastforce simp: lat_def)
  then have "2 ^ nat (rank (LN l x n r)) \<le> card A + 1" using rank_size [OF lf] plug_length [of "LN l x n r" k] k by simp
  moreover have "nat (rank (LN l x n r)) = Suc (nat n)" using n by (simp add: nat_add_distrib)
  moreover have "lget lh_npl x s = Some n" using lat_node [OF at] by (simp add: lget_cell)
  ultimately show ?thesis using n by auto
qed

section \<open>Properties\<close>

text \<open>A concrete heap: the root with the greatest key over two leaves, and a spare node.\<close>

definition lh_spare :: "lh_node heap" where
  "lh_spare = [0x40 \<mapsto> lcell 7 7 7 7]"

definition lh_three :: lh_heap where
  "lh_three = \<lparr>lh_nodes = lh_spare(0x10 \<mapsto> lcell NULL 0x20 0x30 1, 0x20 \<mapsto> lcell 0x10 NULL NULL 0, 0x30 \<mapsto> lcell 0x10 NULL NULL 0),
    lh_node = 0x10\<rparr>"

definition lh_key :: "addr \<Rightarrow> nat" where
  "lh_key x = 100 - unat x"

lemma lh_three_ok: "lh_ok lh_key 0 lh_spare {0x10, 0x20, 0x30} lh_three"
  unfolding lh_ok_def
  by (rule exI [of _ "LN (LN LT 0x20 0 LT) 0x10 1 (LN LT 0x30 0 LT)"])
    (auto simp: lat_def lh_three_def lh_spare_def lh_key_def lh_entry_def)

text \<open>
  C9: lh_node_init followed by lh_insert adds the node to a leftist heap: both calls return, the result is
  again in heap order with correct null path lengths and holds exactly one node more, its root has the
  greatest key under the comparison, and no memory outside the heap changes.
\<close>

theorem lh_insert_heap:
  assumes "cmp_ok cmp" and "lh_ok key off F A s" and "x \<notin> A" and "x \<noteq> NULL" and "lh_nodes s x \<noteq> None"
  shows "\<exists>s1 s'. lh_node_init x s = Some s1 \<and> lh_insert key off cmp x s1 = Some s' \<and> lh_ok key off F (insert x A) s' \<and>
    key (lh_entry (lh_min s') off) = Max ((\<lambda>y. key (lh_entry y off)) ` insert x A)"
proof -
  obtain c where c: "lh_nodes s x = Some c" using assms(5) by blast
  define G where "G = F(x \<mapsto> lcell NULL NULL NULL 0)"
  define s1 where "s1 = s\<lparr>lh_nodes := (lh_nodes s)(x \<mapsto> lcell NULL NULL NULL 0)\<rparr>"
  have i: "lh_node_init x s = Some s1" using c assms(4) by (cases c) (simp add: lh_node_init_def lset_cell s1_def lcell_def)
  have "lat G R [] t LT s1" if "lat F R [] t LT s" "x \<notin> set (lnodes t)" for R t using that by (auto simp: lat_def s1_def G_def)
  then have "lh_ok key off G A s1" using assms(2,3) unfolding lh_ok_def by blast
  moreover have "lh_fresh x s1" using assms(4) by (simp add: lh_fresh_def s1_def)
  ultimately obtain s' where s': "lh_insert key off cmp x s1 = Some s'" "lh_ok key off G (insert x A) s'"
    using insert_ok [OF assms(1)] assms(3) by blast
  have "key (lh_entry (lh_min s') off) = Max ((\<lambda>y. key (lh_entry y off)) ` insert x A)"
    using ok_tree(1,3) [OF s'(2)] by (intro Max_eqI [symmetric]) auto
  moreover have "lh_ok key off F (insert x A) s'" using s'(2) by (rule ok_cong) (simp add: G_def)
  ultimately show ?thesis using i s'(1) by blast
qed

theorem lh_insert_heap_witness:
  "\<exists>s1 s'. lh_node_init 0x40 lh_three = Some s1 \<and> lh_insert lh_key 0 cmp3 0x40 s1 = Some s' \<and>
     lh_ok lh_key 0 lh_spare (insert 0x40 {0x10, 0x20, 0x30}) s' \<and> lh_key (lh_entry (lh_min s') 0) = 84"
proof -
  have "(0x40 :: addr) \<notin> {0x10, 0x20, 0x30}" "(0x40 :: addr) \<noteq> NULL" "lh_nodes lh_three 0x40 \<noteq> None"
    by (simp_all add: lh_three_def lh_spare_def)
  note w = lh_insert_heap [OF cmp_ok_cmp3 lh_three_ok this]
  have "Max ((\<lambda>y. lh_key (lh_entry y 0)) ` insert 0x40 {0x10, 0x20, 0x30}) = 84" by (simp add: lh_key_def lh_entry_def)
  then show ?thesis using w by simp
qed

text \<open>
  C10: lh_del removes any node of a leftist heap: the call returns, the remaining nodes form a leftist heap in
  heap order, and apart from the removed node's cell, which is left with no links, the memory outside the
  heap is as before.
\<close>

theorem lh_del_heap:
  assumes "cmp_ok cmp" and "lh_ok key off F A s" and "x \<in> A"
  shows "\<exists>s' n. lh_del key off cmp x s = Some s' \<and> lh_ok key off (F(x \<mapsto> lcell NULL NULL NULL n)) (A - {x}) s'"
  using assms by (rule del_ok)

theorem lh_del_heap_witness:
  "\<exists>s' n. lh_del lh_key 0 cmp3 0x20 lh_three = Some s' \<and> lh_ok lh_key 0 (lh_spare(0x20 \<mapsto> lcell NULL NULL NULL n)) {0x10, 0x30} s'"
  using lh_del_heap [OF cmp_ok_cmp3 lh_three_ok, of "0x20"] by (simp add: insert_Diff_if)

text \<open>
  C11: The leftist heap as a priority queue: distinct fresh nodes inserted into an empty heap in any order and
  then taken out by lh_min and lh_del come out by descending key, each once, and leave the heap empty.
\<close>

theorem lh_heap_sorts:
  fixes key :: "addr \<Rightarrow> 'k::linorder"
  assumes "distinct xs" and "\<And>x. x \<in> set xs \<Longrightarrow> lh_fresh x s"
  shows "\<exists>s1 ys s2. steps (lh_insert key off cmp3) xs (lh_heap_init s) = Some s1 \<and>
    drain lh_min (lh_del key off cmp3) (length xs) s1 = Some (ys, s2) \<and> set ys = set xs \<and> distinct ys \<and>
    sorted_wrt (\<lambda>x y. key (lh_entry y off) \<le> key (lh_entry x off)) ys \<and> lh_heap_empty s2"
proof -
  have "lh_ok key off (lh_nodes s) {} (lh_heap_init s)" unfolding lh_ok_def by (rule exI [of _ LT]) (simp add: lat_def lh_heap_init_def)
  then have q: "lh_queue key off {} (lh_heap_init s)" by (auto simp: lh_queue_def)
  have "lh_fresh x (lh_heap_init s)" if "x \<in> set xs" for x using assms(2) [OF that] by (simp add: lh_fresh_def lh_heap_init_def)
  then obtain s1 where s1: "steps (lh_insert key off cmp3) xs (lh_heap_init s) = Some s1" "lh_queue key off (set xs) s1"
    using lh.insert_items [OF q assms(1)] by auto
  obtain ys s2 where "drain lh_min (lh_del key off cmp3) (card (set xs)) s1 = Some (ys, s2)" "set ys = set xs" "distinct ys"
      "sorted_wrt (\<lambda>x y. key (lh_entry y off) \<le> key (lh_entry x off)) ys" "lh_queue key off {} s2" using lh.drain_sorts [OF s1(2)] by blast
  moreover have "card (set xs) = length xs" using assms(1) by (rule distinct_card)
  moreover have "lh_heap_empty s2" using lh.best_null [OF \<open>lh_queue key off {} s2\<close>] by (simp add: lh_heap_empty_def lh_min_def)
  ultimately show ?thesis using s1(1) by auto
qed

theorem lh_heap_sorts_witness:
  "\<exists>s1 ys s2. steps (lh_insert unat 0 cmp3) [0x20, 0x30, 0x10] (lh_heap_init \<lparr>lh_nodes = (\<lambda>_. Some (lcell NULL NULL NULL 0)), lh_node = 5\<rparr>) = Some s1 \<and>
     drain lh_min (lh_del unat 0 cmp3) 3 s1 = Some (ys, s2) \<and> set ys = {0x10, 0x20, 0x30} \<and> lh_heap_empty s2"
proof -
  let ?s = "\<lparr>lh_nodes = (\<lambda>_. Some (lcell NULL NULL NULL 0)), lh_node = 5\<rparr>"
  have f: "lh_fresh x ?s" if "x \<in> set [0x20, 0x30, 0x10]" for x using that by (auto simp: lh_fresh_def)
  have d: "distinct [0x20, 0x30, 0x10 :: addr]" and l: "length [0x20, 0x30, 0x10 :: addr] = 3" and i: "set [0x20, 0x30, 0x10 :: addr] = {0x10, 0x20, 0x30}" by auto
  show ?thesis using lh_heap_sorts [OF d f, where key = unat and off = 0] unfolding l i by blast
qed

text \<open>
  Null path lengths stay logarithmic: in a leftist heap of m nodes every node's lh_npl is not negative and
  2 ^ (lh_npl + 1) is at most m + 1, so the int field never overflows.
\<close>

theorem lh_npl_bound:
  assumes "lh_ok key off F A s" and "x \<in> A"
  shows "\<exists>n. lget lh_npl x s = Some n \<and> 0 \<le> n \<and> 2 ^ Suc (nat n) \<le> card A + 1"
  using assms by (rule ok_npl)

theorem lh_npl_bound_witness:
  "\<exists>n. lget lh_npl 0x10 lh_three = Some n \<and> 0 \<le> n \<and> 2 ^ Suc (nat n) \<le> (4 :: nat)"
proof -
  have "card {0x10, 0x20, 0x30 :: addr} + 1 = 4" by simp
  then show ?thesis using lh_npl_bound [OF lh_three_ok, of "0x10"] by (metis insertI1)
qed

text \<open>
  lh_del_min on the concrete heap: the children keep their link to the root, the merge climbs through it, and
  the root is still the minimum afterwards, with every node still in the heap. Nothing is deleted.
\<close>

lemma lh_del_min_keeps_root:
  "map_option lh_min (lh_del_min lh_key 0 cmp3 lh_three) = Some (lh_min lh_three)"
  by (simp add: lh_del_min_def lh_min_def lh_three_def lh_spare_def lget_def lset_left_def lset_right_def lset_parent_def lset_npl_def lmod_def
      getf_def modf_def deref_def lh_merge_def lh_key_def lh_entry_def cmp3_def merge_down.simps merge_up.simps merge_fix_def lh_swap_children_def)

end
