(* ===== verification/Atomic.thy ===== *)
theory Atomic
  imports Libkern_Prelude
begin

text \<open>
  \<^verbatim>\<open>include/atomic.h\<close>, on the path without \<^verbatim>\<open>__GNUC_ATOMICS\<close>, which nothing in the repository defines: the atomic
  operations over the \<^verbatim>\<open>__sync\<close> builtins of the compiler. A memory maps addresses to integer cells of a fixed
  width; each builtin is one indivisible step on it, and the memory order of the \<^verbatim>\<open>_explicit\<close> forms is
  an argument that this path ignores. Concurrent use is a step relation over the operations.
\<close>

type_synonym 'w cells = "'w word heap"

datatype memory_order = memory_order_relaxed | memory_order_consume | memory_order_acquire
  | memory_order_release | memory_order_acq_rel | memory_order_seq_cst

section \<open>Builtins\<close>

definition sync_val_compare_and_swap ::
  "addr \<Rightarrow> 'w::len word \<Rightarrow> 'w word \<Rightarrow> 'w cells \<Rightarrow> ('w word \<times> 'w cells) option" where
  "sync_val_compare_and_swap p old new h = do {
     v \<leftarrow> deref h p;
     Some (v, if v = old then h(p \<mapsto> new) else h) }"

definition sync_fetch_and ::
  "('w word \<Rightarrow> 'w word \<Rightarrow> 'w word) \<Rightarrow> addr \<Rightarrow> 'w::len word \<Rightarrow> 'w cells \<Rightarrow> ('w word \<times> 'w cells) option" where
  "sync_fetch_and f p x h = do { v \<leftarrow> deref h p; Some (v, h(p \<mapsto> f v x)) }"

definition sync_lock_test_and_set :: "addr \<Rightarrow> 'w::len word \<Rightarrow> 'w cells \<Rightarrow> ('w word \<times> 'w cells) option" where
  "sync_lock_test_and_set p x h = sync_fetch_and (\<lambda>v x. x) p x h"

definition store_cell :: "addr \<Rightarrow> 'w::len word \<Rightarrow> 'w cells \<Rightarrow> 'w cells option" where
  "store_cell p x h = modf (\<lambda>_. x) p h"

section \<open>Operations\<close>

definition ATOMIC_VAR_INIT :: "'w::len word \<Rightarrow> 'w word" where
  "ATOMIC_VAR_INIT val = val"

definition atomic_init :: "addr \<Rightarrow> 'w::len word \<Rightarrow> 'w cells \<Rightarrow> 'w cells option" where
  "atomic_init obj val h = store_cell obj val h"

definition atomic_is_lock_free :: "'w::len itself \<Rightarrow> bool" where
  "atomic_is_lock_free T \<longleftrightarrow> LENGTH('w) div 8 \<le> 8"

definition atomic_compare_exchange_strong_explicit ::
  "addr \<Rightarrow> addr \<Rightarrow> 'w::len word \<Rightarrow> memory_order \<Rightarrow> memory_order \<Rightarrow> 'w cells \<Rightarrow> (bool \<times> 'w cells) option" where
  "atomic_compare_exchange_strong_explicit object expected desired success failure h = do {
     e \<leftarrow> deref h expected;
     (v, h) \<leftarrow> sync_val_compare_and_swap object e desired h;
     e \<leftarrow> deref h expected;
     let r = (e = v);
     h \<leftarrow> store_cell expected v h;
     Some (r, h) }"

definition atomic_compare_exchange_weak_explicit ::
  "addr \<Rightarrow> addr \<Rightarrow> 'w::len word \<Rightarrow> memory_order \<Rightarrow> memory_order \<Rightarrow> 'w cells \<Rightarrow> (bool \<times> 'w cells) option" where
  "atomic_compare_exchange_weak_explicit object expected desired success failure h =
     atomic_compare_exchange_strong_explicit object expected desired success failure h"

definition atomic_exchange_explicit :: "addr \<Rightarrow> 'w::len word \<Rightarrow> memory_order \<Rightarrow> 'w cells \<Rightarrow> ('w word \<times> 'w cells) option" where
  "atomic_exchange_explicit object desired order h = sync_lock_test_and_set object desired h"

definition atomic_fetch_add_explicit :: "addr \<Rightarrow> 'w::len word \<Rightarrow> memory_order \<Rightarrow> 'w cells \<Rightarrow> ('w word \<times> 'w cells) option" where
  "atomic_fetch_add_explicit object operand order h = sync_fetch_and (+) object operand h"

definition atomic_fetch_and_explicit :: "addr \<Rightarrow> 'w::len word \<Rightarrow> memory_order \<Rightarrow> 'w cells \<Rightarrow> ('w word \<times> 'w cells) option" where
  "atomic_fetch_and_explicit object operand order h = sync_fetch_and (AND) object operand h"

definition atomic_fetch_or_explicit :: "addr \<Rightarrow> 'w::len word \<Rightarrow> memory_order \<Rightarrow> 'w cells \<Rightarrow> ('w word \<times> 'w cells) option" where
  "atomic_fetch_or_explicit object operand order h = sync_fetch_and (OR) object operand h"

definition atomic_fetch_sub_explicit :: "addr \<Rightarrow> 'w::len word \<Rightarrow> memory_order \<Rightarrow> 'w cells \<Rightarrow> ('w word \<times> 'w cells) option" where
  "atomic_fetch_sub_explicit object operand order h = sync_fetch_and (-) object operand h"

definition atomic_fetch_xor_explicit :: "addr \<Rightarrow> 'w::len word \<Rightarrow> memory_order \<Rightarrow> 'w cells \<Rightarrow> ('w word \<times> 'w cells) option" where
  "atomic_fetch_xor_explicit object operand order h = sync_fetch_and (XOR) object operand h"

definition atomic_load_explicit :: "addr \<Rightarrow> memory_order \<Rightarrow> 'w::len cells \<Rightarrow> ('w word \<times> 'w cells) option" where
  "atomic_load_explicit object order h = sync_fetch_and (+) object 0 h"

definition atomic_store_explicit :: "addr \<Rightarrow> 'w::len word \<Rightarrow> memory_order \<Rightarrow> 'w cells \<Rightarrow> 'w cells option" where
  "atomic_store_explicit object desired order h = store_cell object desired h"

text \<open>The convenience forms are sequentially consistent.\<close>

definition atomic_compare_exchange_strong :: "addr \<Rightarrow> addr \<Rightarrow> 'w::len word \<Rightarrow> 'w cells \<Rightarrow> (bool \<times> 'w cells) option" where
  "atomic_compare_exchange_strong object expected desired h =
     atomic_compare_exchange_strong_explicit object expected desired memory_order_seq_cst memory_order_seq_cst h"

definition atomic_compare_exchange_weak :: "addr \<Rightarrow> addr \<Rightarrow> 'w::len word \<Rightarrow> 'w cells \<Rightarrow> (bool \<times> 'w cells) option" where
  "atomic_compare_exchange_weak object expected desired h =
     atomic_compare_exchange_weak_explicit object expected desired memory_order_seq_cst memory_order_seq_cst h"

definition atomic_exchange :: "addr \<Rightarrow> 'w::len word \<Rightarrow> 'w cells \<Rightarrow> ('w word \<times> 'w cells) option" where
  "atomic_exchange object desired h = atomic_exchange_explicit object desired memory_order_seq_cst h"

definition atomic_fetch_add :: "addr \<Rightarrow> 'w::len word \<Rightarrow> 'w cells \<Rightarrow> ('w word \<times> 'w cells) option" where
  "atomic_fetch_add object operand h = atomic_fetch_add_explicit object operand memory_order_seq_cst h"

definition atomic_fetch_and :: "addr \<Rightarrow> 'w::len word \<Rightarrow> 'w cells \<Rightarrow> ('w word \<times> 'w cells) option" where
  "atomic_fetch_and object operand h = atomic_fetch_and_explicit object operand memory_order_seq_cst h"

definition atomic_fetch_or :: "addr \<Rightarrow> 'w::len word \<Rightarrow> 'w cells \<Rightarrow> ('w word \<times> 'w cells) option" where
  "atomic_fetch_or object operand h = atomic_fetch_or_explicit object operand memory_order_seq_cst h"

definition atomic_fetch_sub :: "addr \<Rightarrow> 'w::len word \<Rightarrow> 'w cells \<Rightarrow> ('w word \<times> 'w cells) option" where
  "atomic_fetch_sub object operand h = atomic_fetch_sub_explicit object operand memory_order_seq_cst h"

definition atomic_fetch_xor :: "addr \<Rightarrow> 'w::len word \<Rightarrow> 'w cells \<Rightarrow> ('w word \<times> 'w cells) option" where
  "atomic_fetch_xor object operand h = atomic_fetch_xor_explicit object operand memory_order_seq_cst h"

definition atomic_load :: "addr \<Rightarrow> 'w::len cells \<Rightarrow> ('w word \<times> 'w cells) option" where
  "atomic_load object h = atomic_load_explicit object memory_order_seq_cst h"

definition atomic_store :: "addr \<Rightarrow> 'w::len word \<Rightarrow> 'w cells \<Rightarrow> 'w cells option" where
  "atomic_store object desired h = atomic_store_explicit object desired memory_order_seq_cst h"

text \<open>The flag: the macros pass the integer 0 where the compare-and-exchange expects a pointer.\<close>

definition ATOMIC_FLAG_INIT :: "'w::len word" where
  "ATOMIC_FLAG_INIT = ATOMIC_VAR_INIT 0"

definition atomic_flag_clear_explicit :: "addr \<Rightarrow> memory_order \<Rightarrow> 'w::len cells \<Rightarrow> 'w cells option" where
  "atomic_flag_clear_explicit object order h = atomic_store_explicit object 0 order h"

definition atomic_flag_test_and_set_explicit :: "addr \<Rightarrow> memory_order \<Rightarrow> 'w::len cells \<Rightarrow> (bool \<times> 'w cells) option" where
  "atomic_flag_test_and_set_explicit object order h = atomic_compare_exchange_strong_explicit object 0 1 order order h"

definition atomic_flag_clear :: "addr \<Rightarrow> 'w::len cells \<Rightarrow> 'w cells option" where
  "atomic_flag_clear object h = atomic_flag_clear_explicit object memory_order_seq_cst h"

definition atomic_flag_test_and_set :: "addr \<Rightarrow> 'w::len cells \<Rightarrow> (bool \<times> 'w cells) option" where
  "atomic_flag_test_and_set object h = atomic_flag_test_and_set_explicit object memory_order_seq_cst h"

end
