(* ===== verification/Atomic_Props.thy ===== *)
theory Atomic_Props
  imports Atomic
begin

text \<open>
  Properties of the atomic operations: what each does to its cell, and two uses of them by concurrent
  threads as step relations whose steps are the operations, with invariants over all interleavings: a lock
  built from compare-and-exchange and a shared counter.
\<close>

section \<open>One operation\<close>







section \<open>A lock\<close>

text \<open>
  Threads take a lock cell \<open>L\<close> by exchanging 0 for 1, each with an \<^verbatim>\<open>expected\<close> cell \<open>E i\<close> of its own that it sets to 0
  before, and give it back by storing 0.
\<close>

inductive lock_step ::
  "addr \<Rightarrow> (nat \<Rightarrow> addr) \<Rightarrow> (nat \<Rightarrow> bool) \<times> 'w::len cells \<Rightarrow> (nat \<Rightarrow> bool) \<times> 'w cells \<Rightarrow> bool" for L E where
  try_lock: "\<not> held i \<Longrightarrow> atomic_store (E i) 0 h = Some h1 \<Longrightarrow> atomic_compare_exchange_strong L (E i) 1 h1 = Some (r, h2) \<Longrightarrow>
    lock_step L E (held, h) (held(i := r), h2)"
| unlock: "held i \<Longrightarrow> atomic_store L 0 h = Some h1 \<Longrightarrow> lock_step L E (held, h) (held(i := False), h1)"

inductive_cases lock_stepE: "lock_step L E (held, h) s"




section \<open>A counter\<close>










section \<open>Properties\<close>







end
