(* ===== verification/Bitops.thy ===== *)
theory Bitops
  imports Kernel_Macros
begin

text \<open>
  \<^verbatim>\<open>include/bitops.h\<close> and \<^verbatim>\<open>lib/bitops.c\<close>: single-bit operations on arrays of words, the
  binary searches for the first and last set bit of a word, the SWAR population counts, the
  rotations and the searches for set and clear bits in an array. An array is a list of words in
  the store; bit \<open>i\<close> of it is bit \<open>i mod 64\<close> of word \<open>i div 64\<close>.
\<close>

section \<open>Words\<close>

definition BIT_WORD :: "nat \<Rightarrow> nat" where
  "BIT_WORD nr = nr div 64"

definition BITS_TO_LONGS :: "nat \<Rightarrow> nat" where
  "BITS_TO_LONGS nr = (nr + 64 - 1) div 64"

definition hweight32 :: "u32 \<Rightarrow> u32" where
  "hweight32 w = (let res = w - (drop_bit 1 w AND 0x55555555);
       res = (res AND 0x33333333) + (drop_bit 2 res AND 0x33333333);
       res = (res + drop_bit 4 res) AND 0x0F0F0F0F;
       res = res + drop_bit 8 res
     in (res + drop_bit 16 res) AND 0x000000FF)"

definition hweight64 :: "u64 \<Rightarrow> u64" where
  "hweight64 w = (let res = w - (drop_bit 1 w AND 0x5555555555555555);
       res = (res AND 0x3333333333333333) + (drop_bit 2 res AND 0x3333333333333333);
       res = (res + drop_bit 4 res) AND 0x0F0F0F0F0F0F0F0F;
       res = res + drop_bit 8 res;
       res = res + drop_bit 16 res
     in (res + drop_bit 32 res) AND 0x00000000000000FF)"

definition hweight_long :: "u64 \<Rightarrow> u64" where
  "hweight_long w = hweight64 w"

text \<open>
  \<^verbatim>\<open>int nr\<close>: a negative index makes the shift amount negative, which is undefined.
\<close>

definition set_bit :: "int \<Rightarrow> addr \<Rightarrow> store \<Rightarrow> store option" where
  "set_bit nr a m = (if nr < 0 then None else do {
     w \<leftarrow> aget m a (nat nr div 64);
     aset m a (nat nr div 64) (w OR push_bit (nat nr mod 64) 1) })"

definition clear_bit :: "int \<Rightarrow> addr \<Rightarrow> store \<Rightarrow> store option" where
  "clear_bit nr a m = (if nr < 0 then None else do {
     w \<leftarrow> aget m a (nat nr div 64);
     aset m a (nat nr div 64) (w AND NOT (push_bit (nat nr mod 64) 1)) })"

definition test_bit :: "u32 \<Rightarrow> addr \<Rightarrow> store \<Rightarrow> bool option" where
  "test_bit nr a m = do {
     w \<leftarrow> aget m a (unat nr div 64);
     Some (push_bit (unat nr mod 64) 1 AND w \<noteq> 0) }"

definition ffs_step :: "u64 \<Rightarrow> nat \<Rightarrow> int \<times> u64 \<Rightarrow> int \<times> u64" where
  "ffs_step msk k st = (case st of (num, word) \<Rightarrow>
     if word AND msk = 0 then (num + int k, drop_bit k word) else (num, word))"

definition uu_ffs :: "u64 \<Rightarrow> u64" where
  "uu_ffs word = (let
       st = ffs_step 0xffffffff 32 (0, word);
       st = ffs_step 0xffff 16 st;
       st = ffs_step 0xff 8 st;
       st = ffs_step 0xf 4 st;
       st = ffs_step 0x3 2 st;
       num = (if snd st AND 1 = 0 then fst st + 1 else fst st)
     in word_of_int num)"

definition uu_ffs64 :: "u64 \<Rightarrow> u64" where
  "uu_ffs64 word = uu_ffs word"

definition ffz :: "u64 \<Rightarrow> u64" where
  "ffz x = uu_ffs (NOT x)"

text \<open>
  \<^verbatim>\<open>fls\<close> shifts its \<^verbatim>\<open>int\<close> argument left; the bits are those of the 32-bit word.
\<close>

definition fls_step :: "u32 \<Rightarrow> nat \<Rightarrow> int \<times> u32 \<Rightarrow> int \<times> u32" where
  "fls_step msk k st = (case st of (r, x) \<Rightarrow>
     if x AND msk = 0 then (r - int k, push_bit k x) else (r, x))"

definition fls :: "u32 \<Rightarrow> int" where
  "fls x = (if x = 0 then 0 else
     let st = fls_step 0xffff0000 16 (32, x);
         st = fls_step 0xff000000 8 st;
         st = fls_step 0xf0000000 4 st;
         st = fls_step 0xc0000000 2 st;
         st = fls_step 0x80000000 1 st
     in fst st)"

definition fls64 :: "u64 \<Rightarrow> int" where
  "fls64 x = (if x = 0 then 0 else uint (uu_ffs x + 1))"

definition fls_long :: "u64 \<Rightarrow> u32" where
  "fls_long l = word_of_int (fls64 l)"

definition get_bitmask_order :: "u32 \<Rightarrow> int" where
  "get_bitmask_order count = fls count"

definition get_count_order :: "u32 \<Rightarrow> int" where
  "get_count_order count =
     (let order = fls count - 1 in if count AND (count - 1) \<noteq> 0 then order + 1 else order)"

text \<open>
  The rotations: a shift by at least the width of the promoted operand is undefined. The 16- and
  8-bit ones are computed in \<^verbatim>\<open>int\<close> and truncated; a result bit above 31 does not exist and does
  not matter.
\<close>

definition rol32 :: "u32 \<Rightarrow> u32 \<Rightarrow> u32 option" where
  "rol32 word shift = (if shift < 32 \<and> 32 - shift < 32
     then Some (push_bit (unat shift) word OR drop_bit (unat (32 - shift)) word) else None)"

definition ror32 :: "u32 \<Rightarrow> u32 \<Rightarrow> u32 option" where
  "ror32 word shift = (if shift < 32 \<and> 32 - shift < 32
     then Some (drop_bit (unat shift) word OR push_bit (unat (32 - shift)) word) else None)"

definition rol16 :: "u16 \<Rightarrow> u32 \<Rightarrow> u16 option" where
  "rol16 word shift = (if shift < 32 \<and> 16 - shift < 32
     then Some (ucast (push_bit (unat shift) (ucast word :: u32) OR
       drop_bit (unat (16 - shift)) (ucast word :: u32))) else None)"

definition ror16 :: "u16 \<Rightarrow> u32 \<Rightarrow> u16 option" where
  "ror16 word shift = (if shift < 32 \<and> 16 - shift < 32
     then Some (ucast (drop_bit (unat shift) (ucast word :: u32) OR
       push_bit (unat (16 - shift)) (ucast word :: u32))) else None)"

definition rol8 :: "u8 \<Rightarrow> u32 \<Rightarrow> u8 option" where
  "rol8 word shift = (if shift < 32 \<and> 8 - shift < 32
     then Some (ucast (push_bit (unat shift) (ucast word :: u32) OR
       drop_bit (unat (8 - shift)) (ucast word :: u32))) else None)"

definition ror8 :: "u8 \<Rightarrow> u32 \<Rightarrow> u8 option" where
  "ror8 word shift = (if shift < 32 \<and> 8 - shift < 32
     then Some (ucast (drop_bit (unat shift) (ucast word :: u32) OR
       push_bit (unat (8 - shift)) (ucast word :: u32))) else None)"

section \<open>Searches in arrays\<close>

text \<open>
  The four forward searches share the loop over whole words: it stops at the first word that
  passes the test (\<^verbatim>\<open>tmp\<close> or \<^verbatim>\<open>~tmp\<close>), or with what is left of \<^verbatim>\<open>size\<close>.
\<close>

datatype scan = Hit u64 u64 | Rest nat u64 u64

function scan_words :: "(u64 \<Rightarrow> bool) \<Rightarrow> store \<Rightarrow> addr \<Rightarrow> nat \<Rightarrow> u64 \<Rightarrow> u64 \<Rightarrow> scan option" where
  "scan_words test m a p result sz =
     (if sz AND NOT 63 \<noteq> 0 then do {
        tmp \<leftarrow> aget m a p;
        if test tmp then Some (Hit tmp result)
        else scan_words test m a (Suc p) (result + 64) (sz - 64) }
      else Some (Rest p result sz))"
  by pat_completeness auto

lemma size_words: "sz AND - 64 = 0 \<longleftrightarrow> unat sz < 64" for sz :: u64
proof -
  have "sz AND - 64 = 0 \<longleftrightarrow> unat (sz AND NOT 63) = 0" by (simp flip: unat_eq_0)
  also have "\<dots> \<longleftrightarrow> unat sz < 64" unfolding unat_and_not_63 by (simp add: div_eq_0_iff)
  finally show ?thesis .
qed

lemma unat_minus_64: "64 \<le> unat (sz :: u64) \<Longrightarrow> unat (sz - 64) = unat sz - 64"
  by (subst unat_sub) (simp_all add: word_le_nat_alt)

termination scan_words
  by (relation "measure (\<lambda>(test, m, a, p, result, sz). unat sz)")
    (auto simp: size_words unat_minus_64 not_less)

declare scan_words.simps [simp del]

definition set_tail :: "u64 \<Rightarrow> u64 \<Rightarrow> u64 \<Rightarrow> u64" where
  "set_tail tmp result sz =
     (let tmp = tmp AND drop_bit (unat (64 - sz)) (NOT 0)
      in if tmp = 0 then result + sz else result + uu_ffs tmp)"

definition find_next_bit :: "addr \<Rightarrow> u64 \<Rightarrow> u64 \<Rightarrow> store \<Rightarrow> u64 option" where
  "find_next_bit a sz offset m = (let p = unat (offset div 64); result = offset AND NOT 63 in
     if offset \<ge> sz then Some sz else
     let sz = sz - result; offset = offset mod 64;
         search = (\<lambda>p result sz. do {
           r \<leftarrow> scan_words (\<lambda>tmp. tmp \<noteq> 0) m a p result sz;
           case r of Hit tmp result \<Rightarrow> Some (result + uu_ffs tmp)
           | Rest p result sz \<Rightarrow> if sz = 0 then Some result
               else do { tmp \<leftarrow> aget m a p; Some (set_tail tmp result sz) } })
     in if offset \<noteq> 0 then do {
          tmp \<leftarrow> aget m a p;
          let tmp = tmp AND push_bit (unat offset) (NOT 0);
          if sz < 64 then Some (set_tail tmp result sz)
          else if tmp \<noteq> 0 then Some (result + uu_ffs tmp)
          else search (Suc p) (result + 64) (sz - 64) }
        else search p result sz)"

definition zero_tail :: "u64 \<Rightarrow> u64 \<Rightarrow> u64 \<Rightarrow> u64" where
  "zero_tail tmp result sz =
     (let tmp = tmp OR push_bit (unat sz) (NOT 0)
      in if tmp = NOT 0 then result + sz else result + ffz tmp)"

definition find_next_zero_bit :: "addr \<Rightarrow> u64 \<Rightarrow> u64 \<Rightarrow> store \<Rightarrow> u64 option" where
  "find_next_zero_bit a sz offset m = (let p = unat (offset div 64); result = offset AND NOT 63 in
     if offset \<ge> sz then Some sz else
     let sz = sz - result; offset = offset mod 64;
         search = (\<lambda>p result sz. do {
           r \<leftarrow> scan_words (\<lambda>tmp. NOT tmp \<noteq> 0) m a p result sz;
           case r of Hit tmp result \<Rightarrow> Some (result + ffz tmp)
           | Rest p result sz \<Rightarrow> if sz = 0 then Some result
               else do { tmp \<leftarrow> aget m a p; Some (zero_tail tmp result sz) } })
     in if offset \<noteq> 0 then do {
          tmp \<leftarrow> aget m a p;
          let tmp = tmp OR drop_bit (unat (64 - offset)) (NOT 0);
          if sz < 64 then Some (zero_tail tmp result sz)
          else if NOT tmp \<noteq> 0 then Some (result + ffz tmp)
          else search (Suc p) (result + 64) (sz - 64) }
        else search p result sz)"

definition find_first_bit :: "addr \<Rightarrow> u64 \<Rightarrow> store \<Rightarrow> u64 option" where
  "find_first_bit a sz m = do {
     r \<leftarrow> scan_words (\<lambda>tmp. tmp \<noteq> 0) m a 0 0 sz;
     case r of Hit tmp result \<Rightarrow> Some (result + uu_ffs tmp)
     | Rest p result sz \<Rightarrow> if sz = 0 then Some result
         else do { tmp \<leftarrow> aget m a p; Some (set_tail tmp result sz) } }"

definition find_first_zero_bit :: "addr \<Rightarrow> u64 \<Rightarrow> store \<Rightarrow> u64 option" where
  "find_first_zero_bit a sz m = do {
     r \<leftarrow> scan_words (\<lambda>tmp. NOT tmp \<noteq> 0) m a 0 0 sz;
     case r of Hit tmp result \<Rightarrow> Some (result + ffz tmp)
     | Rest p result sz \<Rightarrow> if sz = 0 then Some result
         else do { tmp \<leftarrow> aget m a p; Some (zero_tail tmp result sz) } }"

text \<open>\<^verbatim>\<open>fls\<close> takes an \<^verbatim>\<open>int\<close>: the word found is truncated to its low half.\<close>

fun last_words :: "store \<Rightarrow> addr \<Rightarrow> nat \<Rightarrow> u64 \<Rightarrow> u64 option" where
  "last_words m a 0 sz = Some sz"
| "last_words m a (Suc words) sz = do {
     tmp \<leftarrow> aget m a words;
     if tmp \<noteq> 0 then Some (of_nat words * 64 + word_of_int (fls (ucast tmp)))
     else last_words m a words sz }"

definition find_last_bit :: "addr \<Rightarrow> u64 \<Rightarrow> store \<Rightarrow> u64 option" where
  "find_last_bit a sz m = (let words = unat (sz div 64) in
     if sz AND 63 \<noteq> 0 then do {
       w \<leftarrow> aget m a words;
       let tmp = w AND drop_bit (unat (64 - (sz AND 63))) (NOT 0);
       if tmp \<noteq> 0 then Some (of_nat words * 64 + word_of_int (fls (ucast tmp)))
       else last_words m a words sz }
     else last_words m a words sz)"

text \<open>
  \<^verbatim>\<open>for_each_set_bit\<close>, with an \<^verbatim>\<open>unsigned long\<close> cursor; the body sees the store and the caller's
  data and may change both.
\<close>

type_synonym 'd bit_body = "u64 \<Rightarrow> store \<times> 'd \<Rightarrow> (store \<times> 'd) option"

partial_function (option) bit_loop ::
  "(u64 \<Rightarrow> store \<Rightarrow> u64 option) \<Rightarrow> u64 \<Rightarrow> 'd bit_body \<Rightarrow> u64 \<Rightarrow> store \<times> 'd \<Rightarrow> (store \<times> 'd) option" where
  "bit_loop nxt sz body b st =
     (if b < sz then do {
        st \<leftarrow> body b st;
        b' \<leftarrow> nxt (b + 1) (fst st);
        bit_loop nxt sz body b' st }
      else Some st)"

definition for_each_set_bit :: "addr \<Rightarrow> u64 \<Rightarrow> 'd bit_body \<Rightarrow> store \<times> 'd \<Rightarrow> (store \<times> 'd) option" where
  "for_each_set_bit a sz body st = do {
     b \<leftarrow> find_first_bit a sz (fst st);
     bit_loop (find_next_bit a sz) sz body b st }"

end
