(* ===== verification/Bit_Search.thy ===== *)
theory Bit_Search
  imports Bitops
begin

text \<open>
  Correctness of the searches of \<open>Bitops\<close>: the binary search for the first and the last set
  bit of a word, the duality between the searches for set and for clear bits, and the forward
  searches in an array as the least position of a set (clear) bit. The locale \<open>bit_search\<close> is
  the contract of a first/next pair, under which a loop over the pair visits exactly the
  positions of the selected bits, in order; both pairs of the library are interpretations.
\<close>

section \<open>First set bit of a word\<close>

definition ffs_inv :: "u64 \<Rightarrow> nat \<Rightarrow> int \<times> u64 \<Rightarrow> bool" where
  "ffs_inv w K st \<longleftrightarrow> (\<exists>n. st = (int n, drop_bit n w) \<and> (\<forall>i < n. \<not> bit w i) \<and> (\<exists>i < K. bit w (n + i)))"

lemma and_mask_zero: "w AND mask k = 0 \<longleftrightarrow> (\<forall>i < k. \<not> bit w i)" for w :: "'a::len word"
  by (auto simp: bit_eq_iff bit_simps dest: bit_imp_le_length)

lemma ffs_step_inv:
  assumes "ffs_inv w (2 * k) st" and "msk = mask k"
  shows "ffs_inv w k (ffs_step msk k st)"
proof -
  obtain n i where n: "st = (int n, drop_bit n w)" "\<forall>i < n. \<not> bit w i" "i < 2 * k" "bit w (n + i)"
    using assms(1) by (auto simp: ffs_inv_def)
  show ?thesis
  proof (cases "drop_bit n w AND mask k = 0")
    case True
    then have z: "\<forall>i < k. \<not> bit w (n + i)" by (simp add: and_mask_zero bit_drop_bit_eq)
    then have "k \<le> i" using n(4) by (meson not_le)
    then have "bit w (n + k + (i - k))" "i - k < k" using n by simp_all
    moreover have "\<not> bit w j" if "j < n + k" for j
      using n(2) z that by (metis add_diff_inverse_nat nat_add_left_cancel_less)
    moreover have "ffs_step msk k st = (int (n + k), drop_bit (n + k) w)"
      using n(1) True assms(2) by (simp add: ffs_step_def add.commute)
    ultimately show ?thesis unfolding ffs_inv_def by blast
  next
    case False
    then obtain j where "j < k" "bit w (n + j)" by (auto simp: and_mask_zero bit_drop_bit_eq)
    then show ?thesis using n False assms(2) by (auto simp: ffs_inv_def ffs_step_def)
  qed
qed

lemma uu_ffs_first:
  assumes "w \<noteq> 0"
  obtains n where "uu_ffs w = of_nat n" and "n < 64" and "bit w n" and "\<forall>i < n. \<not> bit w i"
proof -
  define s1 where "s1 = ffs_step 0xffffffff 32 (0, w)"
  define s2 where "s2 = ffs_step 0xffff 16 s1"
  define s3 where "s3 = ffs_step 0xff 8 s2"
  define s4 where "s4 = ffs_step 0xf 4 s3"
  define s5 where "s5 = ffs_step 0x3 2 s4"
  have "ffs_inv w 64 (0, w)" using assms by (auto simp: ffs_inv_def word_neq0_bit)
  then have "ffs_inv w 32 s1" unfolding s1_def
    by (intro ffs_step_inv) (simp_all add: mask_eq_exp_minus_1)
  then have "ffs_inv w 16 s2" unfolding s2_def
    by (intro ffs_step_inv) (simp_all add: mask_eq_exp_minus_1)
  then have "ffs_inv w 8 s3" unfolding s3_def
    by (intro ffs_step_inv) (simp_all add: mask_eq_exp_minus_1)
  then have "ffs_inv w 4 s4" unfolding s4_def
    by (intro ffs_step_inv) (simp_all add: mask_eq_exp_minus_1)
  then have "ffs_inv w 2 s5" unfolding s5_def
    by (intro ffs_step_inv) (simp_all add: mask_eq_exp_minus_1)
  then obtain n i where n: "s5 = (int n, drop_bit n w)" "\<forall>i < n. \<not> bit w i" "i < 2" "bit w (n + i)"
    by (auto simp: ffs_inv_def)
  have ffs: "uu_ffs w = word_of_int (if drop_bit n w AND 1 = 0 then int n + 1 else int n)"
    using n(1) by (simp add: uu_ffs_def Let_def s1_def s2_def s3_def s4_def s5_def)
  have b0: "drop_bit n w AND 1 = 0 \<longleftrightarrow> \<not> bit w n"
    using and_mask_zero [of "drop_bit n w" 1] by (simp add: bit_drop_bit_eq)
  show thesis
  proof (cases "bit w n")
    case True
    then show thesis using that [of n] n(2) ffs b0 bit_imp_le_length [OF True] by simp
  next
    case False
    then have "i = 1" using n(3,4) by (cases i) auto
    then have b: "bit w (Suc n)" using n(4) by simp
    have z: "\<forall>j < Suc n. \<not> bit w j" using n(2) False by (auto simp: less_Suc_eq)
    have e: "uu_ffs w = of_nat (Suc n)" using ffs b0 False by (simp add: add.commute)
    show thesis using that [OF e] b z bit_imp_le_length [OF b] by simp
  qed
qed

section \<open>Last set bit of a word\<close>

definition fls_inv :: "u32 \<Rightarrow> nat \<Rightarrow> int \<times> u32 \<Rightarrow> bool" where
  "fls_inv x K st \<longleftrightarrow> (\<exists>n \<le> 32. st = (int n, push_bit (32 - n) x) \<and>
     (\<forall>i \<ge> n. \<not> bit x i) \<and> (\<exists>i < n. n \<le> i + K \<and> bit x i))"

lemma fls_step_inv:
  assumes "fls_inv x (2 * k) st" and msk: "\<And>i. bit msk i \<longleftrightarrow> 32 - k \<le> i \<and> i < 32" and k: "0 < k" "k \<le> 16"
  shows "fls_inv x k (fls_step msk k st)"
proof -
  obtain n i where n: "n \<le> 32" "st = (int n, push_bit (32 - n) x)" "\<forall>i \<ge> n. \<not> bit x i"
      "i < n" "n \<le> i + 2 * k" "bit x i"
    using assms(1) unfolding fls_inv_def by blast
  have z: "push_bit (32 - n) x AND msk = 0 \<longleftrightarrow> (\<forall>j. n \<le> j + k \<and> j < n \<longrightarrow> \<not> bit x j)"
  proof -
    have "push_bit (32 - n) x AND msk = 0 \<longleftrightarrow>
        (\<forall>l < 32. 32 - k \<le> l \<longrightarrow> 32 - n \<le> l \<longrightarrow> \<not> bit x (l - (32 - n)))"
      by (subst bit_word_zero_iff) (auto simp: bit_simps msk)
    also have "\<dots> \<longleftrightarrow> (\<forall>j. n \<le> j + k \<and> j < n \<longrightarrow> \<not> bit x j)"
    proof (intro iffI allI impI)
      fix j assume a: "\<forall>l < 32. 32 - k \<le> l \<longrightarrow> 32 - n \<le> l \<longrightarrow> \<not> bit x (l - (32 - n))"
        and j: "n \<le> j + k \<and> j < n"
      have "j + (32 - n) < 32" "32 - k \<le> j + (32 - n)" using j n(1) by arith+
      then show "\<not> bit x j" using a [rule_format, of "j + (32 - n)"] by simp
    next
      fix l :: nat assume a: "\<forall>j. n \<le> j + k \<and> j < n \<longrightarrow> \<not> bit x j" and l: "l < 32" "32 - k \<le> l" "32 - n \<le> l"
      have "n \<le> l - (32 - n) + k" "l - (32 - n) < n" using l n(1) by arith+
      then show "\<not> bit x (l - (32 - n))" using a by blast
    qed
    finally show ?thesis .
  qed
  show ?thesis
  proof (cases "push_bit (32 - n) x AND msk = 0")
    case True
    then have h: "\<forall>j. n \<le> j + k \<and> j < n \<longrightarrow> \<not> bit x j" using z by blast
    then have ik: "i + k < n" using n(4,6) by (meson not_le)
    have "fls_step msk k st = (int (n - k), push_bit (32 - (n - k)) x)"
      using n(1,2) True ik by (simp add: fls_step_def add.commute of_nat_diff)
    moreover have "\<forall>j \<ge> n - k. \<not> bit x j" using h n(3) by (metis le_diff_conv not_le)
    moreover have "i < n - k" "n - k \<le> i + k" "n - k \<le> 32" using ik n by auto
    ultimately show ?thesis unfolding fls_inv_def using n(6) by blast
  next
    case False
    then obtain j where "n \<le> j + k" "j < n" "bit x j" using z by blast
    moreover have "fls_step msk k st = st" using n(2) False by (simp add: fls_step_def)
    ultimately show ?thesis unfolding fls_inv_def using n(1-3) by blast
  qed
qed

lemma bit_top_masks:
  "bit (0xffff0000 :: u32) i \<longleftrightarrow> 32 - 16 \<le> i \<and> i < 32" "bit (0xff000000 :: u32) i \<longleftrightarrow> 32 - 8 \<le> i \<and> i < 32"
  "bit (0xf0000000 :: u32) i \<longleftrightarrow> 32 - 4 \<le> i \<and> i < 32" "bit (0xc0000000 :: u32) i \<longleftrightarrow> 32 - 2 \<le> i \<and> i < 32"
  "bit (0x80000000 :: u32) i \<longleftrightarrow> 32 - 1 \<le> i \<and> i < 32"
proof -
  have e: "bit (push_bit n (mask (32 - n)) :: u32) i \<longleftrightarrow> n \<le> i \<and> i < 32" if "n \<le> 32" for n i
    using that by (auto simp: bit_simps)
  show "bit (0xffff0000 :: u32) i \<longleftrightarrow> 32 - 16 \<le> i \<and> i < 32"
    using e [of 16 i] by (simp add: mask_eq_exp_minus_1 push_bit_eq_mult)
  show "bit (0xff000000 :: u32) i \<longleftrightarrow> 32 - 8 \<le> i \<and> i < 32"
    using e [of 24 i] by (simp add: mask_eq_exp_minus_1 push_bit_eq_mult)
  show "bit (0xf0000000 :: u32) i \<longleftrightarrow> 32 - 4 \<le> i \<and> i < 32"
    using e [of 28 i] by (simp add: mask_eq_exp_minus_1 push_bit_eq_mult)
  show "bit (0xc0000000 :: u32) i \<longleftrightarrow> 32 - 2 \<le> i \<and> i < 32"
    using e [of 30 i] by (simp add: mask_eq_exp_minus_1 push_bit_eq_mult)
  show "bit (0x80000000 :: u32) i \<longleftrightarrow> 32 - 1 \<le> i \<and> i < 32"
    using e [of 31 i] by (simp add: mask_eq_exp_minus_1 push_bit_eq_mult)
qed

lemma fls64_first:
  assumes "x \<noteq> 0"
  obtains n where "fls64 x = int (Suc n)" and "n < 64" and "bit x n" and "\<forall>i < n. \<not> bit x i"
proof -
  obtain n where n: "uu_ffs x = of_nat n" "n < 64" "bit x n" "\<forall>i < n. \<not> bit x i"
    using assms by (rule uu_ffs_first)
  have "uu_ffs x + 1 = of_nat (Suc n)" using n(1) by (simp add: add.commute)
  moreover have "uint (of_nat (Suc n) :: u64) = int (Suc n)"
    unfolding unsigned_of_nat using n(2) by (simp add: take_bit_eq_mod)
  ultimately have "fls64 x = int (Suc n)" unfolding fls64_def using assms by presburger
  then show ?thesis using n that by blast
qed

lemma fls_last:
  assumes "x \<noteq> 0"
  obtains n where "fls x = int (Suc n)" and "bit x n" and "\<forall>i > n. \<not> bit x i"
proof -
  define s1 where "s1 = fls_step 0xffff0000 16 (32, x)"
  define s2 where "s2 = fls_step 0xff000000 8 s1"
  define s3 where "s3 = fls_step 0xf0000000 4 s2"
  define s4 where "s4 = fls_step 0xc0000000 2 s3"
  define s5 where "s5 = fls_step 0x80000000 1 s4"
  obtain i where "i < 32" "bit x i" using assms by (auto simp: word_neq0_bit)
  then have "fls_inv x 32 (32, x)"
    unfolding fls_inv_def by (intro exI [of _ 32]) (auto dest: bit_imp_le_length)
  then have "fls_inv x 16 s1" unfolding s1_def
    by (intro fls_step_inv bit_top_masks) simp_all
  then have "fls_inv x 8 s2" unfolding s2_def
    by (intro fls_step_inv bit_top_masks) simp_all
  then have "fls_inv x 4 s3" unfolding s3_def
    by (intro fls_step_inv bit_top_masks) simp_all
  then have "fls_inv x 2 s4" unfolding s4_def
    by (intro fls_step_inv bit_top_masks) simp_all
  then have "fls_inv x 1 s5" unfolding s5_def
    by (intro fls_step_inv bit_top_masks) simp_all
  then obtain n i where n: "s5 = (int n, push_bit (32 - n) x)" "\<forall>i \<ge> n. \<not> bit x i" "i < n" "n \<le> i + 1" "bit x i"
    unfolding fls_inv_def by blast
  have "n = Suc i" using n(3,4) by simp
  moreover have "fls x = int n"
    using assms n(1) by (simp add: fls_def Let_def s1_def s2_def s3_def s4_def s5_def)
  ultimately show thesis using that [of i] n(2,5) by simp
qed

section \<open>Clear bits are the set bits of the complement\<close>

definition compl_store :: "store \<Rightarrow> store" where
  "compl_store m p = map_option (map (\<lambda>w. NOT w)) (m p)"

lemma aget_compl: "aget (compl_store m) a k = map_option (\<lambda>w. NOT w) (aget m a k)"
  by (simp add: aget_def compl_store_def split: option.splits)

lemma drop_bit_ones: "drop_bit n (- 1 :: 'a::len word) = mask (LENGTH('a) - n)"
  by (rule bit_word_eqI) (auto simp: bit_simps)

lemma push_bit_ones: "push_bit n (- 1 :: 'a::len word) = NOT (mask n)"
  by (rule bit_word_eqI) (auto simp: bit_simps)

lemma shift_amount:
  assumes "unat sz < 64" and "sz \<noteq> (0 :: u64)"
  shows "unat (64 - sz) = 64 - unat sz"
  using assms by (subst unat_sub) (simp_all add: word_le_nat_alt)

lemma or_not_mask:
  "tmp OR NOT (mask n) = NOT 0 \<longleftrightarrow> NOT tmp AND mask n = 0"
  "NOT (tmp OR NOT (mask n)) = NOT tmp AND mask n" for tmp :: u64
proof -
  show e: "NOT (tmp OR NOT (mask n)) = NOT tmp AND mask n"
    by (rule bit_word_eqI) (auto simp: bit_simps)
  show "tmp OR NOT (mask n) = NOT 0 \<longleftrightarrow> NOT tmp AND mask n = 0"
    unfolding e [symmetric] by (metis bit.double_compl)
qed

lemma tail_masks:
  assumes "unat sz < 64" and "sz \<noteq> (0 :: u64)"
  shows "drop_bit (unat (64 - sz)) (NOT 0 :: u64) = mask (unat sz)"
    and "push_bit (unat sz) (NOT 0 :: u64) = NOT (mask (unat sz))"
  using assms by (simp_all add: drop_bit_ones push_bit_ones shift_amount)

lemma zero_tail_dual:
  assumes "unat sz < 64" and "sz \<noteq> 0"
  shows "zero_tail tmp result sz = set_tail (NOT tmp) result sz"
  unfolding zero_tail_def set_tail_def ffz_def Let_def tail_masks [OF assms] or_not_mask ..

fun scan_compl :: "scan \<Rightarrow> scan" where
  "scan_compl (Hit tmp result) = Hit (NOT tmp) result"
| "scan_compl (Rest p result sz) = Rest p result sz"

lemma scan_words_dual:
  "scan_words (\<lambda>tmp. tmp \<noteq> 0) (compl_store m) a p result sz =
   map_option scan_compl (scan_words (\<lambda>tmp. NOT tmp \<noteq> 0) m a p result sz)"
proof (induction "\<lambda>tmp :: u64. NOT tmp \<noteq> 0" m a p result sz rule: scan_words.induct)
  case (1 m a p result sz)
  show ?case
    using 1 scan_words.simps [of "\<lambda>tmp. tmp \<noteq> 0" "compl_store m" a p result sz]
      scan_words.simps [of "\<lambda>tmp. NOT tmp \<noteq> 0" m a p result sz]
    by (cases "aget m a p") (simp_all add: aget_compl)
qed

lemma scan_words_rest: "scan_words test m a p result sz = Some (Rest p' result' sz') \<Longrightarrow> unat sz' < 64"
proof (induction test m a p result sz rule: scan_words.induct)
  case (1 test m a p result sz)
  from 1(2) show ?case
    unfolding scan_words.simps [of test m a p result sz]
    by (auto simp: size_words bind_Some_eq split: if_splits intro: 1(1))
qed

lemma search_dual:
  "do { r \<leftarrow> scan_words (\<lambda>tmp. NOT tmp \<noteq> 0) m a p result sz;
        case r of Hit tmp result \<Rightarrow> Some (result + ffz tmp)
        | Rest p result sz \<Rightarrow> if sz = 0 then Some result
            else do { tmp \<leftarrow> aget m a p; Some (zero_tail tmp result sz) } } =
   do { r \<leftarrow> scan_words (\<lambda>tmp. tmp \<noteq> 0) (compl_store m) a p result sz;
        case r of Hit tmp result \<Rightarrow> Some (result + uu_ffs tmp)
        | Rest p result sz \<Rightarrow> if sz = 0 then Some result
            else do { tmp \<leftarrow> aget (compl_store m) a p; Some (set_tail tmp result sz) } }"
proof (cases "scan_words (\<lambda>tmp. NOT tmp \<noteq> 0) m a p result sz")
  case (Some r)
  show ?thesis
  proof (cases r)
    case (Hit tmp res)
    then show ?thesis using Some by (simp add: scan_words_dual ffz_def)
  next
    case (Rest p' res sz')
    have "unat sz' < 64" using scan_words_rest Some Rest by blast
    then show ?thesis using Some Rest
      by (cases "aget m a p'") (simp_all add: scan_words_dual aget_compl zero_tail_dual)
  qed
qed (simp add: scan_words_dual)

lemma find_first_zero_bit_dual: "find_first_zero_bit a sz m = find_first_bit a sz (compl_store m)"
  unfolding find_first_zero_bit_def find_first_bit_def by (rule search_dual)

lemma find_next_zero_bit_dual: "find_next_zero_bit a sz off m = find_next_bit a sz off (compl_store m)"
proof -
  have o: "unat (off mod 64) < 64" by (simp add: unat_mod)
  have t: "zero_tail tmp res sz' = set_tail (NOT tmp) res sz'" if "sz' < 64" "\<not> off \<ge> sz" "sz' = sz - (off AND NOT 63)" for tmp res sz'
  proof (rule zero_tail_dual)
    show "unat sz' < 64" using that by (simp add: word_less_nat_alt)
    have "off AND NOT 63 \<le> off" unfolding word_le_nat_alt unat_and_not_63 by simp
    then show "sz' \<noteq> 0" using that by auto
  qed
  have m: "drop_bit (unat (64 - off mod 64)) (NOT 0) = (mask (unat (off mod 64)) :: u64)"
      "push_bit (unat (off mod 64)) (NOT 0) = NOT (mask (unat (off mod 64)) :: u64)" if "off mod 64 \<noteq> 0"
    using tail_masks [OF o] that by simp_all
  have n: "NOT (tmp OR mask k) = NOT tmp AND NOT (mask k)" for tmp :: u64 and k by simp
  show ?thesis
    unfolding find_next_zero_bit_def find_next_bit_def search_dual Let_def aget_compl
    using o by (cases "off mod 64 = 0"; cases "aget m a (unat (off div 64))")
      (simp_all add: m t n ffz_def shift_amount)
qed

section \<open>Bits of an array\<close>

definition bm :: "u64 list \<Rightarrow> nat \<Rightarrow> bool" where
  "bm ws i \<longleftrightarrow> bit (ws ! (i div 64)) (i mod 64)"

lemma bm_word: "j < 64 \<Longrightarrow> bm ws (64 * p + j) \<longleftrightarrow> bit (ws ! p) j"
  by (simp add: bm_def)

text \<open>
  \<open>is_next P n i r\<close>: \<open>r\<close> is the first position from \<open>i\<close> on that \<open>P\<close> selects, or \<open>n\<close> when there
  is none before \<open>n\<close>.
\<close>

definition is_next :: "(nat \<Rightarrow> bool) \<Rightarrow> nat \<Rightarrow> nat \<Rightarrow> nat \<Rightarrow> bool" where
  "is_next P n i r \<longleftrightarrow> i \<le> r \<and> r \<le> n \<and> (\<forall>j. i \<le> j \<and> j < r \<longrightarrow> \<not> P j) \<and> (r < n \<longrightarrow> P r)"

lemma is_next_skip:
  "is_next P n k r \<Longrightarrow> i \<le> k \<Longrightarrow> (\<And>j. i \<le> j \<Longrightarrow> j < k \<Longrightarrow> \<not> P j) \<Longrightarrow> is_next P n i r"
  unfolding is_next_def by (meson le_trans not_le)

lemma is_next_word:
  assumes "b < 64" and "t \<le> 64" and "b \<le> t" and "\<And>j. b \<le> j \<Longrightarrow> j < t \<Longrightarrow> \<not> bit (ws ! p) j"
    and "t < 64 \<Longrightarrow> 64 * p + t < n \<Longrightarrow> bit (ws ! p) t" and "64 * p + t \<le> n" and "t = 64 \<Longrightarrow> 64 * p + t = n"
  shows "is_next (bm ws) n (64 * p + b) (64 * p + t)"
  unfolding is_next_def
proof (intro conjI allI impI)
  fix j assume j: "64 * p + b \<le> j \<and> j < 64 * p + t"
  then have "b \<le> j - 64 * p" "j - 64 * p < t" by arith+
  then show "\<not> bm ws j" using bm_word [of "j - 64 * p" ws p] assms(2,4) j by simp
next
  assume "64 * p + t < n"
  then show "bm ws (64 * p + t)" using assms(2,5,7) bm_word [of t ws p] by (cases "t = 64") auto
qed (use assms in simp_all)

lemma set_tail_word:
  assumes sz: "unat sz < 64" "sz \<noteq> 0" and r: "result = of_nat (64 * p)"
    and b: "b < unat sz" and tmp: "tmp = ws ! p AND NOT (mask b)" and n: "n = 64 * p + unat sz"
  shows "\<exists>R. set_tail tmp result sz = of_nat R \<and> is_next (bm ws) n (64 * p + b) R"
proof (cases "tmp AND mask (unat sz) = 0")
  case True
  then have z: "\<not> bit (ws ! p) j" if "b \<le> j" "j < unat sz" for j
    using that sz(1) unfolding and_mask_zero tmp by (auto simp: bit_simps)
  have "is_next (bm ws) n (64 * p + b) (64 * p + unat sz)"
    by (rule is_next_word) (use sz b n z in auto)
  moreover have "set_tail tmp result sz = of_nat (64 * p + unat sz)"
    using True r by (simp add: set_tail_def tail_masks [OF sz] del: bit.compl_zero)
  ultimately show ?thesis by blast
next
  case False
  then obtain t where t: "uu_ffs (tmp AND mask (unat sz)) = of_nat t" "t < 64" "bit (tmp AND mask (unat sz)) t"
      "\<forall>i < t. \<not> bit (tmp AND mask (unat sz)) i" by (rule uu_ffs_first)
  have tb: "b \<le> t" "t < unat sz" "bit (ws ! p) t" using t(3) by (auto simp: tmp bit_simps)
  have z: "\<not> bit (ws ! p) j" if "b \<le> j" "j < t" for j
    using t(4) that tb(2) sz(1) by (auto simp: tmp bit_simps)
  have "is_next (bm ws) n (64 * p + b) (64 * p + t)"
    by (rule is_next_word) (use sz b n z tb in auto)
  moreover have "set_tail tmp result sz = of_nat (64 * p + t)"
    using False r t(1) by (simp add: set_tail_def tail_masks [OF sz] del: bit.compl_zero)
  ultimately show ?thesis by blast
qed

lemma search_spec:
  assumes "m a = Some ws" and "result = of_nat (64 * p)" and "64 * p + unat sz \<le> 64 * length ws"
  shows "\<exists>R. do { r \<leftarrow> scan_words (\<lambda>tmp. tmp \<noteq> 0) m a p result sz;
        case r of Hit tmp result \<Rightarrow> Some (result + uu_ffs tmp)
        | Rest p result sz \<Rightarrow> if sz = 0 then Some result
            else do { tmp \<leftarrow> aget m a p; Some (set_tail tmp result sz) } } = Some (of_nat R) \<and>
     is_next (bm ws) (64 * p + unat sz) (64 * p) R"
  using assms
proof (induction "\<lambda>tmp :: u64. tmp \<noteq> 0" m a p result sz rule: scan_words.induct)
  case (1 m a p result sz)
  note rec = scan_words.simps [of "\<lambda>tmp. tmp \<noteq> 0" m a p result sz]
  show ?case
  proof (cases "64 \<le> unat sz")
    case True
    then have g: "aget m a p = Some (ws ! p)" using 1(2,4) by (simp add: arr_simps)
    have sw: "sz AND - 64 \<noteq> 0" using True by (simp add: size_words)
    show ?thesis
    proof (cases "ws ! p = 0")
      case False
      then obtain t where t: "uu_ffs (ws ! p) = of_nat t" "t < 64" "bit (ws ! p) t" "\<forall>i < t. \<not> bit (ws ! p) i"
        by (rule uu_ffs_first)
      have "is_next (bm ws) (64 * p + unat sz) (64 * p + 0) (64 * p + t)"
        by (rule is_next_word) (use t True in auto)
      then show ?thesis using rec g sw False 1(3) t(1) by (intro exI [of _ "64 * p + t"]) simp
    next
      case True': True
      have n: "64 * p + unat sz = 64 * Suc p + unat (sz - 64)" using True by (simp add: unat_minus_64)
      obtain R where R: "do { r \<leftarrow> scan_words (\<lambda>tmp. tmp \<noteq> 0) m a (Suc p) (result + 64) (sz - 64);
          case r of Hit tmp result \<Rightarrow> Some (result + uu_ffs tmp)
          | Rest p result sz \<Rightarrow> if sz = 0 then Some result
              else do { tmp \<leftarrow> aget m a p; Some (set_tail tmp result sz) } } = Some (of_nat R)"
          "is_next (bm ws) (64 * Suc p + unat (sz - 64)) (64 * Suc p) R"
        using 1(1) [of "ws ! p"] 1(2-4) g sw True' n by (auto simp: algebra_simps)
      have "\<not> bm ws j" if "64 * p \<le> j" "j < 64 * Suc p" for j
        using bm_word [of "j - 64 * p" ws p] that True' by simp
      then have "is_next (bm ws) (64 * p + unat sz) (64 * p) R"
        using R(2) unfolding n by (auto intro: is_next_skip)
      then show ?thesis using R(1) rec g sw True' by (intro exI [of _ R]) simp
    qed
  next
    case False
    then have sw: "sz AND - 64 = 0" by (simp add: size_words)
    show ?thesis
    proof (cases "sz = 0")
      case True
      then show ?thesis using rec sw 1(3) by (intro exI [of _ "64 * p"]) (auto simp: is_next_def)
    next
      case sz: False
      then have "0 < unat sz" by (simp add: unat_gt_0)
      moreover then have g: "aget m a p = Some (ws ! p)" using 1(2,4) by (simp add: arr_simps)
      ultimately obtain R where "set_tail (ws ! p) result sz = of_nat R"
          "is_next (bm ws) (64 * p + unat sz) (64 * p + 0) R"
        using set_tail_word [of sz result p 0 "ws ! p" ws] False sz 1(3) by auto
      then show ?thesis using rec sw sz g by (intro exI [of _ R]) simp
    qed
  qed
qed

lemma find_first_bit_spec:
  assumes "m a = Some ws" and "unat sz \<le> 64 * length ws"
  shows "\<exists>R. find_first_bit a sz m = Some R \<and> is_next (bm ws) (unat sz) 0 (unat R)"
proof -
  obtain R where "find_first_bit a sz m = Some (of_nat R)" "is_next (bm ws) (unat sz) 0 R"
    using search_spec [of m a ws 0 0 sz] assms unfolding find_first_bit_def by auto
  moreover have "unat (of_nat R :: u64) = R"
    using calculation(2) by (intro unat_of_nat_le [of _ sz]) (simp add: is_next_def)
  ultimately show ?thesis by auto
qed

text \<open>The first word of a search that does not start at its beginning, with the bits below the start masked out.\<close>

lemma first_word_spec:
  assumes a: "m a = Some ws" and le: "64 * p + unat sz \<le> 64 * length ws" and b: "b < unat sz" "b < 64"
    and tmp: "tmp = ws ! p AND NOT (mask b)"
  shows "\<exists>R. (if sz < 64 then Some (set_tail tmp (of_nat (64 * p)) sz)
        else if tmp \<noteq> 0 then Some (of_nat (64 * p) + uu_ffs tmp)
        else do { r \<leftarrow> scan_words (\<lambda>tmp. tmp \<noteq> 0) m a (Suc p) (of_nat (64 * p) + 64) (sz - 64);
          case r of Hit tmp result \<Rightarrow> Some (result + uu_ffs tmp)
          | Rest p result sz \<Rightarrow> if sz = 0 then Some result
              else do { tmp \<leftarrow> aget m a p; Some (set_tail tmp result sz) } }) = Some (of_nat R) \<and>
    is_next (bm ws) (64 * p + unat sz) (64 * p + b) R"
proof -
  consider "unat sz < 64" | "64 \<le> unat sz" "tmp \<noteq> 0" | "64 \<le> unat sz" "tmp = 0" by linarith
  then show ?thesis
  proof cases
    case 1
    then have "sz \<noteq> 0" "sz < 64" using b(1) by (auto simp: word_less_nat_alt)
    then show ?thesis using set_tail_word [of sz _ p b tmp ws] 1 b tmp by auto
  next
    case 2
    obtain t where t: "uu_ffs tmp = of_nat t" "t < 64" "bit tmp t" "\<forall>i < t. \<not> bit tmp i"
      using 2(2) by (rule uu_ffs_first)
    have tb: "b \<le> t" "bit (ws ! p) t" using t(3) by (auto simp: tmp bit_simps)
    have z: "\<not> bit (ws ! p) j" if "b \<le> j" "j < t" for j using t(2,4) that by (auto simp: tmp bit_simps)
    have "is_next (bm ws) (64 * p + unat sz) (64 * p + b) (64 * p + t)"
      by (rule is_next_word) (use t tb z b 2 in auto)
    then show ?thesis using 2 t(1) by (intro exI [of _ "64 * p + t"]) (simp add: word_less_nat_alt not_less)
  next
    case 3
    have "\<not> bit (ws ! p) j" if "b \<le> j" "j < 64" for j using 3(2) that by (auto simp: tmp bit_word_zero_iff bit_simps)
    then have z: "\<not> bm ws j" if "64 * p + b \<le> j" "j < 64 * Suc p" for j using bm_word [of "j - 64 * p" ws p] that by simp
    have n: "64 * p + unat sz = 64 * Suc p + unat (sz - 64)" using 3 by (simp add: unat_minus_64)
    have ge: "\<not> sz < 64" using 3(1) by (simp add: word_less_nat_alt)
    obtain R where R: "do { r \<leftarrow> scan_words (\<lambda>tmp. tmp \<noteq> 0) m a (Suc p) (of_nat (64 * p) + 64) (sz - 64);
        case r of Hit tmp result \<Rightarrow> Some (result + uu_ffs tmp)
        | Rest p result sz \<Rightarrow> if sz = 0 then Some result
            else do { tmp \<leftarrow> aget m a p; Some (set_tail tmp result sz) } } = Some (of_nat R)"
        "is_next (bm ws) (64 * p + unat sz) (64 * Suc p) R"
      using search_spec [of m a ws "of_nat (64 * p) + 64" "Suc p" "sz - 64"] a le unfolding n by auto
    have "is_next (bm ws) (64 * p + unat sz) (64 * p + b) R" by (rule is_next_skip [OF R(2)]) (use z b(2) in auto)
    then show ?thesis using R(1) 3(2) ge by auto
  qed
qed

lemma find_next_bit_spec:
  assumes a: "m a = Some ws" and le: "unat sz \<le> 64 * length ws" and lt: "off < sz"
  shows "\<exists>R. find_next_bit a sz off m = Some R \<and> is_next (bm ws) (unat sz) (unat off) (unat R)"
proof -
  define p b where "p = unat off div 64" and "b = unat off mod 64"
  then have off: "unat off = 64 * p + b" "b < 64" by simp_all
  have res: "off AND NOT 63 = of_nat (64 * p)" unfolding p_def using unat_and_not_63 by (rule word_of_unat)
  have ltn: "64 * p + b < unat sz" using lt off by (simp add: word_less_nat_alt)
  have un: "unat (of_nat (64 * p) :: u64) = 64 * p" using unat_and_not_63 [of off] res by (simp add: p_def)
  define sz1 where "sz1 = sz - (off AND NOT 63)"
  have "of_nat (64 * p) \<le> sz" unfolding word_le_nat_alt un using ltn by linarith
  then have "unat sz1 = unat sz - 64 * p" by (simp only: sz1_def res unat_sub un)
  then have sz1: "unat sz = 64 * p + unat sz1" "b < unat sz1" using ltn by simp_all
  have pd: "unat (off div 64) = p" "unat (off mod 64) = b" by (simp_all add: unat_div unat_mod p_def b_def)
  have g: "aget m a p = Some (ws ! p)" using a le ltn by (simp add: arr_simps)
  have "\<exists>R. find_next_bit a sz off m = Some (of_nat R) \<and> is_next (bm ws) (unat sz) (64 * p + b) R"
  proof (cases "b = 0")
    case True
    then have "off mod 64 = 0" using pd(2) by (metis unat_eq_0)
    then show ?thesis
      using search_spec [of m a ws "off AND NOT 63" p sz1] a res le sz1 lt [folded not_le] pd True
      unfolding find_next_bit_def Let_def sz1_def [symmetric] by (simp del: word_not_simps)
  next
    case False
    then have o: "off mod 64 \<noteq> 0" using pd(2) by (metis unat_eq_0)
    have mk: "push_bit (unat (off mod 64)) (NOT 0) = NOT (mask b :: u64)" using pd(2) by (simp add: push_bit_ones)
    have "find_next_bit a sz off m =
       (if sz1 < 64 then Some (set_tail (ws ! p AND NOT (mask b)) (of_nat (64 * p)) sz1)
        else if ws ! p AND NOT (mask b) \<noteq> 0 then Some (of_nat (64 * p) + uu_ffs (ws ! p AND NOT (mask b)))
        else do { r \<leftarrow> scan_words (\<lambda>tmp. tmp \<noteq> 0) m a (Suc p) (of_nat (64 * p) + 64) (sz1 - 64);
          case r of Hit tmp result \<Rightarrow> Some (result + uu_ffs tmp)
          | Rest p result sz \<Rightarrow> if sz = 0 then Some result
              else do { tmp \<leftarrow> aget m a p; Some (set_tail tmp result sz) } })"
      using lt [folded not_le] o g pd(1) res unfolding find_next_bit_def Let_def sz1_def [symmetric] mk by simp
    then show ?thesis using first_word_spec [of m a ws p sz1 b, OF a _ sz1(2) off(2) refl] le sz1(1) by simp
  qed
  then obtain R where R: "find_next_bit a sz off m = Some (of_nat R)" "is_next (bm ws) (unat sz) (unat off) R"
    using off by auto
  moreover have "unat (of_nat R :: u64) = R" using R(2) by (intro unat_of_nat_le [of _ sz]) (simp add: is_next_def)
  ultimately show ?thesis by auto
qed

lemma find_next_bit_end: "sz \<le> off \<Longrightarrow> find_next_bit a sz off m = Some sz"
  by (simp add: find_next_bit_def Let_def)

lemma bm_compl:
  assumes "i < 64 * length ws"
  shows "bm (map (\<lambda>w. NOT w) ws) i \<longleftrightarrow> \<not> bm ws i"
proof -
  have "i div 64 < length ws" using assms by (simp add: less_mult_imp_div_less mult.commute)
  then show ?thesis by (simp add: bm_def bit_not_iff)
qed

lemma is_next_cong: "n \<le> k \<Longrightarrow> (\<And>j. j < k \<Longrightarrow> P j = Q j) \<Longrightarrow> is_next P n i r = is_next Q n i r"
  unfolding is_next_def by (metis less_le_trans)

section \<open>The contract of a first/next pair\<close>

locale bit_search =
  fixes first :: "addr \<Rightarrow> u64 \<Rightarrow> store \<Rightarrow> u64 option"
    and nxt :: "addr \<Rightarrow> u64 \<Rightarrow> u64 \<Rightarrow> store \<Rightarrow> u64 option"
    and sel :: "u64 list \<Rightarrow> nat \<Rightarrow> bool"
  assumes first_bit: "m a = Some ws \<Longrightarrow> unat sz \<le> 64 * length ws \<Longrightarrow>
      \<exists>R. first a sz m = Some R \<and> is_next (sel ws) (unat sz) 0 (unat R)"
    and next_bit: "m a = Some ws \<Longrightarrow> unat sz \<le> 64 * length ws \<Longrightarrow> off < sz \<Longrightarrow>
      \<exists>R. nxt a sz off m = Some R \<and> is_next (sel ws) (unat sz) (unat off) (unat R)"
    and next_end: "sz \<le> off \<Longrightarrow> nxt a sz off m = Some sz"
begin

lemma first_none:
  assumes "m a = Some ws" and "unat sz \<le> 64 * length ws"
  shows "first a sz m = Some sz \<longleftrightarrow> (\<forall>i < unat sz. \<not> sel ws i)"
proof -
  obtain R where R: "first a sz m = Some R" "is_next (sel ws) (unat sz) 0 (unat R)"
    using first_bit [of m a ws sz] assms by blast
  have "R = sz \<longleftrightarrow> (\<forall>i < unat sz. \<not> sel ws i)"
  proof
    assume "R = sz"
    then show "\<forall>i < unat sz. \<not> sel ws i" using R(2) by (auto simp: is_next_def)
  next
    assume "\<forall>i < unat sz. \<not> sel ws i"
    then show "R = sz" using R(2) unfolding is_next_def by (meson le_neq_trans unsigned_word_eqI)
  qed
  with R(1) show ?thesis by simp
qed

text \<open>
  The body may change the state as long as it keeps an invariant \<open>I\<close> under which the searched
  array stays what it is.
\<close>

lemma loop_visits:
  assumes a: "\<And>st. I st \<Longrightarrow> fst st a = Some ws" and le: "unat sz \<le> 64 * length ws"
    and body: "\<And>b st. b < sz \<Longrightarrow> sel ws (unat b) \<Longrightarrow> I st \<Longrightarrow> body b st = Some (f b st) \<and> I (f b st)"
    and b: "is_next (sel ws) (unat sz) i (unat b)" and I: "I st"
  shows "bit_loop (nxt a sz) sz body b st = Some (fold f (map of_nat (filter (sel ws) [i..<unat sz])) st)"
  using b I
proof (induction "unat sz - unat b" arbitrary: b i st rule: less_induct)
  case less
  have skip: "filter (sel ws) [i..<unat sz] = filter (sel ws) [unat b..<unat sz]"
  proof -
    have "[i..<unat sz] = [i..<unat b] @ [unat b..<unat sz]"
      using less.prems by (metis is_next_def le_add_diff_inverse upt_add_eq_append)
    moreover have "filter (sel ws) [i..<unat b] = []"
      using less.prems by (auto simp: is_next_def filter_empty_conv)
    ultimately show ?thesis by simp
  qed
  show ?case
  proof (cases "b < sz")
    case True
    then have bn: "unat b < unat sz" by (simp add: word_less_nat_alt)
    have sel: "sel ws (unat b)" using less.prems bn by (simp add: is_next_def)
    have step: "body b st = Some (f b st)" "I (f b st)" using body [OF True sel less.prems(2)] by auto
    have a': "fst (f b st) a = Some ws" using a step(2) by blast
    have u: "unat (b + 1) = Suc (unat b)" using bn by (rule unat_Suc)
    have "\<exists>R. nxt a sz (b + 1) (fst (f b st)) = Some R \<and> is_next (sel ws) (unat sz) (Suc (unat b)) (unat R)"
    proof (cases "b + 1 < sz")
      case True
      then show ?thesis using next_bit [of "fst (f b st)" a ws sz "b + 1"] a' le u by simp
    next
      case False
      then have "unat sz = Suc (unat b)" using bn u by (simp add: word_less_nat_alt)
      then show ?thesis using next_end [of sz "b + 1" a "fst (f b st)"] False by (auto simp: is_next_def not_less)
    qed
    then obtain R where R: "nxt a sz (b + 1) (fst (f b st)) = Some R"
        "is_next (sel ws) (unat sz) (Suc (unat b)) (unat R)" by blast
    have "unat sz - unat R < unat sz - unat b" using R(2) bn by (auto simp: is_next_def)
    then have "bit_loop (nxt a sz) sz body R (f b st) =
        Some (fold f (map of_nat (filter (sel ws) [Suc (unat b)..<unat sz])) (f b st))"
      using less.hyps R(2) step(2) by blast
    moreover have "[unat b..<unat sz] = unat b # [Suc (unat b)..<unat sz]" using bn by (rule upt_conv_Cons)
    ultimately show ?thesis using True R(1) step(1) sel word_of_unat [of b]
      by (subst bit_loop.simps) (simp add: skip)
  next
    case False
    then have "unat sz \<le> unat b" by (simp add: word_less_nat_alt)
    then show ?thesis using False by (subst bit_loop.simps) (simp add: skip)
  qed
qed

lemma for_each_visits:
  assumes "\<And>st. I st \<Longrightarrow> fst st a = Some ws" and "unat sz \<le> 64 * length ws"
    and "\<And>b st. b < sz \<Longrightarrow> sel ws (unat b) \<Longrightarrow> I st \<Longrightarrow> body b st = Some (f b st) \<and> I (f b st)" and "I st"
  shows "do { b \<leftarrow> first a sz (fst st); bit_loop (nxt a sz) sz body b st } =
    Some (fold f (map of_nat (filter (sel ws) [0..<unat sz])) st)"
proof -
  obtain R where R: "first a sz (fst st) = Some R" "is_next (sel ws) (unat sz) 0 (unat R)"
    using first_bit [of "fst st" a ws sz] assms by blast
  show ?thesis using loop_visits [OF assms(1-3) R(2) assms(4)] R(1) by simp
qed

end

interpretation set_bits: bit_search find_first_bit find_next_bit bm
  by unfold_locales (rule find_first_bit_spec find_next_bit_spec find_next_bit_end; assumption)+

interpretation clear_bits: bit_search find_first_zero_bit find_next_zero_bit "\<lambda>ws i. \<not> bm ws i"
proof
  fix m :: store and a ws and sz off :: u64
  assume m: "m a = Some ws" and le: "unat sz \<le> 64 * length ws"
  have c: "compl_store m a = Some (map (\<lambda>w. NOT w) ws)" using m by (simp add: compl_store_def)
  have e: "is_next (bm (map (\<lambda>w. NOT w) ws)) (unat sz) i r = is_next (\<lambda>i. \<not> bm ws i) (unat sz) i r" for i r
    using le bm_compl by (rule is_next_cong)
  show "\<exists>R. find_first_zero_bit a sz m = Some R \<and> is_next (\<lambda>i. \<not> bm ws i) (unat sz) 0 (unat R)"
    using find_first_bit_spec [of "compl_store m" a _ sz, OF c] le by (simp add: find_first_zero_bit_dual e)
  show "off < sz \<Longrightarrow> \<exists>R. find_next_zero_bit a sz off m = Some R \<and>
      is_next (\<lambda>i. \<not> bm ws i) (unat sz) (unat off) (unat R)"
    using find_next_bit_spec [of "compl_store m" a _ sz off, OF c] le by (simp add: find_next_zero_bit_dual e)
qed (simp add: find_next_zero_bit_dual find_next_bit_end)

end
