(* ===== verification/Hweight.thy ===== *)
theory Hweight
  imports Bit_Search
begin

text \<open>
  The population count of \<^verbatim>\<open>bitops.h\<close>: \<^verbatim>\<open>hweight64\<close> and \<^verbatim>\<open>hweight32\<close> add neighbouring fields of the word in
  place (1, 2, then 4 bits wide) and then fold the bytes. The proof reads a number as a list of
  digits in base \<open>2 ^ b\<close>; every step replaces the list by the sums of its pairs in base
  \<open>2 ^ (2 b)\<close>, so the sum of the digits stays the number of set bits.
\<close>

section \<open>Numbers as digits\<close>

fun hs :: "nat \<Rightarrow> nat list \<Rightarrow> nat" where
  "hs b [] = 0"
| "hs b (c # cs) = c + 2 ^ b * hs b cs"

fun pairsum :: "nat list \<Rightarrow> nat list" where
  "pairsum (x # y # cs) = (x + y) # pairsum cs"
| "pairsum cs = cs"

text \<open>The mask that keeps every second digit.\<close>

fun alt :: "nat \<Rightarrow> nat \<Rightarrow> nat" where
  "alt b 0 = 0"
| "alt b (Suc n) = (2 ^ b - 1) + 2 ^ (2 * b) * alt b n"

lemma digit_parts: "c < 2 ^ b \<Longrightarrow> take_bit b (c + 2 ^ b * x) = c" "c < 2 ^ b \<Longrightarrow> drop_bit b (c + 2 ^ b * x) = x"
  for c x :: nat
  by (simp_all add: take_bit_eq_mod drop_bit_eq_div)

lemma digit_and:
  fixes c d x y :: nat
  assumes "c < 2 ^ b" and "d < 2 ^ b"
  shows "(c + 2 ^ b * x) AND (d + 2 ^ b * y) = (c AND d) + 2 ^ b * (x AND y)"
proof -
  let ?z = "(c + 2 ^ b * x) AND (d + 2 ^ b * y)"
  have "?z = take_bit b ?z + 2 ^ b * drop_bit b ?z"
    by (simp add: take_bit_eq_mod drop_bit_eq_div)
  then show ?thesis using assms by (simp add: digit_parts del: take_bit_and drop_bit_and add: take_bit_and drop_bit_and)
qed

lemma digit_mask: "c < 2 ^ b \<Longrightarrow> c AND (2 ^ b - 1) = c" for c :: nat
proof -
  have "c AND (2 ^ b - 1) = take_bit b c" by (simp only: take_bit_eq_mask mask_eq_exp_minus_1)
  then show "c < 2 ^ b \<Longrightarrow> ?thesis" by (simp only: take_bit_eq_mod mod_less)
qed

lemma alt_and:
  fixes x y H :: nat
  assumes "x < 2 ^ b" and "y < 2 ^ b"
  shows "(x + 2 ^ b * (y + 2 ^ b * H)) AND alt b (Suc n) = x + 2 ^ (2 * b) * (H AND alt b n)"
proof -
  have "alt b (Suc n) = (2 ^ b - 1) + 2 ^ b * (0 + 2 ^ b * alt b n)"
    by (simp add: power_add mult_2 mult.assoc)
  then show ?thesis
    using assms by (simp only: digit_and zero_less_power diff_less digit_mask)
      (simp add: digit_and digit_mask power_add mult_2 mult.assoc)
qed

section \<open>The steps\<close>

lemma even_list:
  assumes "length cs = 2 * Suc n"
  obtains x y ds where "cs = x # y # ds" and "length ds = 2 * n"
  using assms by (cases cs; cases "tl cs") auto

text \<open>Both halves masked, then added: \<^verbatim>\<open>(r & M) + ((r >> b) & M)\<close>.\<close>

lemma step_masked:
  assumes "\<And>c. c \<in> set cs \<Longrightarrow> c < 2 ^ b" and "length cs = 2 * n"
  shows "(hs b cs AND alt b n) + (drop_bit b (hs b cs) AND alt b n) = hs (2 * b) (pairsum cs)"
    and "(hs b cs AND alt b n) + 2 ^ b * (drop_bit b (hs b cs) AND alt b n) = hs b cs"
proof -
  have "(hs b cs AND alt b n) + (drop_bit b (hs b cs) AND alt b n) = hs (2 * b) (pairsum cs) \<and>
    (hs b cs AND alt b n) + 2 ^ b * (drop_bit b (hs b cs) AND alt b n) = hs b cs"
    using assms
  proof (induction n arbitrary: cs)
    case (Suc n)
    obtain x y ds where cs: "cs = x # y # ds" "length ds = 2 * n" using Suc.prems(2) by (rule even_list)
    define H where "H = hs b ds"
    have xy: "x < 2 ^ b" "y < 2 ^ b" using Suc.prems(1) cs by auto
    have X: "hs b cs = x + 2 ^ b * (y + 2 ^ b * H)" by (simp add: cs H_def)
    have d: "drop_bit b (hs b cs) = y + 2 ^ b * H" unfolding X using xy by (simp only: digit_parts)
    obtain h H' where H: "H = h + 2 ^ b * H'" "h < 2 ^ b"
      by (metis add.commute mod_less_divisor mult_div_mod_eq zero_less_numeral zero_less_power)
    have e1: "hs b cs AND alt b (Suc n) = x + 2 ^ (2 * b) * (H AND alt b n)"
      unfolding X using xy by (rule alt_and)
    have e2: "drop_bit b (hs b cs) AND alt b (Suc n) = y + 2 ^ (2 * b) * (drop_bit b H AND alt b n)"
      unfolding d H digit_parts(2) [OF H(2)] using xy(2) H(2) by (rule alt_and)
    define A where "A = H AND alt b n"
    define D where "D = drop_bit b H AND alt b n"
    have IH: "A + D = hs (2 * b) (pairsum ds)" "A + 2 ^ b * D = H"
      using Suc.IH [of ds] Suc.prems(1) cs by (auto simp: H_def A_def D_def)
    have S: "(2 :: nat) ^ (2 * b) = 2 ^ b * 2 ^ b" by (simp add: power_add mult_2)
    have "hs (2 * b) (pairsum cs) = x + y + 2 ^ (2 * b) * (A + D)" by (simp add: cs IH(1))
    moreover have "hs b cs = x + 2 ^ b * (y + 2 ^ b * (A + 2 ^ b * D))" using X IH(2) by simp
    ultimately show ?case
      unfolding e1 e2 A_def [symmetric] D_def [symmetric] S by (simp add: algebra_simps)
  qed simp
  then show "(hs b cs AND alt b n) + (drop_bit b (hs b cs) AND alt b n) = hs (2 * b) (pairsum cs)"
    and "(hs b cs AND alt b n) + 2 ^ b * (drop_bit b (hs b cs) AND alt b n) = hs b cs" by blast+
qed

text \<open>Added, then masked, when the sums of neighbours fit: \<^verbatim>\<open>(r + (r >> b)) & M\<close>.\<close>

lemma hs_split: "\<forall>c \<in> set cs. c < 2 ^ b \<Longrightarrow> \<exists>h H'. hs b cs = h + 2 ^ b * H' \<and> (h = 0 \<or> h \<in> set cs)"
  by (cases cs) (auto intro: exI [of _ 0])

lemma step_plain:
  assumes "\<And>c. c \<in> set cs \<Longrightarrow> 2 * c < 2 ^ b" and "length cs = 2 * n"
  shows "(hs b cs + drop_bit b (hs b cs)) AND alt b n = hs (2 * b) (pairsum cs)"
  using assms
proof (induction n arbitrary: cs)
  case (Suc n)
  obtain x y ds where cs: "cs = x # y # ds" "length ds = 2 * n" using Suc.prems(2) by (rule even_list)
  have small: "\<forall>c \<in> set ds. c < 2 ^ b" "2 * x < 2 ^ b" "2 * y < 2 ^ b" using Suc.prems(1) cs by fastforce+
  obtain h H' where H: "hs b ds = h + 2 ^ b * H'" "h = 0 \<or> h \<in> set ds" using hs_split [OF small(1)] by blast
  have h: "2 * h < 2 ^ b" using H(2) Suc.prems(1) cs by auto
  have X: "hs b cs = x + 2 ^ b * (y + 2 ^ b * hs b ds)" by (simp add: cs)
  have d: "drop_bit b (hs b cs) = y + 2 ^ b * hs b ds" unfolding X using small by (intro digit_parts) simp
  have dd: "drop_bit b (hs b ds) = H'" unfolding H(1) using h by (intro digit_parts) simp
  have "hs b cs + drop_bit b (hs b cs) = (x + y) + 2 ^ b * ((y + h) + 2 ^ b * (hs b ds + H'))"
    unfolding d unfolding X by (simp add: H(1) algebra_simps)
  also have "\<dots> AND alt b (Suc n) = (x + y) + 2 ^ (2 * b) * ((hs b ds + H') AND alt b n)"
    by (rule alt_and) (use small h in linarith)+
  also have "(hs b ds + H') AND alt b n = hs (2 * b) (pairsum ds)"
    using Suc.IH [of ds] Suc.prems(1) cs dd by simp
  finally show ?case by (simp add: cs)
qed simp

lemma pairsum_sum: "sum_list (pairsum cs) = sum_list cs"
  by (induction cs rule: pairsum.induct) auto

lemma pairsum_bound: "\<forall>c \<in> set cs. c \<le> k \<Longrightarrow> \<forall>c \<in> set (pairsum cs). c \<le> 2 * k"
  by (induction cs rule: pairsum.induct) fastforce+

lemma pairsum_length: "length cs = 2 * n \<Longrightarrow> length (pairsum cs) = n"
proof (induction n arbitrary: cs)
  case (Suc n)
  obtain x y ds where "cs = x # y # ds" "length ds = 2 * n" using Suc.prems by (rule even_list)
  then show ?case using Suc.IH by simp
qed simp

lemma bits_hs: "x < 2 ^ n \<Longrightarrow> hs 1 (map (\<lambda>i. of_bool (bit x i)) [0..<n]) = x" for x :: nat
proof -
  have "hs 1 (map of_bool bs) = horner_sum of_bool 2 bs" for bs by (induction bs) auto
  from this [of "map (bit x) [0..<n]"] have "hs 1 (map (of_bool \<circ> bit x) [0..<n]) = take_bit n x"
    by (simp add: horner_sum_bit_eq_take_bit)
  then show "x < 2 ^ n \<Longrightarrow> ?thesis" by (simp add: take_bit_eq_mod comp_def)
qed

lemma hs_drop: "\<forall>c \<in> set cs. c < 2 ^ b \<Longrightarrow> drop_bit (b * k) (hs b cs) = hs b (drop k cs)"
proof (induction k arbitrary: cs)
  case (Suc k)
  show ?case
  proof (cases cs)
    case (Cons c ds)
    have "drop_bit (b * Suc k) (hs b cs) = drop_bit (b * k) (drop_bit b (hs b cs))" by (simp add: add.commute)
    also have "drop_bit b (hs b cs) = hs b ds" using Suc.prems Cons by (simp add: digit_parts)
    also have "drop_bit (b * k) (hs b ds) = hs b (drop k ds)" using Suc Cons by simp
    finally show ?thesis using Cons by simp
  qed simp
qed simp

section \<open>The 64-bit count\<close>

lemma alt_numeral: "alt b (numeral k) = (2 ^ b - 1) + 2 ^ (2 * b) * alt b (pred_numeral k)"
  by (simp add: numeral_eq_Suc)

lemma alt_masks: "alt 1 32 = 0x5555555555555555" "alt 2 16 = 0x3333333333333333" "alt 4 8 = 0x0F0F0F0F0F0F0F0F"
  by (simp_all add: alt_numeral)

definition digits :: "nat \<Rightarrow> u64 \<Rightarrow> nat list" where
  "digits k w = (pairsum ^^ k) (map (\<lambda>i. of_bool (bit w i)) [0..<64])"

lemma digits_Suc: "digits (Suc k) w = pairsum (digits k w)"
  by (simp add: digits_def)

lemma digits_length: "length (digits k w) * 2 ^ k = 64" if "k \<le> 6"
  using that
proof (induction k)
  case (Suc k)
  then have IH: "length (digits k w) * 2 ^ k = 64" by simp
  obtain j where j: "Suc k + j = 6" using Suc.prems le_iff_add by metis
  have "(64 :: nat) = 2 ^ (Suc k + j)" unfolding j by simp
  then have "length (digits k w) * 2 ^ k = (2 * 2 ^ j) * 2 ^ k" using IH by (simp add: power_add mult_ac)
  then have l: "length (digits k w) = 2 * 2 ^ j" by (simp only: mult_cancel2 power_eq_0_iff) simp
  then show ?case using pairsum_length [OF l] IH by (simp add: digits_Suc)
qed (simp add: digits_def)

lemma digits_bound: "\<forall>c \<in> set (digits k w). c \<le> 2 ^ k"
proof (induction k)
  case (Suc k)
  then show ?case using pairsum_bound [of "digits k w" "2 ^ k"] by (simp add: digits_Suc)
qed (auto simp: digits_def)

lemma digits_sum: "sum_list (digits k w) = card {i. bit w i}"
proof (induction k)
  case 0
  have "sum_list (map (\<lambda>i. of_bool (bit w i)) [0..<64]) = card {i \<in> {..<64}. bit w i}"
    by (simp add: interv_sum_list_conv_sum_set_nat sum_of_bool_eq atLeast0LessThan Collect_conj_eq lessThan_def)
  moreover have "{i \<in> {..<64}. bit w i} = {i. bit w i}" by (auto dest: bit_imp_le_length)
  ultimately show ?case by (simp add: digits_def)
qed (simp add: digits_Suc pairsum_sum)

lemma hs_less: "\<forall>c \<in> set cs. c < 2 ^ b \<Longrightarrow> hs b cs < 2 ^ (b * length cs)"
proof (induction cs)
  case (Cons c cs)
  then have "hs b cs + 1 \<le> 2 ^ (b * length cs)" "c + 1 \<le> 2 ^ b" by simp_all
  then have "2 ^ b * (hs b cs + 1) \<le> 2 ^ b * 2 ^ (b * length cs)" by (intro mult_le_mono2) simp
  then show ?case using \<open>c + 1 \<le> 2 ^ b\<close> by (simp add: power_add algebra_simps)
qed simp

lemma unat_add: "unat a + unat b < 2 ^ 64 \<Longrightarrow> unat (a + b) = unat a + unat b" for a b :: u64
  using unat_add_lem [of a b] by simp

lemma unat_fold:
  assumes "unat (r :: u64) = hs 8 cs" and "length cs = 8" and "\<forall>c \<in> set cs. c < 128"
  shows "unat (r + drop_bit (8 * k) r) = hs 8 cs + hs 8 (drop k cs)"
proof -
  have d: "unat (drop_bit (8 * k) r) = hs 8 (drop k cs)"
    using assms hs_drop [of cs 8 k] by (fastforce simp: unat_drop_bit_eq)
  have "hs 8 (map ((*) 2) cs) = 2 * hs 8 cs" for cs by (induction cs) simp_all
  moreover have "hs 8 (map ((*) 2) cs) < 2 ^ (8 * length (map ((*) 2) cs))" using assms(3) by (intro hs_less) auto
  moreover have "hs 8 (drop k cs) \<le> hs 8 cs"
    using assms(3) by (subst hs_drop [symmetric]) (auto simp: drop_bit_eq_div)
  ultimately have "unat r + unat (drop_bit (8 * k) r) < 2 ^ 64" using assms(1,2) d by simp
  then show ?thesis using unat_add [of r "drop_bit (8 * k) r"] assms(1) d by simp
qed

lemma hweight64_fields:
  defines "m1 \<equiv> 0x5555555555555555 :: u64" and "m2 \<equiv> 0x3333333333333333 :: u64" and "m4 \<equiv> 0x0F0F0F0F0F0F0F0F :: u64"
  assumes r1: "r1 = w - (drop_bit 1 w AND m1)"
    and r2: "r2 = (r1 AND m2) + (drop_bit 2 r1 AND m2)"
    and r3: "r3 = (r2 + drop_bit 4 r2) AND m4"
  shows "unat r3 = hs 8 (digits 3 w)"
proof -
  have bw: "bit (unat w) i = bit w i" for i by (simp add: bit_unsigned_iff)
  have lens: "length (digits 0 w) = 2 * 32" "length (digits 1 w) = 2 * 16" "length (digits 2 w) = 2 * 8"
    using digits_length [of 0 w] digits_length [of 1 w] digits_length [of 2 w] by simp_all
  have ds: "digits 1 w = pairsum (digits 0 w)" "digits 2 w = pairsum (digits 1 w)" "digits 3 w = pairsum (digits 2 w)"
    using digits_Suc [of 0 w] digits_Suc [of 1 w] digits_Suc [of 2 w] by (simp_all add: numeral_2_eq_2 numeral_3_eq_3)
  have m: "unat m1 = alt 1 32" "unat m2 = alt 2 16" "unat m4 = alt 4 8"
    unfolding alt_masks by (simp_all add: m1_def m2_def m4_def)
  have x0: "unat w = hs 1 (digits 0 w)" using bits_hs [of "unat w" 64] unat_bound [of w] by (simp add: digits_def bw)
  have b0: "c < 2 ^ 1" if "c \<in> set (digits 0 w)" for c using that by (auto simp: digits_def)
  note s1 = step_masked [OF b0 lens(1)]
  define D where "D = drop_bit 1 w AND m1"
  have D: "unat D = drop_bit 1 (hs 1 (digits 0 w)) AND alt 1 32"
    by (simp add: D_def unsigned_and_eq unat_drop_bit_eq m x0)
  define A where "A = hs 1 (digits 0 w) AND alt 1 32"
  have AD: "A + unat D = hs 2 (digits 1 w)" "A + 2 * unat D = unat w"
    using s1 unfolding A_def [symmetric] D [symmetric] ds(1) by (simp_all add: x0)
  then have "D \<le> w" unfolding word_le_nat_alt by linarith
  then have x1: "unat r1 = hs 2 (digits 1 w)" unfolding r1 D_def [symmetric] using AD unat_sub [of D w] by linarith
  have b1: "c < 2 ^ 2" if "c \<in> set (digits 1 w)" for c using digits_bound [of 1 w] that by auto
  have b2: "c \<le> 4" if "c \<in> set (digits 2 w)" for c using digits_bound [of 2 w] that by auto
  have l2: "hs 4 (digits 2 w) < 2 ^ 63 * 2"
    using hs_less [of "digits 2 w" 4] b2 lens(3) by fastforce
  have "unat (r1 AND m2) + unat (drop_bit 2 r1 AND m2) = hs 4 (digits 2 w)"
    using step_masked(1) [OF b1 lens(2)]
    by (simp add: unsigned_and_eq unat_drop_bit_eq m x1 ds(2))
  then have x2: "unat r2 = hs 4 (digits 2 w)" unfolding r2 using l2 unat_add [of "r1 AND m2" "drop_bit 2 r1 AND m2"] by simp
  have "hs 4 (map ((*) 2) cs) = 2 * hs 4 cs" for cs by (induction cs) simp_all
  moreover have "hs 4 (map ((*) 2) (digits 2 w)) < 2 ^ (4 * length (map ((*) 2) (digits 2 w)))"
    using b2 by (intro hs_less) fastforce
  moreover have "drop_bit 4 (hs 4 (digits 2 w)) \<le> hs 4 (digits 2 w)" by (simp add: drop_bit_eq_div)
  ultimately have "unat (r2 + drop_bit 4 r2) = hs 4 (digits 2 w) + drop_bit 4 (hs 4 (digits 2 w))"
    using x2 lens(3) unat_add [of r2 "drop_bit 4 r2"] by (simp add: unat_drop_bit_eq)
  then show ?thesis
    unfolding r3 unsigned_and_eq m using step_plain [of "digits 2 w" 4 8] b2 lens(3)
    by (fastforce simp: ds(3))
qed

lemma hs_mod: "(hs 8 (c # cs) + hs 8 (d # ds)) mod 256 = (c + d) mod 256"
proof -
  have "hs 8 (c # cs) + hs 8 (d # ds) = (c + d) + 256 * (hs 8 cs + hs 8 ds)" by simp
  then show ?thesis by (simp only: mod_mult_self2)
qed

lemma bytes_fold:
  assumes "\<forall>c \<in> set [b0, b1, b2, b3, b4, b5, b6, b7]. c \<le> 8" and r3: "unat (r3 :: u64) = hs 8 [b0, b1, b2, b3, b4, b5, b6, b7]"
    and r4: "r4 = r3 + drop_bit 8 r3" and r5: "r5 = r4 + drop_bit 16 r4"
  shows "unat ((r5 + drop_bit 32 r5) AND 0xFF) = b0 + b1 + b2 + b3 + b4 + b5 + b6 + b7"
proof -
  have "unat r4 = hs 8 [b0, b1, b2, b3, b4, b5, b6, b7] + hs 8 (drop 1 [b0, b1, b2, b3, b4, b5, b6, b7])"
    unfolding r4 using unat_fold [OF r3, of 1] assms(1) by simp
  then have x4: "unat r4 = hs 8 [b0 + b1, b1 + b2, b2 + b3, b3 + b4, b4 + b5, b5 + b6, b6 + b7, b7]" by simp
  have "unat r5 = hs 8 [b0 + b1, b1 + b2, b2 + b3, b3 + b4, b4 + b5, b5 + b6, b6 + b7, b7] +
      hs 8 (drop 2 [b0 + b1, b1 + b2, b2 + b3, b3 + b4, b4 + b5, b5 + b6, b6 + b7, b7])"
    unfolding r5 using unat_fold [OF x4, of 2] assms(1) by simp
  then have x5: "unat r5 = hs 8 [b0 + b1 + b2 + b3, b1 + b2 + b3 + b4, b2 + b3 + b4 + b5, b3 + b4 + b5 + b6,
      b4 + b5 + b6 + b7, b5 + b6 + b7, b6 + b7, b7]" by simp
  let ?es = "[b0 + b1 + b2 + b3, b1 + b2 + b3 + b4, b2 + b3 + b4 + b5, b3 + b4 + b5 + b6,
      b4 + b5 + b6 + b7, b5 + b6 + b7, b6 + b7, b7]"
  have es: "length ?es = 8" "\<forall>c \<in> set ?es. c < 128" "drop 4 ?es = [b4 + b5 + b6 + b7, b5 + b6 + b7, b6 + b7, b7]"
      "(8 :: nat) * 4 = 32" using assms(1) by simp_all
  have x6: "unat (r5 + drop_bit 32 r5) = hs 8 ?es + hs 8 [b4 + b5 + b6 + b7, b5 + b6 + b7, b6 + b7, b7]"
    using unat_fold [OF x5 es(1,2), of 4] unfolding es(3,4) .
  have "unat (x AND 0xFF) = unat x mod 256" for x :: u64
    using unat_and_mask [of x 8] by (simp add: mask_eq_exp_minus_1)
  from this [of "r5 + drop_bit 32 r5"]
  have "unat ((r5 + drop_bit 32 r5) AND 0xFF) = ((b0 + b1 + b2 + b3) + (b4 + b5 + b6 + b7)) mod 256"
    unfolding x6 hs_mod .
  then show ?thesis using assms(1) by simp
qed

lemma hweight64_card: "unat (hweight64 w) = card {i. bit w i}"
proof -
  have "length (digits 3 w) = 8" using digits_length [of 3 w] by simp
  then obtain b0 b1 b2 b3 b4 b5 b6 b7 where b: "digits 3 w = [b0, b1, b2, b3, b4, b5, b6, b7]"
    by (auto simp: eval_nat_numeral length_Suc_conv)
  have small: "\<forall>c \<in> set [b0, b1, b2, b3, b4, b5, b6, b7]. c \<le> 8" using digits_bound [of 3 w] b by simp
  have "unat (hweight64 w) = b0 + b1 + b2 + b3 + b4 + b5 + b6 + b7"
    unfolding hweight64_def Let_def
    by (rule bytes_fold [OF small hweight64_fields [OF refl refl refl, of w, unfolded b] refl refl])
  then show ?thesis using digits_sum [of 3 w] b by simp
qed

lemma hweight_long_uint: "uint (hweight_long v) = int (card {j. bit v j})"
  by (metis hweight64_card hweight_long_def of_nat_unat)

end
