(* ===== verification/Bitops_Props.thy ===== *)
theory Bitops_Props
  imports Hweight
begin

text \<open>
  What \<^verbatim>\<open>bitops.h\<close> and \<^verbatim>\<open>bitops.c\<close> promise: the searches in words and arrays, the population
  count, the single-bit operations, the alignment macros of \<^verbatim>\<open>kernel.h\<close>; and what \<^verbatim>\<open>fls64\<close> computes
  instead of the last set bit.
\<close>

section \<open>Words\<close>

text \<open>
  __ffs returns the least set bit of a non-zero word and fls one more than the
  greatest set bit of a non-zero 32-bit value; fls(0) is 0.
\<close>

theorem ffs_fls_correct:
  "(w \<noteq> 0 \<longrightarrow> bit w (unat (uu_ffs w)) \<and> (\<forall>i < unat (uu_ffs w). \<not> bit w i)) \<and>
   (x \<noteq> 0 \<longrightarrow> 0 < fls x \<and> bit x (nat (fls x - 1)) \<and> (\<forall>i \<ge> nat (fls x). \<not> bit x i)) \<and> fls 0 = 0"
proof (intro conjI impI)
  assume "w \<noteq> 0"
  then obtain n where "uu_ffs w = of_nat n" "n < 64" "bit w n" "\<forall>i < n. \<not> bit w i" by (rule uu_ffs_first)
  moreover then have "unat (uu_ffs w) = n" by (simp add: unat_of_nat)
  ultimately show "bit w (unat (uu_ffs w))" and "\<forall>i < unat (uu_ffs w). \<not> bit w i" by simp_all
next
  assume "x \<noteq> 0"
  then obtain n where "fls x = int (Suc n)" "bit x n" "\<forall>i > n. \<not> bit x i" by (rule fls_last)
  then show "0 < fls x" and "bit x (nat (fls x - 1))" and "\<forall>i \<ge> nat (fls x). \<not> bit x i" by simp_all
qed (simp add: fls_def)

theorem ffs_fls_correct_witness:
  "bit (40 :: u64) (unat (uu_ffs 40)) \<and> 0 < fls 40 \<and> bit (40 :: u32) (nat (fls 40 - 1))"
  using ffs_fls_correct [of 40 40] by simp

text \<open>
  hweight64, computed by adding bit fields in place, is the number of set bits.
\<close>

theorem hweight64_popcount: "unat (hweight64 w) = card {i. bit w i} \<and> hweight_long w = hweight64 w"
  by (simp add: hweight64_card hweight_long_def)

text \<open>
  on the 64-bit target fls64 (and with it fls_long) is computed with __ffs: it returns one
  more than the LEAST set bit, so it is the documented last set bit only for zero and for words
  with a single set bit; fls64(6) is 2.
\<close>

theorem fls64_is_first_bit:
  "fls64 0 = 0 \<and> fls64 6 = 2 \<and>
   (x \<noteq> 0 \<longrightarrow> (\<exists>n. fls64 x = int (Suc n) \<and> bit x n \<and> (\<forall>i < n. \<not> bit x i) \<and>
      ((\<forall>i > n. \<not> bit x i) \<longleftrightarrow> x = 2 ^ n)))"
proof (intro conjI impI)
  show "fls64 0 = 0" by (simp add: fls64_def)
  show "fls64 6 = 2" by (simp add: fls64_def uu_ffs_def ffs_step_def)
next
  assume "x \<noteq> 0"
  then obtain n where n: "fls64 x = int (Suc n)" "n < 64" "bit x n" "\<forall>i < n. \<not> bit x i" by (rule fls64_first)
  have "(\<forall>i > n. \<not> bit x i) \<longleftrightarrow> x = 2 ^ n"
  proof
    assume "\<forall>i > n. \<not> bit x i"
    then have "bit x i \<longleftrightarrow> i = n" for i using n(3,4) by (metis linorder_neqE_nat)
    then show "x = 2 ^ n" using n(2) by (intro bit_word_eqI) simp
  qed (use n(2) in simp)
  then show "\<exists>n. fls64 x = int (Suc n) \<and> bit x n \<and> (\<forall>i < n. \<not> bit x i) \<and>
      ((\<forall>i > n. \<not> bit x i) \<longleftrightarrow> x = 2 ^ n)" using n by blast
qed

theorem fls64_is_first_bit_witness:
  "\<exists>n. fls64 12 = int (Suc n) \<and> bit (12 :: u64) n"
  using fls64_is_first_bit [of 12] by auto

section \<open>Arrays\<close>

definition ex_words :: store where
  "ex_words = [64 \<mapsto> [0, 6, 1], 128 \<mapsto> [- 1, 3]]"

lemma ex_words_arr: "ex_words 64 = Some [0, 6, 1]" "ex_words 128 = Some [- 1, 3]"
  by (simp_all add: ex_words_def)

text \<open>
  C19: find_first_bit and find_next_bit return the least position of a set bit at or after
  the start, and the size when there is none before it; find_first_zero_bit and
  find_next_zero_bit do the same for clear bits. They read only the words of the array and return
  for every size that fits it.
\<close>

theorem find_bit_correct:
  assumes "m a = Some ws" and "unat sz \<le> 64 * length ws"
  shows "(\<exists>r. find_first_bit a sz m = Some r \<and> is_next (bm ws) (unat sz) 0 (unat r)) \<and>
    (\<exists>r. find_first_zero_bit a sz m = Some r \<and> is_next (\<lambda>i. \<not> bm ws i) (unat sz) 0 (unat r)) \<and>
    (\<exists>r. find_next_bit a sz off m = Some r \<and>
      (if off < sz then is_next (bm ws) (unat sz) (unat off) (unat r) else r = sz)) \<and>
    (\<exists>r. find_next_zero_bit a sz off m = Some r \<and>
      (if off < sz then is_next (\<lambda>i. \<not> bm ws i) (unat sz) (unat off) (unat r) else r = sz))"
proof (intro conjI)
  show "\<exists>r. find_first_bit a sz m = Some r \<and> is_next (bm ws) (unat sz) 0 (unat r)"
    using set_bits.first_bit [of m a ws sz] assms by blast
  show "\<exists>r. find_first_zero_bit a sz m = Some r \<and> is_next (\<lambda>i. \<not> bm ws i) (unat sz) 0 (unat r)"
    using clear_bits.first_bit [of m a ws sz] assms by blast
  show "\<exists>r. find_next_bit a sz off m = Some r \<and>
      (if off < sz then is_next (bm ws) (unat sz) (unat off) (unat r) else r = sz)"
  proof (cases "off < sz")
    case True
    then show ?thesis using set_bits.next_bit [of m a ws sz off] assms by simp
  next
    case False
    then show ?thesis using set_bits.next_end [of sz off a m] by auto
  qed
  show "\<exists>r. find_next_zero_bit a sz off m = Some r \<and>
      (if off < sz then is_next (\<lambda>i. \<not> bm ws i) (unat sz) (unat off) (unat r) else r = sz)"
  proof (cases "off < sz")
    case True
    then show ?thesis using clear_bits.next_bit [of m a ws sz off] assms by simp
  next
    case False
    then show ?thesis using clear_bits.next_end [of sz off a m] by auto
  qed
qed

theorem find_bit_correct_witness:
  "\<exists>r. find_first_bit 64 192 ex_words = Some r \<and> is_next (bm [0, 6, 1]) 192 0 (unat r)"
  using find_bit_correct [of ex_words 64 "[0, 6, 1]" 192] by (simp add: ex_words_arr)

text \<open>
  for_each_set_bit runs its body once for every set bit below the size, in increasing
  order, and ends.
\<close>

theorem for_each_set_bit_visits:
  assumes "m a = Some ws" and "unat sz \<le> 64 * length ws"
  shows "for_each_set_bit a sz (\<lambda>b (m, d). Some (m, f b d)) (m, d) =
    Some (m, fold f (map of_nat (filter (bm ws) [0..<unat sz])) d)"
proof -
  have "for_each_set_bit a sz (\<lambda>b (m, d). Some (m, f b d)) (m, d) =
      Some (fold (\<lambda>b (m, d). (m, f b d)) (map of_nat (filter (bm ws) [0..<unat sz])) (m, d))"
    unfolding for_each_set_bit_def
    using set_bits.for_each_visits [where I = "\<lambda>st. fst st = m" and a = a and ws = ws and sz = sz
        and body = "\<lambda>b (m, d). Some (m, f b d)" and f = "\<lambda>b (m, d). (m, f b d)" and st = "(m, d)"] assms
    by auto
  moreover have "fold (\<lambda>b (m, d). (m, f b d)) xs (m, d) = (m, fold f xs d)" for xs
    by (induction xs arbitrary: d) auto
  ultimately show ?thesis by simp
qed

theorem for_each_set_bit_visits_witness:
  "for_each_set_bit 64 192 (\<lambda>b (m, d). Some (m, d @ [b])) (ex_words, []) =
    Some (ex_words, fold (\<lambda>b d. d @ [b]) (map of_nat (filter (bm [0, 6, 1]) [0..<192])) [])"
  using for_each_set_bit_visits [of ex_words 64 "[0, 6, 1]" 192 "\<lambda>b d. d @ [b]" "[]"] by (simp add: ex_words_arr)

text \<open>
  find_last_bit adds the 1-based fls to the number of bits below the word, and truncates the word to its
  low half: its result is one past the last set bit, or loses it.
\<close>

theorem find_last_bit_off:
  "find_last_bit 64 64 [64 \<mapsto> [1]] = Some 1 \<and> find_last_bit 64 64 [64 \<mapsto> [2 ^ 40]] = Some 0"
  by (simp add: find_last_bit_def aget_def fls_def fls_step_def Let_def)

section \<open>Single bits\<close>

lemma bm_set_word:
  assumes "k < 64 * length ws"
  shows "k div 64 < length ws"
  using assms by (simp add: less_mult_imp_div_less mult.commute)

text \<open>
  set_bit sets exactly the addressed bit, clear_bit clears exactly it, and test_bit reads
  it; an index outside the array faults.
\<close>

theorem single_bit_ops:
  assumes "m a = Some ws"
  shows "(if nr < 64 * length ws then
      (\<exists>ws'. set_bit (int nr) a m = Some (m(a \<mapsto> ws')) \<and> length ws' = length ws \<and>
         (\<forall>i < 64 * length ws. bm ws' i = (i = nr \<or> bm ws i))) \<and>
      (\<exists>ws'. clear_bit (int nr) a m = Some (m(a \<mapsto> ws')) \<and> length ws' = length ws \<and>
         (\<forall>i < 64 * length ws. bm ws' i = (i \<noteq> nr \<and> bm ws i))) \<and>
      (nr < 2 ^ 32 \<longrightarrow> test_bit (of_nat nr) a m = Some (bm ws nr))
    else set_bit (int nr) a m = None \<and> clear_bit (int nr) a m = None)"
proof (cases "nr < 64 * length ws")
  case True
  define k where "k = nr div 64"
  define b where "b = nr mod 64"
  have k: "k < length ws" using bm_set_word [OF True] by (simp add: k_def)
  have b: "b < 64" by (simp add: b_def)
  have here: "i div 64 = k \<and> i mod 64 = b \<longleftrightarrow> i = nr" for i
    by (metis b_def div_mult_mod_eq k_def)
  have upd: "bm (ws[k := w]) i \<longleftrightarrow> (if i div 64 = k then bit w (i mod 64) else bm ws i)" for w i
    using k by (auto simp: bm_def)
  have bm_bit: "i div 64 = k \<Longrightarrow> bm ws i = bit (ws ! k) (i mod 64)" for i by (simp add: bm_def)
  have "set_bit (int nr) a m = Some (m(a \<mapsto> ws[k := ws ! k OR push_bit b 1]))"
    using assms k by (simp add: set_bit_def k_def [symmetric] b_def [symmetric] aget_Some aset_Some)
  moreover have "bm (ws[k := ws ! k OR push_bit b 1]) i = (i = nr \<or> bm ws i)" for i
    using here [of i] b
    by (cases "i div 64 = k"; cases "i mod 64 = b") (auto simp: upd bm_bit bit_or_iff)
  moreover have "clear_bit (int nr) a m = Some (m(a \<mapsto> ws[k := ws ! k AND NOT (push_bit b 1)]))"
    using assms k by (simp add: clear_bit_def k_def [symmetric] b_def [symmetric] aget_Some aset_Some)
  moreover have "bm (ws[k := ws ! k AND NOT (push_bit b 1)]) i = (i \<noteq> nr \<and> bm ws i)" for i
    using here [of i] b
    by (cases "i div 64 = k"; cases "i mod 64 = b") (auto simp: upd bm_bit bit_and_iff bit_not_iff)
  moreover have "test_bit (of_nat nr) a m = Some (bm ws nr)" if "nr < 2 ^ 32"
  proof -
    have u: "unat (of_nat nr :: u32) = nr" using that by (simp add: unat_of_nat)
    have "push_bit b 1 AND ws ! k \<noteq> 0 \<longleftrightarrow> bit (ws ! k) b" using b by (auto simp: word_neq0_bit bit_and_iff)
    then show ?thesis using assms k
      by (simp add: test_bit_def u k_def [symmetric] b_def [symmetric] aget_Some bm_def del: push_bit_of_1)
  qed
  ultimately show ?thesis using True by auto
next
  case False
  then have "\<not> nr div 64 < length ws" by (simp add: less_eq_div_iff_mult_less_eq not_less mult.commute)
  then show ?thesis using False assms by (simp add: set_bit_def clear_bit_def aget_def)
qed

theorem single_bit_ops_witness:
  "\<exists>ws'. set_bit 70 128 ex_words = Some (ex_words(128 \<mapsto> ws')) \<and> length ws' = Suc (Suc 0) \<and>
     bm ws' 70 \<and> bm ws' 65 = bm [- 1, 3] 65"
  using single_bit_ops [of ex_words 128 "[- 1, 3]" 70] by (force simp: ex_words_arr)

section \<open>Macros\<close>

text \<open>
  for a power-of-two alignment, ALIGN returns the least multiple at or above its
  argument (when that fits in the word), round_down the greatest multiple below it, IS_ALIGNED
  tests for a multiple; DIV_ROUND_UP is the rounded-up quotient and faults on zero.
\<close>

theorem align_macros:
  assumes "k < 64" and "unat x + 2 ^ k \<le> 2 ^ 64" and "unat n + unat d \<le> 2 ^ 64"
  shows "IS_ALIGNED (ALIGN x (2 ^ k)) (2 ^ k) \<and> x \<le> ALIGN x (2 ^ k) \<and> unat (ALIGN x (2 ^ k)) < unat x + 2 ^ k \<and>
    IS_ALIGNED (round_down x (2 ^ k)) (2 ^ k) \<and> round_down x (2 ^ k) \<le> x \<and> unat x < unat (round_down x (2 ^ k)) + 2 ^ k \<and>
    (IS_ALIGNED x (2 ^ k) \<longleftrightarrow> 2 ^ k dvd unat x) \<and>
    (case DIV_ROUND_UP n d of None \<Rightarrow> d = 0
     | Some q \<Rightarrow> unat n \<le> unat q * unat d \<and> unat q * unat d < unat n + unat d)"
proof (intro conjI)
  let ?p = "2 ^ k :: nat"
  have p: "0 < ?p" by simp
  note al = ALIGN_nat [OF assms(1,2)]
  have e: "(unat x + (?p - 1)) div ?p * ?p + (unat x + (?p - 1)) mod ?p = unat x + (?p - 1)" by (rule div_mult_mod_eq)
  have r: "(unat x + (?p - 1)) mod ?p < ?p" using p by (rule mod_less_divisor)
  show "IS_ALIGNED (ALIGN x (2 ^ k)) (2 ^ k)" unfolding IS_ALIGNED_nat al by simp
  show "x \<le> ALIGN x (2 ^ k)" unfolding word_le_nat_alt al using e r p by linarith
  show "unat (ALIGN x (2 ^ k)) < unat x + 2 ^ k" unfolding al using e r p by linarith
  show "IS_ALIGNED (round_down x (2 ^ k)) (2 ^ k)" unfolding IS_ALIGNED_nat round_down_nat by simp
  show "round_down x (2 ^ k) \<le> x" unfolding word_le_nat_alt round_down_nat by simp
  show "unat x < unat (round_down x (2 ^ k)) + 2 ^ k" unfolding round_down_nat
    using div_mult_mod_eq [of "unat x" ?p] mod_less_divisor [OF p, of "unat x"] by linarith
  show "IS_ALIGNED x (2 ^ k) \<longleftrightarrow> 2 ^ k dvd unat x" by (rule IS_ALIGNED_nat)
  show "case DIV_ROUND_UP n d of None \<Rightarrow> d = 0
     | Some q \<Rightarrow> unat n \<le> unat q * unat d \<and> unat q * unat d < unat n + unat d"
  proof (cases "d = 0")
    case False
    then obtain q where q: "DIV_ROUND_UP n d = Some q" "unat q = (unat n + unat d - 1) div unat d"
      using DIV_ROUND_UP_nat [OF _ assms(3)] by blast
    have d: "0 < unat d" using False by (simp add: unat_gt_0)
    have "unat n \<le> unat q * unat d" "unat q * unat d < unat n + unat d" unfolding q(2)
      using d div_mult_mod_eq [of "unat n + unat d - 1" "unat d"]
        mod_less_divisor [OF d, of "unat n + unat d - 1"] by linarith+
    then show ?thesis using q(1) by simp
  qed (simp add: DIV_ROUND_UP_def)
qed

theorem align_macros_witness:
  "IS_ALIGNED (ALIGN 13 (2 ^ 3)) (2 ^ 3) \<and> (13 :: u64) \<le> ALIGN 13 (2 ^ 3)"
  using align_macros [of 3 13 0 1] by simp

end
