(* ===== verification/Bitmap.thy ===== *)
theory Bitmap
  imports Bit_Search
begin

text \<open>
  \<^verbatim>\<open>include/bitmap.h\<close> and \<^verbatim>\<open>lib/bitmap.c\<close>: bitmaps as arrays of words in the store. The routines
  take the pointers of the arrays, so the destination may be a source. The parameters that the C
  code types as \<^verbatim>\<open>int\<close> and that count bits (\<open>bits\<close>, \<open>start\<close>, \<open>nr\<close>, \<open>pos\<close>, \<open>shift\<close>) are natural numbers:
  the interface gives no meaning to negative ones, and their values are below \<open>2 ^ 31\<close>. The
  flag \<open>cst\<close> of the inline functions is \<^verbatim>\<open>__builtin_constant_p(nbits)\<close>: the compiler selects the
  one-word path for constant sizes up to a word. A shift of a zero word by the full width, which
  the shift routines compute for word-aligned amounts, is zero.
\<close>

section \<open>Bulk memory operations\<close>

definition memset_words :: "addr \<Rightarrow> nat \<Rightarrow> u64 \<Rightarrow> nat \<Rightarrow> store \<Rightarrow> store option" where
  "memset_words d i v n m = (case m d of None \<Rightarrow> if n = 0 then Some m else None
     | Some a \<Rightarrow> if i + n \<le> length a then Some (m(d \<mapsto> take i a @ replicate n v @ drop (i + n) a)) else None)"

definition memcpy_words :: "addr \<Rightarrow> addr \<Rightarrow> nat \<Rightarrow> store \<Rightarrow> store option" where
  "memcpy_words d s n m = (case (m d, m s) of
     (Some a, Some b) \<Rightarrow> if n \<le> length a \<and> n \<le> length b then Some (m(d \<mapsto> take n b @ drop n a)) else None
   | _ \<Rightarrow> if n = 0 then Some m else None)"

definition BITMAP_LAST_WORD_MASK :: "nat \<Rightarrow> u64" where
  "BITMAP_LAST_WORD_MASK nbits = (if nbits mod 64 \<noteq> 0 then push_bit (nbits mod 64) 1 - 1 else NOT 0)"

definition BITMAP_FIRST_WORD_MASK :: "nat \<Rightarrow> u64" where
  "BITMAP_FIRST_WORD_MASK start = push_bit (start mod 64) (NOT 0)"

definition small_const_nbits :: "bool \<Rightarrow> nat \<Rightarrow> bool" where
  "small_const_nbits cst nbits \<longleftrightarrow> cst \<and> nbits \<le> 64"

section \<open>Tests\<close>

definition uu_bitmap_empty :: "addr \<Rightarrow> nat \<Rightarrow> store \<Rightarrow> bool option" where
  "uu_bitmap_empty bitmap bits m = (let lim = bits div 64 in do {
     e \<leftarrow> exit_up 0 lim (\<lambda>k. do { w \<leftarrow> aget m bitmap k; Some (w \<noteq> 0) });
     if e then Some False
     else if bits mod 64 \<noteq> 0 then do {
       w \<leftarrow> aget m bitmap lim;
       Some (w AND BITMAP_LAST_WORD_MASK bits = 0) }
     else Some True })"

definition uu_bitmap_full :: "addr \<Rightarrow> nat \<Rightarrow> store \<Rightarrow> bool option" where
  "uu_bitmap_full bitmap bits m = (let lim = bits div 64 in do {
     e \<leftarrow> exit_up 0 lim (\<lambda>k. do { w \<leftarrow> aget m bitmap k; Some (NOT w \<noteq> 0) });
     if e then Some False
     else if bits mod 64 \<noteq> 0 then do {
       w \<leftarrow> aget m bitmap lim;
       Some (NOT w AND BITMAP_LAST_WORD_MASK bits = 0) }
     else Some True })"

definition uu_bitmap_equal :: "addr \<Rightarrow> addr \<Rightarrow> nat \<Rightarrow> store \<Rightarrow> bool option" where
  "uu_bitmap_equal bitmap1 bitmap2 bits m = (let lim = bits div 64 in do {
     e \<leftarrow> exit_up 0 lim (\<lambda>k. do { v \<leftarrow> aget m bitmap1 k; w \<leftarrow> aget m bitmap2 k; Some (v \<noteq> w) });
     if e then Some False
     else if bits mod 64 \<noteq> 0 then do {
       v \<leftarrow> aget m bitmap1 lim; w \<leftarrow> aget m bitmap2 lim;
       Some ((v XOR w) AND BITMAP_LAST_WORD_MASK bits = 0) }
     else Some True })"

definition uu_bitmap_intersects :: "addr \<Rightarrow> addr \<Rightarrow> nat \<Rightarrow> store \<Rightarrow> bool option" where
  "uu_bitmap_intersects bitmap1 bitmap2 bits m = (let lim = bits div 64 in do {
     e \<leftarrow> exit_up 0 lim (\<lambda>k. do { v \<leftarrow> aget m bitmap1 k; w \<leftarrow> aget m bitmap2 k; Some (v AND w \<noteq> 0) });
     if e then Some True
     else if bits mod 64 \<noteq> 0 then do {
       v \<leftarrow> aget m bitmap1 lim; w \<leftarrow> aget m bitmap2 lim;
       Some ((v AND w) AND BITMAP_LAST_WORD_MASK bits \<noteq> 0) }
     else Some False })"

definition uu_bitmap_subset :: "addr \<Rightarrow> addr \<Rightarrow> nat \<Rightarrow> store \<Rightarrow> bool option" where
  "uu_bitmap_subset bitmap1 bitmap2 bits m = (let lim = bits div 64 in do {
     e \<leftarrow> exit_up 0 lim (\<lambda>k. do { v \<leftarrow> aget m bitmap1 k; w \<leftarrow> aget m bitmap2 k; Some (v AND NOT w \<noteq> 0) });
     if e then Some False
     else if bits mod 64 \<noteq> 0 then do {
       v \<leftarrow> aget m bitmap1 lim; w \<leftarrow> aget m bitmap2 lim;
       Some ((v AND NOT w) AND BITMAP_LAST_WORD_MASK bits = 0) }
     else Some True })"

text \<open>The weight is summed in an \<^verbatim>\<open>int\<close>, which the number of bits bounds.\<close>

definition uu_bitmap_weight :: "addr \<Rightarrow> nat \<Rightarrow> store \<Rightarrow> int option" where
  "uu_bitmap_weight bitmap bits m = (let lim = bits div 64 in do {
     w \<leftarrow> for_up 0 lim (\<lambda>k w. do { v \<leftarrow> aget m bitmap k; Some (w + uint (hweight_long v)) }) 0;
     if bits mod 64 \<noteq> 0 then do {
       v \<leftarrow> aget m bitmap lim;
       Some (w + uint (hweight_long (v AND BITMAP_LAST_WORD_MASK bits))) }
     else Some w })"

section \<open>Bitwise operations\<close>

definition uu_bitmap_complement :: "addr \<Rightarrow> addr \<Rightarrow> nat \<Rightarrow> store \<Rightarrow> store option" where
  "uu_bitmap_complement dst src bits m = (let lim = bits div 64 in do {
     m \<leftarrow> for_up 0 lim (\<lambda>k m. do { w \<leftarrow> aget m src k; aset m dst k (NOT w) }) m;
     if bits mod 64 \<noteq> 0 then do {
       w \<leftarrow> aget m src lim;
       aset m dst lim (NOT w AND BITMAP_LAST_WORD_MASK bits) }
     else Some m })"

definition uu_bitmap_and :: "addr \<Rightarrow> addr \<Rightarrow> addr \<Rightarrow> nat \<Rightarrow> store \<Rightarrow> (bool \<times> store) option" where
  "uu_bitmap_and dst bitmap1 bitmap2 bits m = do {
     (result, m) \<leftarrow> for_up 0 (BITS_TO_LONGS bits) (\<lambda>k (result, m). do {
       v \<leftarrow> aget m bitmap1 k; w \<leftarrow> aget m bitmap2 k;
       m \<leftarrow> aset m dst k (v AND w);
       Some (result OR (v AND w), m) }) (0, m);
     Some (result \<noteq> 0, m) }"

definition uu_bitmap_or :: "addr \<Rightarrow> addr \<Rightarrow> addr \<Rightarrow> nat \<Rightarrow> store \<Rightarrow> store option" where
  "uu_bitmap_or dst bitmap1 bitmap2 bits m =
     for_up 0 (BITS_TO_LONGS bits) (\<lambda>k m. do {
       v \<leftarrow> aget m bitmap1 k; w \<leftarrow> aget m bitmap2 k; aset m dst k (v OR w) }) m"

definition uu_bitmap_xor :: "addr \<Rightarrow> addr \<Rightarrow> addr \<Rightarrow> nat \<Rightarrow> store \<Rightarrow> store option" where
  "uu_bitmap_xor dst bitmap1 bitmap2 bits m =
     for_up 0 (BITS_TO_LONGS bits) (\<lambda>k m. do {
       v \<leftarrow> aget m bitmap1 k; w \<leftarrow> aget m bitmap2 k; aset m dst k (v XOR w) }) m"

definition uu_bitmap_andnot :: "addr \<Rightarrow> addr \<Rightarrow> addr \<Rightarrow> nat \<Rightarrow> store \<Rightarrow> (bool \<times> store) option" where
  "uu_bitmap_andnot dst bitmap1 bitmap2 bits m = do {
     (result, m) \<leftarrow> for_up 0 (BITS_TO_LONGS bits) (\<lambda>k (result, m). do {
       v \<leftarrow> aget m bitmap1 k; w \<leftarrow> aget m bitmap2 k;
       m \<leftarrow> aset m dst k (v AND NOT w);
       Some (result OR (v AND NOT w), m) }) (0, m);
     Some (result \<noteq> 0, m) }"

section \<open>Shifts\<close>

definition uu_bitmap_shift_right :: "addr \<Rightarrow> addr \<Rightarrow> nat \<Rightarrow> nat \<Rightarrow> store \<Rightarrow> store option" where
  "uu_bitmap_shift_right dst src shift bits m =
     (let lim = BITS_TO_LONGS bits; left = bits mod 64; off = shift div 64; rem = shift mod 64;
          msk = push_bit left 1 - 1
      in do {
        m \<leftarrow> for_up 0 (lim - off) (\<lambda>k m. do {
          upper \<leftarrow> (if rem = 0 \<or> off + k + 1 \<ge> lim then Some 0 else do {
            upper \<leftarrow> aget m src (off + k + 1);
            Some (if off + k + 1 = lim - 1 \<and> left \<noteq> 0 then upper AND msk else upper) });
          lower \<leftarrow> aget m src (off + k);
          let lower = (if left \<noteq> 0 \<and> off + k = lim - 1 then lower AND msk else lower);
          m \<leftarrow> aset m dst k (push_bit (64 - rem) upper OR drop_bit rem lower);
          if left \<noteq> 0 \<and> k = lim - 1 then do { w \<leftarrow> aget m dst k; aset m dst k (w AND msk) } else Some m }) m;
        if off \<noteq> 0 then (if off \<le> lim then memset_words dst (lim - off) 0 off m else None) else Some m })"

function shift_left_loop :: "addr \<Rightarrow> addr \<Rightarrow> nat \<Rightarrow> nat \<Rightarrow> nat \<Rightarrow> nat \<Rightarrow> nat \<Rightarrow> store \<Rightarrow> store option" where
  "shift_left_loop dst src lim left off rem k1 m =
     (if k1 = 0 then Some m else let k = k1 - 1 in do {
        lower \<leftarrow> (if rem \<noteq> 0 \<and> k > 0 then aget m src (k - 1) else Some 0);
        upper \<leftarrow> aget m src k;
        let upper = (if left \<noteq> 0 \<and> k = lim - 1 then upper AND (push_bit left 1 - 1) else upper);
        m \<leftarrow> aset m dst (k + off) (drop_bit (64 - rem) lower OR push_bit rem upper);
        m \<leftarrow> (if left \<noteq> 0 \<and> k + off = lim - 1
              then do { w \<leftarrow> aget m dst (k + off); aset m dst (k + off) (w AND (push_bit left 1 - 1)) }
              else Some m);
        shift_left_loop dst src lim left off rem (k1 - 1) m })"
  by pat_completeness auto
termination by (relation "measure (\<lambda>(dst, src, lim, left, off, rem, k1, m). k1)") auto

declare shift_left_loop.simps [simp del]

definition uu_bitmap_shift_left :: "addr \<Rightarrow> addr \<Rightarrow> nat \<Rightarrow> nat \<Rightarrow> store \<Rightarrow> store option" where
  "uu_bitmap_shift_left dst src shift bits m =
     (let lim = BITS_TO_LONGS bits; left = bits mod 64; off = shift div 64; rem = shift mod 64 in do {
        m \<leftarrow> shift_left_loop dst src lim left off rem (lim - off) m;
        if off \<noteq> 0 then memset_words dst 0 0 off m else Some m })"

section \<open>Ranges\<close>

partial_function (option) bitmap_set_loop ::
  "addr \<Rightarrow> nat \<Rightarrow> int \<Rightarrow> int \<Rightarrow> u64 \<Rightarrow> store \<Rightarrow> (nat \<times> int \<times> u64 \<times> store) option" where
  "bitmap_set_loop bmap p nr bits_to_set mask_to_set m =
     (if nr - bits_to_set \<ge> 0 then do {
        w \<leftarrow> aget m bmap p;
        m \<leftarrow> aset m bmap p (w OR mask_to_set);
        bitmap_set_loop bmap (Suc p) (nr - bits_to_set) 64 (NOT 0) m }
      else Some (p, nr, mask_to_set, m))"

definition bitmap_set :: "addr \<Rightarrow> nat \<Rightarrow> nat \<Rightarrow> store \<Rightarrow> store option" where
  "bitmap_set bmap start nr m = do {
     (p, nr', mask_to_set, m) \<leftarrow> bitmap_set_loop bmap (BIT_WORD start) (int nr) (64 - int (start mod 64))
       (BITMAP_FIRST_WORD_MASK start) m;
     if nr' \<noteq> 0 then do {
       w \<leftarrow> aget m bmap p;
       aset m bmap p (w OR (mask_to_set AND BITMAP_LAST_WORD_MASK (start + nr))) }
     else Some m }"

partial_function (option) bitmap_clear_loop ::
  "addr \<Rightarrow> nat \<Rightarrow> int \<Rightarrow> int \<Rightarrow> u64 \<Rightarrow> store \<Rightarrow> (nat \<times> int \<times> u64 \<times> store) option" where
  "bitmap_clear_loop bmap p nr bits_to_clear mask_to_clear m =
     (if nr - bits_to_clear \<ge> 0 then do {
        w \<leftarrow> aget m bmap p;
        m \<leftarrow> aset m bmap p (w AND NOT mask_to_clear);
        bitmap_clear_loop bmap (Suc p) (nr - bits_to_clear) 64 (NOT 0) m }
      else Some (p, nr, mask_to_clear, m))"

definition bitmap_clear :: "addr \<Rightarrow> nat \<Rightarrow> nat \<Rightarrow> store \<Rightarrow> store option" where
  "bitmap_clear bmap start nr m = do {
     (p, nr', mask_to_clear, m) \<leftarrow> bitmap_clear_loop bmap (BIT_WORD start) (int nr) (64 - int (start mod 64))
       (BITMAP_FIRST_WORD_MASK start) m;
     if nr' \<noteq> 0 then do {
       w \<leftarrow> aget m bmap p;
       aset m bmap p (w AND NOT (mask_to_clear AND BITMAP_LAST_WORD_MASK (start + nr))) }
     else Some m }"

partial_function (option) bitmap_find_next_zero_area ::
  "addr \<Rightarrow> u64 \<Rightarrow> u64 \<Rightarrow> u32 \<Rightarrow> u64 \<Rightarrow> store \<Rightarrow> u64 option" where
  "bitmap_find_next_zero_area bmap sz start nr align_mask m = do {
     index \<leftarrow> find_next_zero_bit bmap sz start m;
     let index = ALIGN_MASK index align_mask;
     let end = index + ucast nr;
     if end > sz then Some end
     else do {
       i \<leftarrow> find_next_bit bmap end index m;
       if i < end then bitmap_find_next_zero_area bmap sz (i + 1) nr align_mask m
       else Some index } }"

section \<open>The inline functions\<close>

definition bitmap_zero :: "bool \<Rightarrow> addr \<Rightarrow> nat \<Rightarrow> store \<Rightarrow> store option" where
  "bitmap_zero cst dst nbits m = (if small_const_nbits cst nbits then aset m dst 0 0
     else memset_words dst 0 0 (BITS_TO_LONGS nbits) m)"

definition bitmap_fill :: "bool \<Rightarrow> addr \<Rightarrow> nat \<Rightarrow> store \<Rightarrow> store option" where
  "bitmap_fill cst dst nbits m = (let nlongs = BITS_TO_LONGS nbits in
     if nlongs = 0 then None else do {
       m \<leftarrow> (if \<not> small_const_nbits cst nbits then memset_words dst 0 (NOT 0) (nlongs - 1) m else Some m);
       aset m dst (nlongs - 1) (BITMAP_LAST_WORD_MASK nbits) })"

definition bitmap_copy :: "bool \<Rightarrow> addr \<Rightarrow> addr \<Rightarrow> nat \<Rightarrow> store \<Rightarrow> store option" where
  "bitmap_copy cst dst src nbits m =
     (if small_const_nbits cst nbits then do { w \<leftarrow> aget m src 0; aset m dst 0 w }
      else memcpy_words dst src (BITS_TO_LONGS nbits) m)"

definition bitmap_and :: "bool \<Rightarrow> addr \<Rightarrow> addr \<Rightarrow> addr \<Rightarrow> nat \<Rightarrow> store \<Rightarrow> (bool \<times> store) option" where
  "bitmap_and cst dst src1 src2 nbits m =
     (if small_const_nbits cst nbits then do {
        v \<leftarrow> aget m src1 0; w \<leftarrow> aget m src2 0; m \<leftarrow> aset m dst 0 (v AND w); Some (v AND w \<noteq> 0, m) }
      else uu_bitmap_and dst src1 src2 nbits m)"

definition bitmap_or :: "bool \<Rightarrow> addr \<Rightarrow> addr \<Rightarrow> addr \<Rightarrow> nat \<Rightarrow> store \<Rightarrow> store option" where
  "bitmap_or cst dst src1 src2 nbits m =
     (if small_const_nbits cst nbits then do {
        v \<leftarrow> aget m src1 0; w \<leftarrow> aget m src2 0; aset m dst 0 (v OR w) }
      else uu_bitmap_or dst src1 src2 nbits m)"

definition bitmap_xor :: "bool \<Rightarrow> addr \<Rightarrow> addr \<Rightarrow> addr \<Rightarrow> nat \<Rightarrow> store \<Rightarrow> store option" where
  "bitmap_xor cst dst src1 src2 nbits m =
     (if small_const_nbits cst nbits then do {
        v \<leftarrow> aget m src1 0; w \<leftarrow> aget m src2 0; aset m dst 0 (v XOR w) }
      else uu_bitmap_xor dst src1 src2 nbits m)"

definition bitmap_andnot :: "bool \<Rightarrow> addr \<Rightarrow> addr \<Rightarrow> addr \<Rightarrow> nat \<Rightarrow> store \<Rightarrow> (bool \<times> store) option" where
  "bitmap_andnot cst dst src1 src2 nbits m =
     (if small_const_nbits cst nbits then do {
        v \<leftarrow> aget m src1 0; w \<leftarrow> aget m src2 0; m \<leftarrow> aset m dst 0 (v AND NOT w); Some (v AND NOT w \<noteq> 0, m) }
      else uu_bitmap_andnot dst src1 src2 nbits m)"

definition bitmap_complement :: "bool \<Rightarrow> addr \<Rightarrow> addr \<Rightarrow> nat \<Rightarrow> store \<Rightarrow> store option" where
  "bitmap_complement cst dst src nbits m =
     (if small_const_nbits cst nbits then do {
        w \<leftarrow> aget m src 0; aset m dst 0 (NOT w AND BITMAP_LAST_WORD_MASK nbits) }
      else uu_bitmap_complement dst src nbits m)"

definition bitmap_equal :: "bool \<Rightarrow> addr \<Rightarrow> addr \<Rightarrow> nat \<Rightarrow> store \<Rightarrow> bool option" where
  "bitmap_equal cst src1 src2 nbits m =
     (if small_const_nbits cst nbits then do {
        v \<leftarrow> aget m src1 0; w \<leftarrow> aget m src2 0; Some ((v XOR w) AND BITMAP_LAST_WORD_MASK nbits = 0) }
      else uu_bitmap_equal src1 src2 nbits m)"

definition bitmap_intersects :: "bool \<Rightarrow> addr \<Rightarrow> addr \<Rightarrow> nat \<Rightarrow> store \<Rightarrow> bool option" where
  "bitmap_intersects cst src1 src2 nbits m =
     (if small_const_nbits cst nbits then do {
        v \<leftarrow> aget m src1 0; w \<leftarrow> aget m src2 0; Some ((v AND w) AND BITMAP_LAST_WORD_MASK nbits \<noteq> 0) }
      else uu_bitmap_intersects src1 src2 nbits m)"

definition bitmap_subset :: "bool \<Rightarrow> addr \<Rightarrow> addr \<Rightarrow> nat \<Rightarrow> store \<Rightarrow> bool option" where
  "bitmap_subset cst src1 src2 nbits m =
     (if small_const_nbits cst nbits then do {
        v \<leftarrow> aget m src1 0; w \<leftarrow> aget m src2 0; Some ((v AND NOT w) AND BITMAP_LAST_WORD_MASK nbits = 0) }
      else uu_bitmap_subset src1 src2 nbits m)"

definition bitmap_empty :: "bool \<Rightarrow> addr \<Rightarrow> nat \<Rightarrow> store \<Rightarrow> bool option" where
  "bitmap_empty cst src nbits m =
     (if small_const_nbits cst nbits then do {
        w \<leftarrow> aget m src 0; Some (w AND BITMAP_LAST_WORD_MASK nbits = 0) }
      else uu_bitmap_empty src nbits m)"

definition bitmap_full :: "bool \<Rightarrow> addr \<Rightarrow> nat \<Rightarrow> store \<Rightarrow> bool option" where
  "bitmap_full cst src nbits m =
     (if small_const_nbits cst nbits then do {
        w \<leftarrow> aget m src 0; Some (NOT w AND BITMAP_LAST_WORD_MASK nbits = 0) }
      else uu_bitmap_full src nbits m)"

definition bitmap_weight :: "bool \<Rightarrow> addr \<Rightarrow> nat \<Rightarrow> store \<Rightarrow> int option" where
  "bitmap_weight cst src nbits m =
     (if small_const_nbits cst nbits then do {
        w \<leftarrow> aget m src 0; Some (uint (hweight_long (w AND BITMAP_LAST_WORD_MASK nbits))) }
      else uu_bitmap_weight src nbits m)"

definition bitmap_shift_right :: "bool \<Rightarrow> addr \<Rightarrow> addr \<Rightarrow> nat \<Rightarrow> nat \<Rightarrow> store \<Rightarrow> store option" where
  "bitmap_shift_right cst dst src n nbits m =
     (if small_const_nbits cst nbits then
        (if n < 64 then do { w \<leftarrow> aget m src 0; aset m dst 0 (drop_bit n w) } else None)
      else uu_bitmap_shift_right dst src n nbits m)"

definition bitmap_shift_left :: "bool \<Rightarrow> addr \<Rightarrow> addr \<Rightarrow> nat \<Rightarrow> nat \<Rightarrow> store \<Rightarrow> store option" where
  "bitmap_shift_left cst dst src n nbits m =
     (if small_const_nbits cst nbits then
        (if n < 64 then do {
           w \<leftarrow> aget m src 0; aset m dst 0 (push_bit n w AND BITMAP_LAST_WORD_MASK nbits) } else None)
      else uu_bitmap_shift_left dst src n nbits m)"

end
