(* ===== verification/Bitmap_Ops.thy ===== *)
theory Bitmap_Ops
  imports Bitmap
begin

text \<open>
  The abstraction of a bitmap of \<open>n\<close> bits is the set of its bit positions, \<open>bitset m p n\<close>; unused
  bits of the last word are not part of it. The lemmas show that the word loops of \<^verbatim>\<open>bitmap.c\<close>
  compute the operations of sets, for any aliasing of the pointers.
\<close>

section \<open>Abstraction\<close>

definition has_bits :: "store \<Rightarrow> addr \<Rightarrow> nat \<Rightarrow> bool" where
  "has_bits m p n \<longleftrightarrow> (case m p of None \<Rightarrow> False | Some ws \<Rightarrow> n \<le> 64 * length ws)"

definition bitset :: "store \<Rightarrow> addr \<Rightarrow> nat \<Rightarrow> nat set" where
  "bitset m p n = {i. i < n \<and> bm (the (m p)) i}"

lemma has_bitsE:
  assumes "has_bits m p n"
  obtains ws where "m p = Some ws" and "n \<le> 64 * length ws"
  using assms by (auto simp: has_bits_def split: option.splits)

lemma longs_eq: "BITS_TO_LONGS n = n div 64 + (if n mod 64 = 0 then 0 else 1)"
proof -
  obtain q r where n: "n = 64 * q + r" "r < 64" by (metis div_mult_mod_eq mod_less_divisor mult.commute zero_less_numeral)
  have "(r + 63) div 64 = (if r = 0 then 0 else 1)" using n(2) by auto
  then show ?thesis using n by (simp add: BITS_TO_LONGS_def)
qed

lemma longs_le: "n \<le> 64 * l \<longleftrightarrow> BITS_TO_LONGS n \<le> l"
  by (simp add: BITS_TO_LONGS_def) linarith

lemma same_word: "i < n \<Longrightarrow> i div 64 = n div 64 \<Longrightarrow> i mod 64 < n mod 64" for i n :: nat
  using div_mult_mod_eq [of i 64] div_mult_mod_eq [of n 64] by linarith

lemma div_longs: "k < n div 64 \<Longrightarrow> k < BITS_TO_LONGS n"
  and mod_longs: "n mod 64 \<noteq> 0 \<Longrightarrow> BITS_TO_LONGS n = Suc (n div 64)"
  by (simp_all add: longs_eq)

lemma bit_longs: "i < n \<Longrightarrow> i div 64 < BITS_TO_LONGS n"
  using same_word [of i n] div_le_mono [of i n 64] by (cases "i div 64 = n div 64") (auto simp: longs_eq)

lemma aget_longs:
  assumes "m p = Some ws" and "n \<le> 64 * length ws" and "k < BITS_TO_LONGS n"
  shows "aget m p k = Some (ws ! k)"
  using assms by (auto simp: aget_def longs_le)

lemma last_word_mask: "bit (BITMAP_LAST_WORD_MASK n) i \<longleftrightarrow> i < (if n mod 64 = 0 then 64 else n mod 64)"
proof (cases "n mod 64 = 0")
  case False
  have "push_bit (n mod 64) 1 - 1 = (mask (n mod 64) :: u64)" by (simp add: mask_eq_exp_minus_1)
  then show ?thesis using False by (auto simp: BITMAP_LAST_WORD_MASK_def bit_simps)
qed (simp add: BITMAP_LAST_WORD_MASK_def)

text \<open>Some bit below \<open>n\<close> is set: a whole word is not zero, or the masked last word is not.\<close>

lemma any_bit_iff:
  fixes F :: "nat \<Rightarrow> u64"
  shows "(\<exists>k. k < n div 64 \<and> F k \<noteq> 0) \<or> n mod 64 \<noteq> 0 \<and> F (n div 64) AND BITMAP_LAST_WORD_MASK n \<noteq> 0 \<longleftrightarrow>
    (\<exists>i < n. bit (F (i div 64)) (i mod 64))" (is "?L \<longleftrightarrow> ?R")
proof
  assume ?L
  then show ?R
  proof
    assume "\<exists>k. k < n div 64 \<and> F k \<noteq> 0"
    then obtain k j where "k < n div 64" "j < 64" "bit (F k) j" by (auto simp: word_neq0_bit)
    then show ?R by (intro exI [of _ "64 * k + j"]) (simp; linarith)
  next
    assume "n mod 64 \<noteq> 0 \<and> F (n div 64) AND BITMAP_LAST_WORD_MASK n \<noteq> 0"
    then obtain j where "j < n mod 64" "bit (F (n div 64)) j" "j < 64"
      by (auto simp: word_neq0_bit bit_and_iff last_word_mask split: if_splits)
    then show ?R by (intro exI [of _ "64 * (n div 64) + j"]) (simp add: div_mult_mod_eq; presburger)
  qed
next
  assume ?R
  then obtain i where i: "i < n" "bit (F (i div 64)) (i mod 64)" by blast
  show ?L
  proof (cases "i div 64 < n div 64")
    case True
    then show ?thesis using i(2) by auto
  next
    case False
    then have e: "i div 64 = n div 64" "i mod 64 < n mod 64"
      using i(1) same_word [of i n] div_le_mono [of i n 64] by auto
    then have "bit (F (n div 64) AND BITMAP_LAST_WORD_MASK n) (i mod 64)"
      using i(2) by (simp add: bit_and_iff last_word_mask)
    then show ?thesis using e(2) by auto
  qed
qed

lemma none_bit_loop:
  fixes F :: "nat \<Rightarrow> u64"
  assumes "\<And>k. k < BITS_TO_LONGS n \<Longrightarrow> rd k = Some (F k \<noteq> 0)"
    and "n mod 64 \<noteq> 0 \<Longrightarrow> lst = Some (F (n div 64) AND BITMAP_LAST_WORD_MASK n = 0)"
  shows "do { e \<leftarrow> exit_up 0 (n div 64) rd; if e then Some False else if n mod 64 \<noteq> 0 then lst else Some True } =
    Some (\<forall>i < n. \<not> bit (F (i div 64)) (i mod 64))"
proof -
  have "exit_up 0 (n div 64) rd = Some (\<exists>k. 0 \<le> k \<and> k < n div 64 \<and> F k \<noteq> 0)"
    by (rule exit_up_iff) (simp add: assms(1) div_longs)
  then show ?thesis using assms(2) any_bit_iff [of n F] by auto
qed

lemma some_bit_loop:
  fixes F :: "nat \<Rightarrow> u64"
  assumes "\<And>k. k < BITS_TO_LONGS n \<Longrightarrow> rd k = Some (F k \<noteq> 0)"
    and "n mod 64 \<noteq> 0 \<Longrightarrow> lst = Some (F (n div 64) AND BITMAP_LAST_WORD_MASK n \<noteq> 0)"
  shows "do { e \<leftarrow> exit_up 0 (n div 64) rd; if e then Some True else if n mod 64 \<noteq> 0 then lst else Some False } =
    Some (\<exists>i < n. bit (F (i div 64)) (i mod 64))"
proof -
  have "exit_up 0 (n div 64) rd = Some (\<exists>k. 0 \<le> k \<and> k < n div 64 \<and> F k \<noteq> 0)"
    by (rule exit_up_iff) (simp add: assms(1) div_longs)
  then show ?thesis using assms(2) any_bit_iff [of n F] by auto
qed

section \<open>Tests\<close>

lemma empty_set:
  assumes "has_bits m p n"
  shows "uu_bitmap_empty p n m = Some (bitset m p n = {})"
proof -
  obtain ws where ws: "m p = Some ws" "n \<le> 64 * length ws" using assms by (rule has_bitsE)
  have "uu_bitmap_empty p n m = Some (\<forall>i < n. \<not> bit (ws ! (i div 64)) (i mod 64))"
    unfolding uu_bitmap_empty_def Let_def
    by (rule none_bit_loop) (simp_all add: aget_longs [of m p ws n, OF ws] mod_longs)
  then show ?thesis using ws by (auto simp: bitset_def bm_def)
qed

lemma full_set:
  assumes "has_bits m p n"
  shows "uu_bitmap_full p n m = Some (bitset m p n = {..<n})"
proof -
  obtain ws where ws: "m p = Some ws" "n \<le> 64 * length ws" using assms by (rule has_bitsE)
  have "uu_bitmap_full p n m = Some (\<forall>i < n. \<not> bit (NOT (ws ! (i div 64))) (i mod 64))"
    unfolding uu_bitmap_full_def Let_def
    by (rule none_bit_loop) (simp_all add: aget_longs [of m p ws n, OF ws] mod_longs)
  then show ?thesis using ws by (auto simp: bitset_def bm_def bit_not_iff)
qed

lemma equal_set:
  assumes "has_bits m p n" and "has_bits m q n"
  shows "uu_bitmap_equal p q n m = Some (bitset m p n = bitset m q n)"
proof -
  obtain vs where vs: "m p = Some vs" "n \<le> 64 * length vs" using assms(1) by (rule has_bitsE)
  obtain ws where ws: "m q = Some ws" "n \<le> 64 * length ws" using assms(2) by (rule has_bitsE)
  have x: "v \<noteq> w \<longleftrightarrow> v XOR w \<noteq> 0" for v w :: u64
    by (auto simp: bit_word_zero_iff bit_xor_iff intro: bit_word_eqI)
  have "uu_bitmap_equal p q n m = Some (\<forall>i < n. \<not> bit (vs ! (i div 64) XOR ws ! (i div 64)) (i mod 64))"
    unfolding uu_bitmap_equal_def Let_def
    by (rule none_bit_loop [where F = "\<lambda>k. vs ! k XOR ws ! k"])
      (simp_all add: aget_longs [of m p vs n, OF vs] aget_longs [of m q ws n, OF ws] mod_longs x [symmetric])
  then show ?thesis using vs ws by (auto simp: bitset_def bm_def bit_xor_iff)
qed

lemma intersects_set:
  assumes "has_bits m p n" and "has_bits m q n"
  shows "uu_bitmap_intersects p q n m = Some (bitset m p n \<inter> bitset m q n \<noteq> {})"
proof -
  obtain vs where vs: "m p = Some vs" "n \<le> 64 * length vs" using assms(1) by (rule has_bitsE)
  obtain ws where ws: "m q = Some ws" "n \<le> 64 * length ws" using assms(2) by (rule has_bitsE)
  have "uu_bitmap_intersects p q n m = Some (\<exists>i < n. bit (vs ! (i div 64) AND ws ! (i div 64)) (i mod 64))"
    unfolding uu_bitmap_intersects_def Let_def
    by (rule some_bit_loop [where F = "\<lambda>k. vs ! k AND ws ! k"])
      (simp_all add: aget_longs [of m p vs n, OF vs] aget_longs [of m q ws n, OF ws] mod_longs)
  then show ?thesis using vs ws by (auto simp: bitset_def bm_def bit_and_iff)
qed

lemma subset_set:
  assumes "has_bits m p n" and "has_bits m q n"
  shows "uu_bitmap_subset p q n m = Some (bitset m p n \<subseteq> bitset m q n)"
proof -
  obtain vs where vs: "m p = Some vs" "n \<le> 64 * length vs" using assms(1) by (rule has_bitsE)
  obtain ws where ws: "m q = Some ws" "n \<le> 64 * length ws" using assms(2) by (rule has_bitsE)
  have "uu_bitmap_subset p q n m = Some (\<forall>i < n. \<not> bit (vs ! (i div 64) AND NOT (ws ! (i div 64))) (i mod 64))"
    unfolding uu_bitmap_subset_def Let_def
    by (rule none_bit_loop [where F = "\<lambda>k. vs ! k AND NOT (ws ! k)"])
      (simp_all add: aget_longs [of m p vs n, OF vs] aget_longs [of m q ws n, OF ws] mod_longs)
  then show ?thesis using vs ws by (auto simp: bitset_def bm_def bit_and_iff bit_not_iff)
qed

section \<open>Bitwise operations\<close>

lemma bm_blit:
  assumes "n \<le> 64 * length a" and "i < n"
  shows "bm (blit 0 f (BITS_TO_LONGS n) a) i \<longleftrightarrow> bit (f (i div 64)) (i mod 64)"
proof -
  have "BITS_TO_LONGS n \<le> length a" "i div 64 < BITS_TO_LONGS n" using assms longs_le bit_longs by auto
  then show ?thesis by (simp add: bm_def blit_props)
qed

lemma has_bits_blit: "n \<le> 64 * length a \<Longrightarrow> has_bits (m(d \<mapsto> blit 0 f (BITS_TO_LONGS n) a)) d n"
  by (simp add: has_bits_def blit_props longs_le)

lemma bitset_blit:
  assumes "n \<le> 64 * length a"
  shows "bitset (m(d \<mapsto> blit 0 f (BITS_TO_LONGS n) a)) d n = {i. i < n \<and> bit (f (i div 64)) (i mod 64)}"
  using bm_blit [OF assms, of _ f] by (auto simp: bitset_def)

lemma bitset_words: "m p = Some ws \<Longrightarrow> i \<in> bitset m p n \<longleftrightarrow> i < n \<and> bit (ws ! (i div 64)) (i mod 64)"
  by (simp add: bitset_def bm_def)

lemma read_upd:
  assumes "m d = Some a" and "m p = Some v" and "length a' = length a"
    and "k < length v" and "a' ! k = a ! k"
  shows "aget (m(d \<mapsto> a')) p k = Some (v ! k)"
  using assms by (cases "p = d") (simp_all add: aget_def)

lemma write_upd: "k < length a' \<Longrightarrow> aset (m(d \<mapsto> a')) d k v = Some (m(d \<mapsto> a'[k := v]))"
  by (simp add: aset_def)

text \<open>The loop of the binary operations, for every aliasing of \<open>d\<close>, \<open>p\<close> and \<open>q\<close>.\<close>

lemma binop_loop:
  assumes m: "m d = Some a" "m p = Some v" "m q = Some w"
    and n: "n \<le> length a" "n \<le> length v" "n \<le> length w"
  shows "for_up 0 n (\<lambda>k m. do { x \<leftarrow> aget m p k; y \<leftarrow> aget m q k; aset m d k (f x y) }) m =
    Some (m(d \<mapsto> blit 0 (\<lambda>k. f (v ! k) (w ! k)) n a))"
proof (rule for_up_blit_store [where m = m and d = d])
  fix k a' assume k: "k < n" "length a' = length a" and eq: "\<And>j. k \<le> j \<Longrightarrow> j < length a \<Longrightarrow> a' ! j = a ! j"
  have "a' ! k = a ! k" using eq k n by auto
  then show "(aget (m(d \<mapsto> a')) p k \<bind> (\<lambda>x. aget (m(d \<mapsto> a')) q k \<bind> (\<lambda>y. aset (m(d \<mapsto> a')) d k (f x y)))) =
      Some (m(d \<mapsto> a'[k := f (v ! k) (w ! k)]))"
    using k n read_upd [OF m(1,2) k(2)] read_upd [OF m(1,3) k(2)] by (simp add: write_upd)
qed (use m n in simp_all)

lemma fold_or: "fold (\<lambda>k r. r OR g k) ks (r :: u64) = 0 \<longleftrightarrow> r = 0 \<and> (\<forall>k \<in> set ks. g k = 0)"
  by (induction ks arbitrary: r) (auto simp: or_eq_0_iff)

lemma binop_loop_acc:
  assumes m: "m d = Some a" "m p = Some v" "m q = Some w"
    and n: "n \<le> length a" "n \<le> length v" "n \<le> length w"
  shows "for_up 0 n (\<lambda>k (r, m). do { x \<leftarrow> aget m p k; y \<leftarrow> aget m q k; m \<leftarrow> aset m d k (f x y); Some (r OR f x y, m) }) (0, m) =
    Some (fold (\<lambda>k r. r OR f (v ! k) (w ! k)) [0..<n] 0, m(d \<mapsto> blit 0 (\<lambda>k. f (v ! k) (w ! k)) n a))"
proof (rule for_up_blit [where m = m and d = d and h = "\<lambda>k r. r OR f (v ! k) (w ! k)"])
  fix k a' and r :: u64
  assume k: "k < n" "length a' = length a" and eq: "\<And>j. k \<le> j \<Longrightarrow> j < length a \<Longrightarrow> a' ! j = a ! j"
  have "a' ! k = a ! k" using eq k n by auto
  then show "(case (r, m(d \<mapsto> a')) of (r, m) \<Rightarrow> do { x \<leftarrow> aget m p k; y \<leftarrow> aget m q k; m \<leftarrow> aset m d k (f x y); Some (r OR f x y, m) }) =
      Some (r OR f (v ! k) (w ! k), m(d \<mapsto> a'[k := f (v ! k) (w ! k)]))"
    using k n read_upd [OF m(1,2) k(2)] read_upd [OF m(1,3) k(2)] by (simp add: write_upd)
qed (use m n in simp_all)

lemma or_set:
  assumes "has_bits m d n" and "has_bits m p n" and "has_bits m q n"
  shows "\<exists>m'. uu_bitmap_or d p q n m = Some m' \<and> has_bits m' d n \<and>
      bitset m' d n = bitset m p n \<union> bitset m q n \<and> (\<forall>x. x \<noteq> d \<longrightarrow> m' x = m x)"
    and "\<exists>m'. uu_bitmap_xor d p q n m = Some m' \<and> has_bits m' d n \<and>
      bitset m' d n = (bitset m p n - bitset m q n) \<union> (bitset m q n - bitset m p n) \<and> (\<forall>x. x \<noteq> d \<longrightarrow> m' x = m x)"
proof -
  obtain a where a: "m d = Some a" "n \<le> 64 * length a" using assms(1) by (rule has_bitsE)
  obtain v where v: "m p = Some v" "n \<le> 64 * length v" using assms(2) by (rule has_bitsE)
  obtain w where w: "m q = Some w" "n \<le> 64 * length w" using assms(3) by (rule has_bitsE)
  note loop = binop_loop [OF a(1) v(1) w(1), of "BITS_TO_LONGS n"]
  show "\<exists>m'. uu_bitmap_or d p q n m = Some m' \<and> has_bits m' d n \<and>
      bitset m' d n = bitset m p n \<union> bitset m q n \<and> (\<forall>x. x \<noteq> d \<longrightarrow> m' x = m x)"
    unfolding uu_bitmap_or_def using loop [of "(OR)"] a(2) v(2) w(2)
    by (auto simp: longs_le [symmetric] has_bits_blit bitset_blit bitset_words [of m p v, OF v(1)] bitset_words [of m q w, OF w(1)] bit_or_iff)
  show "\<exists>m'. uu_bitmap_xor d p q n m = Some m' \<and> has_bits m' d n \<and>
      bitset m' d n = (bitset m p n - bitset m q n) \<union> (bitset m q n - bitset m p n) \<and> (\<forall>x. x \<noteq> d \<longrightarrow> m' x = m x)"
    unfolding uu_bitmap_xor_def using loop [of "(XOR)"] a(2) v(2) w(2)
    by (auto simp: longs_le [symmetric] has_bits_blit bitset_blit bitset_words [of m p v, OF v(1)] bitset_words [of m q w, OF w(1)] bit_xor_iff)
qed

text \<open>
  The Boolean result of the conjunctions is taken over whole words: it may come from an unused
  bit of the last word.
\<close>

lemma any_word_iff: "(\<exists>k < l. F k \<noteq> (0 :: u64)) \<longleftrightarrow> (\<exists>i < 64 * l. bit (F (i div 64)) (i mod 64))"
  using any_bit_iff [of "64 * l" F] by auto

lemma and_set:
  assumes "has_bits m d n" and "has_bits m p n" and "has_bits m q n"
  shows "\<exists>m'. uu_bitmap_and d p q n m =
        Some (\<exists>i < 64 * BITS_TO_LONGS n. bm (the (m p)) i \<and> bm (the (m q)) i, m') \<and> has_bits m' d n \<and>
      bitset m' d n = bitset m p n \<inter> bitset m q n \<and> (\<forall>x. x \<noteq> d \<longrightarrow> m' x = m x)"
    and "\<exists>m'. uu_bitmap_andnot d p q n m =
        Some (\<exists>i < 64 * BITS_TO_LONGS n. bm (the (m p)) i \<and> \<not> bm (the (m q)) i, m') \<and> has_bits m' d n \<and>
      bitset m' d n = bitset m p n - bitset m q n \<and> (\<forall>x. x \<noteq> d \<longrightarrow> m' x = m x)"
proof -
  obtain a where a: "m d = Some a" "n \<le> 64 * length a" using assms(1) by (rule has_bitsE)
  obtain v where v: "m p = Some v" "n \<le> 64 * length v" using assms(2) by (rule has_bitsE)
  obtain w where w: "m q = Some w" "n \<le> 64 * length w" using assms(3) by (rule has_bitsE)
  have len: "BITS_TO_LONGS n \<le> length a" "BITS_TO_LONGS n \<le> length v" "BITS_TO_LONGS n \<le> length w"
    using a v w longs_le by auto
  note loop = binop_loop_acc [OF a(1) v(1) w(1) len]
  have r: "fold (\<lambda>k r. r OR f (v ! k) (w ! k)) [0..<l] 0 \<noteq> 0 \<longleftrightarrow>
      (\<exists>i < 64 * l. bit (f (v ! (i div 64)) (w ! (i div 64))) (i mod 64))" for f :: "u64 \<Rightarrow> u64 \<Rightarrow> u64" and l
    unfolding fold_or any_word_iff [of l "\<lambda>k. f (v ! k) (w ! k)", symmetric] by auto
  let ?m = "\<lambda>f. m(d \<mapsto> blit 0 (\<lambda>k. f (v ! k) (w ! k)) (BITS_TO_LONGS n) a)"
  show "\<exists>m'. uu_bitmap_and d p q n m =
        Some (\<exists>i < 64 * BITS_TO_LONGS n. bm (the (m p)) i \<and> bm (the (m q)) i, m') \<and> has_bits m' d n \<and>
      bitset m' d n = bitset m p n \<inter> bitset m q n \<and> (\<forall>x. x \<noteq> d \<longrightarrow> m' x = m x)"
  proof (intro exI [of _ "?m (AND)"] conjI)
    show "uu_bitmap_and d p q n m =
        Some (\<exists>i < 64 * BITS_TO_LONGS n. bm (the (m p)) i \<and> bm (the (m q)) i, ?m (AND))"
      unfolding uu_bitmap_and_def loop [of "(AND)"] by (simp add: r v(1) w(1) bm_def bit_and_iff)
  qed (use a(2) in \<open>auto simp: has_bits_blit bitset_blit bitset_words [of m p v, OF v(1)]
        bitset_words [of m q w, OF w(1)] bit_and_iff\<close>)
  show "\<exists>m'. uu_bitmap_andnot d p q n m =
        Some (\<exists>i < 64 * BITS_TO_LONGS n. bm (the (m p)) i \<and> \<not> bm (the (m q)) i, m') \<and> has_bits m' d n \<and>
      bitset m' d n = bitset m p n - bitset m q n \<and> (\<forall>x. x \<noteq> d \<longrightarrow> m' x = m x)"
  proof (intro exI [of _ "?m (\<lambda>x y. x AND NOT y)"] conjI)
    show "uu_bitmap_andnot d p q n m =
        Some (\<exists>i < 64 * BITS_TO_LONGS n. bm (the (m p)) i \<and> \<not> bm (the (m q)) i, ?m (\<lambda>x y. x AND NOT y))"
      unfolding uu_bitmap_andnot_def loop [of "\<lambda>x y. x AND NOT y"]
      by (simp add: r [of "\<lambda>x y. x AND NOT y"] v(1) w(1) bm_def bit_and_iff bit_not_iff)
  qed (use a(2) in \<open>auto simp: has_bits_blit bitset_blit bitset_words [of m p v, OF v(1)]
        bitset_words [of m q w, OF w(1)] bit_and_iff bit_not_iff\<close>)
qed

lemma complement_set:
  assumes "has_bits m d n" and "has_bits m p n"
  shows "\<exists>m'. uu_bitmap_complement d p n m = Some m' \<and> has_bits m' d n \<and>
      bitset m' d n = {..<n} - bitset m p n \<and> (\<forall>x. x \<noteq> d \<longrightarrow> m' x = m x)"
proof -
  obtain a where a: "m d = Some a" "n \<le> 64 * length a" using assms(1) by (rule has_bitsE)
  obtain v where v: "m p = Some v" "n \<le> 64 * length v" using assms(2) by (rule has_bitsE)
  have len: "n div 64 \<le> length a" "n div 64 \<le> length v"
    using a v longs_le [of n "length a"] longs_le [of n "length v"] by (auto simp: longs_eq split: if_splits)
  define l where "l = n div 64"
  define b where "b = blit 0 (\<lambda>k. NOT (v ! k)) l a"
  have loop: "for_up 0 l (\<lambda>k m. do { w \<leftarrow> aget m p k; aset m d k (NOT w) }) m = Some (m(d \<mapsto> b))"
    unfolding b_def
  proof (rule for_up_blit_store [where m = m and d = d])
    fix k a' assume k: "k < l" "length a' = length a" and eq: "\<And>j. k \<le> j \<Longrightarrow> j < length a \<Longrightarrow> a' ! j = a ! j"
    have "a' ! k = a ! k" using eq k len by (auto simp: l_def)
    then show "(aget (m(d \<mapsto> a')) p k \<bind> (\<lambda>w. aset (m(d \<mapsto> a')) d k (NOT w))) =
        Some (m(d \<mapsto> a'[k := NOT (v ! k)]))"
      using k len read_upd [OF a(1) v(1) k(2)] by (simp add: write_upd l_def)
  qed (use a len in \<open>simp_all add: l_def\<close>)
  have lb: "length b = length a" using len by (simp add: b_def blit_props l_def)
  have nb: "k < l \<Longrightarrow> b ! k = NOT (v ! k)" for k using len by (simp add: b_def blit_props l_def)
  show ?thesis
  proof (cases "n mod 64 = 0")
    case True
    have "i < n \<Longrightarrow> i div 64 < l" for i using True bit_longs [of i n] by (simp add: longs_eq l_def)
    then have "bitset (m(d \<mapsto> b)) d n = {..<n} - bitset m p n"
      using v(1) by (auto simp: bitset_def bm_def nb bit_not_iff)
    then show ?thesis using True loop a(2) lb
      by (auto simp: uu_bitmap_complement_def l_def has_bits_def Let_def)
  next
    case False
    then have l: "l < length a" "l < length v"
      using a v longs_le [of n "length a"] longs_le [of n "length v"] by (auto simp: longs_eq l_def)
    define b' where "b' = b[l := NOT (v ! l) AND BITMAP_LAST_WORD_MASK n]"
    have bl: "b ! l = a ! l" using l by (simp add: b_def blit_props)
    have "aget (m(d \<mapsto> b)) p l = Some (v ! l)" using read_upd [OF a(1) v(1) lb l(2) bl] .
    then have code: "uu_bitmap_complement d p n m = Some (m(d \<mapsto> b'))"
      using False loop l lb by (simp add: uu_bitmap_complement_def Let_def l_def write_upd b'_def)
    have "bm b' i \<longleftrightarrow> \<not> bm v i" if "i < n" for i
    proof (cases "i div 64 = l")
      case True
      then show ?thesis using same_word [OF that] l lb False
        by (simp add: bm_def b'_def bit_and_iff bit_not_iff last_word_mask l_def)
    next
      case False': False
      then have "i div 64 < l" using bit_longs [OF that] False by (simp add: longs_eq l_def)
      then show ?thesis by (simp add: bm_def b'_def nb bit_not_iff)
    qed
    then have "bitset (m(d \<mapsto> b')) d n = {..<n} - bitset m p n" using v(1) by (auto simp: bitset_def)
    then show ?thesis using code a(2) lb by (auto simp: has_bits_def b'_def)
  qed
qed

end
