(* ===== verification/Bitmap_Shift.thy ===== *)
theory Bitmap_Shift
  imports Bitmap_Ops
begin

text \<open>
  The shifts of \<^verbatim>\<open>bitmap.c\<close>: word by word, with the bits above \<open>n\<close> masked off, also in place. On
  the set of positions a shift is a translation that loses what leaves the range.
\<close>

definition src_word :: "nat \<Rightarrow> u64 list \<Rightarrow> nat \<Rightarrow> u64" where
  "src_word n v j = (if n mod 64 \<noteq> 0 \<and> j = BITS_TO_LONGS n - 1 then v ! j AND (push_bit (n mod 64) 1 - 1) else v ! j)"

lemma left_mask: "push_bit l 1 - 1 = (mask l :: u64)"
  by (simp add: mask_eq_exp_minus_1)

lemma longs_bounds: "n \<le> 64 * BITS_TO_LONGS n" "n mod 64 = 0 \<Longrightarrow> 64 * BITS_TO_LONGS n = n"
    "n mod 64 \<noteq> 0 \<Longrightarrow> n = 64 * (BITS_TO_LONGS n - 1) + n mod 64"
  using div_mult_mod_eq [of n 64] by (auto simp: longs_eq)

lemma bit_src_word:
  assumes "j < BITS_TO_LONGS n" and "b < 64"
  shows "bit (src_word n v j) b \<longleftrightarrow> 64 * j + b < n \<and> bm v (64 * j + b)"
proof -
  have w: "bm v (64 * j + b) \<longleftrightarrow> bit (v ! j) b" using assms(2) by (rule bm_word)
  show ?thesis
  proof (cases "n mod 64 \<noteq> 0 \<and> j = BITS_TO_LONGS n - 1")
    case True
    then have "64 * j + b < n \<longleftrightarrow> b < n mod 64" using longs_bounds(3) [of n] by linarith
    then show ?thesis using True assms w unfolding src_word_def left_mask by (auto simp: bit_simps)
  next
    case False
    then have "64 * j + b < n" using assms longs_bounds [of n] by linarith
    then show ?thesis using False w by (auto simp: src_word_def)
  qed
qed

section \<open>Right shift\<close>

definition right_word :: "nat \<Rightarrow> nat \<Rightarrow> u64 list \<Rightarrow> nat \<Rightarrow> u64" where
  "right_word sh n v k = (let lim = BITS_TO_LONGS n; off = sh div 64; rem = sh mod 64;
       upper = (if rem = 0 \<or> off + k + 1 \<ge> lim then 0 else src_word n v (off + k + 1));
       r = push_bit (64 - rem) upper OR drop_bit rem (src_word n v (off + k))
     in if n mod 64 \<noteq> 0 \<and> k = lim - 1 then r AND (push_bit (n mod 64) 1 - 1) else r)"

lemma bit_right_word:
  assumes k: "sh div 64 + k < BITS_TO_LONGS n" and b: "b < 64"
  shows "bit (right_word sh n v k) b \<longleftrightarrow> 64 * k + b + sh < n \<and> bm v (64 * k + b + sh)"
proof -
  define off where "off = sh div 64"
  define r where "r = sh mod 64"
  have sh: "sh = 64 * off + r" "r < 64" by (simp_all add: off_def r_def)
  define up where "up = (if r = 0 \<or> off + k + 1 \<ge> BITS_TO_LONGS n then 0 else src_word n v (off + k + 1))"
  have main: "bit (push_bit (64 - r) up OR drop_bit r (src_word n v (off + k))) b \<longleftrightarrow>
      64 * k + b + sh < n \<and> bm v (64 * k + b + sh)"
  proof (cases "b + r < 64")
    case True
    then have "bit (src_word n v (off + k)) (r + b) \<longleftrightarrow> 64 * k + b + sh < n \<and> bm v (64 * k + b + sh)"
      using bit_src_word [of "off + k" n "r + b" v] k by (simp add: off_def [symmetric] sh(1) algebra_simps)
    moreover have "\<not> 64 - r \<le> b" using True by linarith
    ultimately show ?thesis by (simp add: bit_or_iff bit_push_bit_iff bit_drop_bit_eq)
  next
    case False
    then have r: "r \<noteq> 0" "64 - r \<le> b" "b + r - 64 < 64" using b sh(2) by auto
    have pos: "64 * (off + k + 1) + (b + r - 64) = 64 * k + b + sh" using False by (simp add: sh(1))
    have "\<not> bit (src_word n v (off + k)) (r + b)" using False by (auto dest: bit_imp_le_length)
    moreover have "bit up (b - (64 - r)) \<longleftrightarrow> 64 * k + b + sh < n \<and> bm v (64 * k + b + sh)"
    proof (cases "off + k + 1 < BITS_TO_LONGS n")
      case True
      moreover have "b - (64 - r) = b + r - 64" using sh(2) by linarith
      moreover have "bit (src_word n v (off + k + 1)) (b + r - 64) \<longleftrightarrow> 64 * k + b + sh < n \<and> bm v (64 * k + b + sh)"
        using bit_src_word [OF True r(3), of v] unfolding pos .
      ultimately show ?thesis using r(1) by (simp add: up_def)
    next
      case F: False
      then have "64 * BITS_TO_LONGS n \<le> 64 * (off + k + 1) + (b + r - 64)" by simp
      then have "n \<le> 64 * k + b + sh" using longs_bounds(1) [of n] unfolding pos by (rule order_trans [rotated])
      then show ?thesis using F by (simp add: up_def)
    qed
    ultimately show ?thesis using b r by (simp add: bit_or_iff bit_push_bit_iff bit_drop_bit_eq)
  qed
  have keep: "n mod 64 \<noteq> 0 \<Longrightarrow> k = BITS_TO_LONGS n - 1 \<Longrightarrow> 64 * k + b + sh < n \<Longrightarrow> b < n mod 64"
    using longs_bounds(3) [of n] by linarith
  show ?thesis
    using main keep b unfolding right_word_def Let_def left_mask off_def [symmetric] r_def [symmetric] up_def [symmetric]
    by (auto simp: bit_and_iff bit_mask_iff)
qed

lemma shift_right_code:
  assumes a: "m d = Some a" "n \<le> 64 * length a" and v: "m p = Some v" "n \<le> 64 * length v"
    and off: "sh div 64 \<le> BITS_TO_LONGS n"
  shows "uu_bitmap_shift_right d p sh n m = Some (m(d \<mapsto> blit 0 (\<lambda>k.
      if k < BITS_TO_LONGS n - sh div 64 then right_word sh n v k else 0) (BITS_TO_LONGS n) a))"
proof -
  define lim where "lim = BITS_TO_LONGS n"
  define o' where "o' = sh div 64"
  have len: "lim \<le> length a" "lim \<le> length v" using a v longs_le by (auto simp: lim_def)
  let ?b = "blit 0 (right_word sh n v) (lim - o') a"
  let ?c = "blit 0 (\<lambda>k. if k < lim - o' then right_word sh n v k else 0) lim a"
  have loop: "for_up 0 (lim - o') (\<lambda>k m. do {
          upper \<leftarrow> (if sh mod 64 = 0 \<or> o' + k + 1 \<ge> lim then Some 0 else do {
            upper \<leftarrow> aget m p (o' + k + 1);
            Some (if o' + k + 1 = lim - 1 \<and> n mod 64 \<noteq> 0 then upper AND (push_bit (n mod 64) 1 - 1) else upper) });
          lower \<leftarrow> aget m p (o' + k);
          let lower = (if n mod 64 \<noteq> 0 \<and> o' + k = lim - 1 then lower AND (push_bit (n mod 64) 1 - 1) else lower);
          m \<leftarrow> aset m d k (push_bit (64 - sh mod 64) upper OR drop_bit (sh mod 64) lower);
          if n mod 64 \<noteq> 0 \<and> k = lim - 1 then do { w \<leftarrow> aget m d k; aset m d k (w AND (push_bit (n mod 64) 1 - 1)) } else Some m }) m
     = Some (m(d \<mapsto> ?b))"
  proof (rule for_up_blit_store [where m = m and d = d], goal_cases)
    case (1 k a')
    have ra: "aget (m(d \<mapsto> a')) p (o' + k + i) = Some (v ! (o' + k + i))" if "o' + k + i < lim" for i
      using read_upd [OF a(1) v(1) 1(3), of "o' + k + i"] 1(4) [of "o' + k + i"] that len by simp
    show ?case using ra [of 0] ra [of 1] 1 len
      by (simp add: write_upd aget_def right_word_def src_word_def Let_def lim_def [symmetric] o'_def [symmetric] del: push_bit_of_1)
  qed (use a len in simp_all)
  have fill: "memset_words d (lim - o') 0 o' (m(d \<mapsto> ?b)) = Some (m(d \<mapsto> ?c))" if "o' \<noteq> 0"
  proof -
    have "take (lim - o') ?b @ replicate o' 0 @ drop lim ?b = ?c"
      using off len by (intro nth_equalityI) (auto simp: blit_props nth_append o'_def lim_def)
    then show ?thesis using off len by (simp add: memset_words_def blit_props o'_def lim_def)
  qed
  have "?b = ?c" if "o' = 0" using that by (simp add: blit_def)
  then show ?thesis
    using loop fill off unfolding uu_bitmap_shift_right_def Let_def lim_def [symmetric] o'_def [symmetric]
    by (cases "o' = 0") (simp_all del: push_bit_of_1)
qed

lemma shift_right_set:
  assumes "has_bits m d n" and "has_bits m p n" and "sh div 64 \<le> BITS_TO_LONGS n"
  shows "\<exists>m'. uu_bitmap_shift_right d p sh n m = Some m' \<and> has_bits m' d n \<and>
      bitset m' d n = {i. i + sh \<in> bitset m p n} \<and> (\<forall>x. x \<noteq> d \<longrightarrow> m' x = m x)"
proof -
  obtain a where a: "m d = Some a" "n \<le> 64 * length a" using assms(1) by (rule has_bitsE)
  obtain v where v: "m p = Some v" "n \<le> 64 * length v" using assms(2) by (rule has_bitsE)
  have b: "i < n \<and> bit (if i div 64 < BITS_TO_LONGS n - sh div 64 then right_word sh n v (i div 64) else 0) (i mod 64)
      \<longleftrightarrow> i + sh \<in> bitset m p n" for i
  proof (cases "i div 64 < BITS_TO_LONGS n - sh div 64")
    case True
    have "64 * (i div 64) + i mod 64 = i" by simp
    then show ?thesis using bit_right_word [of sh "i div 64" n "i mod 64" v] True v(1)
      by (auto simp: bitset_def)
  next
    case False
    then have "64 * BITS_TO_LONGS n \<le> i + sh"
      using div_mult_mod_eq [of i 64] div_mult_mod_eq [of sh 64] assms(3) by linarith
    then show ?thesis using False longs_bounds(1) [of n] by (auto simp: bitset_def)
  qed
  show ?thesis using shift_right_code [OF a v assms(3)] a(2) b
    by (auto simp: has_bits_blit bitset_blit)
qed

section \<open>Left shift\<close>

definition left_word :: "nat \<Rightarrow> nat \<Rightarrow> u64 list \<Rightarrow> nat \<Rightarrow> u64" where
  "left_word sh n v j = (let lim = BITS_TO_LONGS n; off = sh div 64; rem = sh mod 64; k = j - off;
       lower = (if rem \<noteq> 0 \<and> k > 0 then v ! (k - 1) else 0);
       r = drop_bit (64 - rem) lower OR push_bit rem (src_word n v k)
     in if n mod 64 \<noteq> 0 \<and> j = lim - 1 then r AND (push_bit (n mod 64) 1 - 1) else r)"

lemma bit_left_word:
  assumes j: "sh div 64 \<le> j" "j < BITS_TO_LONGS n" and b: "b < 64" and n: "64 * j + b < n"
  shows "bit (left_word sh n v j) b \<longleftrightarrow> sh \<le> 64 * j + b \<and> bm v (64 * j + b - sh)"
proof -
  define off where "off = sh div 64"
  define r where "r = sh mod 64"
  define k where "k = j - off"
  have sh: "sh = 64 * off + r" "r < 64" by (simp_all add: off_def r_def)
  have jk: "j = off + k" using j(1) by (simp add: k_def off_def)
  define lo where "lo = (if r \<noteq> 0 \<and> k > 0 then v ! (k - 1) else 0)"
  have main: "bit (drop_bit (64 - r) lo OR push_bit r (src_word n v k)) b \<longleftrightarrow>
      sh \<le> 64 * j + b \<and> bm v (64 * j + b - sh)"
  proof (cases "r \<le> b")
    case True
    have pos: "64 * j + b - sh = 64 * k + (b - r)" "sh \<le> 64 * j + b" using True by (simp_all add: sh(1) jk)
    have "\<not> bit lo (64 - r + b)" using True by (auto dest: bit_imp_le_length)
    moreover have "bit (src_word n v k) (b - r) \<longleftrightarrow> bm v (64 * k + (b - r))"
      using bit_src_word [of k n "b - r" v] j(2) b n jk by auto
    ultimately show ?thesis using True b pos by (simp add: bit_or_iff bit_push_bit_iff bit_drop_bit_eq)
  next
    case False
    then have r: "r \<noteq> 0" by simp
    have "bit lo (64 - r + b) \<longleftrightarrow> k > 0 \<and> bm v (64 * (k - 1) + (64 - r + b))"
      using bm_word [of "64 - r + b" v "k - 1"] False r sh(2) by (simp add: lo_def)
    moreover have "64 * (k - 1) + (64 - r + b) = 64 * j + b - sh" if "k > 0"
      using that False sh(2) by (cases k) (simp_all add: sh(1) jk)
    moreover have "sh \<le> 64 * j + b \<longleftrightarrow> k > 0" using False sh(2) by (cases k) (auto simp: sh(1) jk)
    ultimately show ?thesis using False b by (auto simp: bit_or_iff bit_push_bit_iff bit_drop_bit_eq)
  qed
  have keep: "n mod 64 \<noteq> 0 \<Longrightarrow> j = BITS_TO_LONGS n - 1 \<Longrightarrow> b < n mod 64"
    using longs_bounds(3) [of n] n by linarith
  show ?thesis
    using main keep b unfolding left_word_def Let_def left_mask off_def [symmetric] r_def [symmetric]
      k_def [symmetric] lo_def [symmetric]
    by (auto simp: bit_and_iff bit_mask_iff)
qed

lemma aget_upd: "k < length a \<Longrightarrow> aget (m(d \<mapsto> a)) d k = Some (a ! k)"
  by (simp add: aget_def)

lemma shift_left_loop_code:
  assumes v: "m p = Some v" "n \<le> 64 * length v" and a: "m d = Some a" "n \<le> 64 * length a"
    and k: "k1 + sh div 64 \<le> BITS_TO_LONGS n" and a': "length a' = length a"
    and eq: "\<And>j. j < k1 + sh div 64 \<Longrightarrow> a' ! j = a ! j"
  shows "shift_left_loop d p (BITS_TO_LONGS n) (n mod 64) (sh div 64) (sh mod 64) k1 (m(d \<mapsto> a')) =
    Some (m(d \<mapsto> blit (sh div 64) (left_word sh n v) (k1 + sh div 64) a'))"
  using k a' eq
proof (induction k1 arbitrary: a')
  case 0
  then show ?case by (subst shift_left_loop.simps) (simp add: blit_def)
next
  case (Suc k)
  define o' where "o' = sh div 64"
  define lim where "lim = BITS_TO_LONGS n"
  have len: "lim \<le> length a" "lim \<le> length v" using a v longs_le by (auto simp: lim_def)
  have kl: "k + o' < lim" using Suc.prems(1) by (simp add: lim_def o'_def)
  have ra: "aget (m(d \<mapsto> a')) p j = Some (v ! j)" if "j \<le> k" for j
    using read_upd [OF a(1) v(1) Suc.prems(2), of j] Suc.prems(3) [of j] that kl len by simp
  let ?w = "left_word sh n v (k + o')"
  have IH: "shift_left_loop d p lim (n mod 64) o' (sh mod 64) k (m(d \<mapsto> a'[k + o' := ?w])) =
      Some (m(d \<mapsto> blit o' (left_word sh n v) (k + o') (a'[k + o' := ?w])))"
    unfolding lim_def o'_def by (rule Suc.IH) (use Suc.prems in \<open>simp_all add: o'_def\<close>)
  have bl: "blit o' (left_word sh n v) (k + o') (a'[k + o' := ?w]) = blit o' (left_word sh n v) (Suc k + o') a'"
    using kl len Suc.prems(2) by (simp add: blit_def drop_update_swap Cons_nth_drop_Suc [symmetric])
  define lo where "lo = (if sh mod 64 \<noteq> 0 \<and> k > 0 then v ! (k - 1) else 0)"
  define r where "r = drop_bit (64 - sh mod 64) lo OR push_bit (sh mod 64) (src_word n v k)"
  define msk where "msk = (push_bit (n mod 64) 1 - 1 :: u64)"
  have lo: "(if sh mod 64 \<noteq> 0 \<and> k > 0 then aget (m(d \<mapsto> a')) p (k - 1) else Some 0) = Some lo"
    using ra [of "k - 1"] by (simp add: lo_def)
  have up: "src_word n v k = (if n mod 64 \<noteq> 0 \<and> k = lim - 1 then v ! k AND msk else v ! k)"
    by (simp add: src_word_def lim_def msk_def)
  have w: "?w = (if n mod 64 \<noteq> 0 \<and> k + o' = lim - 1 then r AND msk else r)"
    unfolding left_word_def Let_def lim_def [symmetric] o'_def [symmetric] msk_def [symmetric]
      add_diff_cancel_right' lo_def [symmetric] r_def [symmetric] ..
  have ko: "k + o' < length a'" using kl len Suc.prems(2) by simp
  have "shift_left_loop d p lim (n mod 64) o' (sh mod 64) (Suc k) (m(d \<mapsto> a')) =
      shift_left_loop d p lim (n mod 64) o' (sh mod 64) k (m(d \<mapsto> a'[k + o' := ?w]))"
    unfolding shift_left_loop.simps [of d p lim "n mod 64" o' "sh mod 64" "Suc k"] Let_def diff_Suc_1 lo
      ra [OF order_refl] msk_def [symmetric] Option.bind.bind_lunit up [symmetric] r_def [symmetric] write_upd [OF ko]
    using w ko by (cases "n mod 64 \<noteq> 0 \<and> k + o' = lim - 1") (auto simp: aget_upd write_upd)
  then show ?case unfolding lim_def [symmetric] o'_def [symmetric] IH bl .
qed

lemma shift_left_set:
  assumes "has_bits m d n" and "has_bits m p n" and off: "sh div 64 \<le> BITS_TO_LONGS n"
  shows "\<exists>m'. uu_bitmap_shift_left d p sh n m = Some m' \<and> has_bits m' d n \<and>
      bitset m' d n = {i. i < n \<and> sh \<le> i \<and> i - sh \<in> bitset m p n} \<and> (\<forall>x. x \<noteq> d \<longrightarrow> m' x = m x)"
proof -
  obtain a where a: "m d = Some a" "n \<le> 64 * length a" using assms(1) by (rule has_bitsE)
  obtain v where v: "m p = Some v" "n \<le> 64 * length v" using assms(2) by (rule has_bitsE)
  define o' where "o' = sh div 64"
  define lim where "lim = BITS_TO_LONGS n"
  have len: "lim \<le> length a" using a longs_le by (simp add: lim_def)
  have ol: "o' \<le> lim" using off by (simp add: o'_def lim_def)
  let ?b = "blit o' (left_word sh n v) lim a"
  let ?c = "blit 0 (\<lambda>j. if o' \<le> j then left_word sh n v j else 0) lim a"
  have loop: "shift_left_loop d p lim (n mod 64) o' (sh mod 64) (lim - o') m = Some (m(d \<mapsto> ?b))"
    using shift_left_loop_code [OF v a, of "lim - o'" sh a] ol a(1) by (simp add: lim_def o'_def fun_upd_idem)
  have "replicate o' 0 @ drop o' ?b = ?c"
    using ol len by (intro nth_equalityI) (auto simp: blit_props nth_append)
  then have code: "uu_bitmap_shift_left d p sh n m = Some (m(d \<mapsto> ?c))"
    using loop ol len unfolding uu_bitmap_shift_left_def Let_def lim_def [symmetric] o'_def [symmetric]
    by (auto simp: memset_words_def blit_props)
  have b: "bit (if o' \<le> i div 64 then left_word sh n v (i div 64) else 0) (i mod 64)
      \<longleftrightarrow> sh \<le> i \<and> i - sh \<in> bitset m p n" if "i < n" for i
  proof (cases "o' \<le> i div 64")
    case True
    have "64 * (i div 64) + i mod 64 = i" by simp
    then show ?thesis using bit_left_word [of sh "i div 64" n "i mod 64" v] True v(1) bit_longs [OF that] that
      by (auto simp: bitset_def o'_def)
  next
    case False
    then have "i < sh" using div_le_mono [of sh i 64] by (auto simp: o'_def)
    then show ?thesis using False by simp
  qed
  then have "bitset (m(d \<mapsto> ?c)) d n = {i. i < n \<and> sh \<le> i \<and> i - sh \<in> bitset m p n}"
    unfolding lim_def bitset_blit [OF a(2)] by blast
  then show ?thesis using code a(2) by (auto simp: lim_def has_bits_blit)
qed

end
