(* ===== verification/Bitmap_Range.thy ===== *)
theory Bitmap_Range
  imports Bitmap_Shift
begin

text \<open>
  Ranges of bits: \<^verbatim>\<open>bitmap_set\<close> and \<^verbatim>\<open>bitmap_clear\<close> (the loop over whole words, its termination
  included), shown once for both in the locale \<open>range_loop\<close>.
\<close>

lemma bm_update:
  assumes "p < length ws" and "i < 64 * length ws"
  shows "bm (ws[p := w]) i \<longleftrightarrow> (if i div 64 = p then bit w (i mod 64) else bm ws i)"
  using assms by (auto simp: bm_def)

lemma first_word_mask: "b < 64 \<Longrightarrow> bit (BITMAP_FIRST_WORD_MASK pos) b \<longleftrightarrow> pos mod 64 \<le> b"
  by (auto simp: BITMAP_FIRST_WORD_MASK_def bit_simps)

lemma word_range: "pos \<le> i \<and> i < 64 * Suc (pos div 64) \<longleftrightarrow> i div 64 = pos div 64 \<and> pos mod 64 \<le> i mod 64" for i pos :: nat
proof
  assume "pos \<le> i \<and> i < 64 * Suc (pos div 64)"
  then have "i div 64 = pos div 64"
    using div_le_mono [of pos i 64] less_mult_imp_div_less [of i "Suc (pos div 64)" 64] by (auto simp: mult.commute)
  then show "i div 64 = pos div 64 \<and> pos mod 64 \<le> i mod 64"
    using \<open>pos \<le> i \<and> _\<close> div_mult_mod_eq [of i 64] div_mult_mod_eq [of pos 64] by linarith
next
  assume "i div 64 = pos div 64 \<and> pos mod 64 \<le> i mod 64"
  moreover have "i = 64 * (i div 64) + i mod 64" "pos = 64 * (pos div 64) + pos mod 64" "i mod 64 < 64" by simp_all
  ultimately show "pos \<le> i \<and> i < 64 * Suc (pos div 64)" unfolding mult_Suc_right by linarith
qed

lemma next_pos: "64 - pos mod 64 \<le> e - pos \<Longrightarrow> pos \<le> e \<Longrightarrow>
    int (e - pos) - (64 - int (pos mod 64)) = int (e - 64 * Suc (pos div 64)) \<and> 64 * Suc (pos div 64) \<le> e" for e pos :: nat
  using div_mult_mod_eq [of pos 64] mod_less_divisor [of 64 pos] by (simp add: of_nat_diff; linarith)

lemma partial_word: "pos < e \<Longrightarrow> e - pos < 64 - pos mod 64 \<Longrightarrow>
    e div 64 = pos div 64 \<and> e mod 64 \<noteq> 0 \<and> e div 64 < BITS_TO_LONGS e" for e pos :: nat
proof -
  assume "pos < e" "e - pos < 64 - pos mod 64"
  then have "pos \<le> e \<and> e < 64 * Suc (pos div 64)"
    using div_mult_mod_eq [of pos 64] unfolding mult_Suc_right by linarith
  then have w: "e div 64 = pos div 64" using word_range [of pos e] by blast
  then have "pos mod 64 < e mod 64" using same_word [OF \<open>pos < e\<close>] by simp
  then show ?thesis using w by (simp add: longs_eq)
qed

section \<open>Setting and clearing\<close>

text \<open>
  Both loops write \<open>v\<close> to the bits of a mask, by a word operation \<open>op\<close>, first for the words that the range covers to their end,
  then for the rest of the range in one more word. The locale has what the two share.
\<close>

definition range_from :: "(addr \<Rightarrow> nat \<Rightarrow> int \<Rightarrow> int \<Rightarrow> u64 \<Rightarrow> store \<Rightarrow> (nat \<times> int \<times> u64 \<times> store) option) \<Rightarrow>
    (u64 \<Rightarrow> u64 \<Rightarrow> u64) \<Rightarrow> addr \<Rightarrow> nat \<Rightarrow> nat \<Rightarrow> store \<Rightarrow> store option" where
  "range_from loop opw p pos e m = do {
     (k, nr', msk, m) \<leftarrow> loop p (pos div 64) (int (e - pos)) (64 - int (pos mod 64)) (BITMAP_FIRST_WORD_MASK pos) m;
     if nr' \<noteq> 0 then do { w \<leftarrow> aget m p k; aset m p k (opw w (msk AND BITMAP_LAST_WORD_MASK e)) } else Some m }"

locale range_loop =
  fixes loop :: "addr \<Rightarrow> nat \<Rightarrow> int \<Rightarrow> int \<Rightarrow> u64 \<Rightarrow> store \<Rightarrow> (nat \<times> int \<times> u64 \<times> store) option"
    and opw :: "u64 \<Rightarrow> u64 \<Rightarrow> u64" and v :: bool
  assumes unfold: "loop p k nr b msk m = (if nr - b \<ge> 0 then do {
        w \<leftarrow> aget m p k;
        m \<leftarrow> aset m p k (opw w msk);
        loop p (Suc k) (nr - b) 64 (NOT 0) m }
      else Some (k, nr, msk, m))"
    and bits: "i < 64 \<Longrightarrow> bit (opw w msk) i \<longleftrightarrow> (if bit msk i then v else bit w i)"
begin

lemma whole_word:
  assumes "64 - pos mod 64 \<le> e - pos" and "pos \<le> e" and "m p = Some ws" and "e \<le> 64 * length ws"
    and "q = 64 * Suc (pos div 64)" and "ws' = ws[pos div 64 := opw (ws ! (pos div 64)) (BITMAP_FIRST_WORD_MASK pos)]"
  shows "range_from loop opw p pos e m = range_from loop opw p q e (m(p \<mapsto> ws'))" and "pos < q" and "q \<le> e" and "length ws' = length ws"
    and "i < 64 * length ws \<Longrightarrow> bm ws' i \<longleftrightarrow> (if pos \<le> i \<and> i < q then v else bm ws i)"
proof -
  have nx: "int (e - pos) - (64 - int (pos mod 64)) = int (e - q)" "q \<le> e"
    using next_pos [OF assms(1,2)] by (simp_all add: assms(5))
  have pl: "pos div 64 < length ws" using nx(2) assms(4,5) by simp
  have q64: "q div 64 = Suc (pos div 64)" "q mod 64 = 0" "BITMAP_FIRST_WORD_MASK q = NOT 0"
    by (simp_all add: assms(5) BITMAP_FIRST_WORD_MASK_def)
  have "loop p (pos div 64) (int (e - pos)) (64 - int (pos mod 64)) (BITMAP_FIRST_WORD_MASK pos) m =
      loop p (q div 64) (int (e - q)) (64 - int (q mod 64)) (BITMAP_FIRST_WORD_MASK q) (m(p \<mapsto> ws'))"
    unfolding unfold [of p "pos div 64" "int (e - pos)"] nx(1)
    using pl assms(3) by (simp add: q64 aget_Some aset_Some assms(6))
  then show "range_from loop opw p pos e m = range_from loop opw p q e (m(p \<mapsto> ws'))" by (simp add: range_from_def)
  show "pos < q" using word_range [of pos pos] by (simp add: assms(5))
  show "q \<le> e" by (rule nx(2))
  show "length ws' = length ws" by (simp add: assms(6))
  show "i < 64 * length ws \<Longrightarrow> bm ws' i \<longleftrightarrow> (if pos \<le> i \<and> i < q then v else bm ws i)"
    using bm_update [OF pl, of i] first_word_mask [of "i mod 64" pos] unfolding assms(5,6) word_range
    by (auto simp: bm_def bits)
qed

lemma part_word:
  assumes "e - pos < 64 - pos mod 64" and "pos < e" and "m p = Some ws" and "e \<le> 64 * length ws"
    and "ws' = ws[pos div 64 := opw (ws ! (pos div 64)) (BITMAP_FIRST_WORD_MASK pos AND BITMAP_LAST_WORD_MASK e)]"
  shows "range_from loop opw p pos e m = Some (m(p \<mapsto> ws'))" and "length ws' = length ws"
    and "i < 64 * length ws \<Longrightarrow> bm ws' i \<longleftrightarrow> (if pos \<le> i \<and> i < e then v else bm ws i)"
proof -
  have w: "e div 64 = pos div 64" "e mod 64 \<noteq> 0" "pos div 64 < length ws"
    using partial_word [OF assms(2,1)] assms(4) longs_le by auto
  have "\<not> int (e - pos) - (64 - int (pos mod 64)) \<ge> 0" using assms(1) by linarith
  then have "loop p (pos div 64) (int (e - pos)) (64 - int (pos mod 64)) (BITMAP_FIRST_WORD_MASK pos) m =
      Some (pos div 64, int (e - pos), BITMAP_FIRST_WORD_MASK pos, m)" unfolding unfold [of p "pos div 64"] by (rule if_not_P)
  then show "range_from loop opw p pos e m = Some (m(p \<mapsto> ws'))"
    using assms(2,3) w(3) by (simp add: range_from_def aget_Some aset_Some assms(5))
  show "length ws' = length ws" by (simp add: assms(5))
  assume i: "i < 64 * length ws"
  show "bm ws' i \<longleftrightarrow> (if pos \<le> i \<and> i < e then v else bm ws i)"
  proof (cases "i div 64 = pos div 64")
    case True
    have "pos \<le> i \<longleftrightarrow> pos mod 64 \<le> i mod 64" "i < e \<longleftrightarrow> i mod 64 < e mod 64"
      using True w(1) div_mult_mod_eq [of i 64] div_mult_mod_eq [of pos 64] div_mult_mod_eq [of e 64] by linarith+
    then show ?thesis using True bm_update [OF w(3) i] first_word_mask [of "i mod 64" pos] last_word_mask [of e] w(2)
      by (auto simp: assms(5) bm_def bits bit_and_iff)
  next
    case False
    then have "\<not> (pos \<le> i \<and> i < e)" using w(1) div_le_mono [of pos i 64] div_le_mono [of i e 64] by auto
    then show ?thesis using False bm_update [OF w(3) i] by (auto simp: assms(5))
  qed
qed

lemma no_word:
  assumes "m p = Some ws"
  shows "range_from loop opw p e e m = Some (m(p \<mapsto> ws))"
proof -
  have "\<not> 64 \<le> e mod 64" by (simp add: not_le)
  then show ?thesis unfolding range_from_def unfold [of p "e div 64"] using assms by (simp add: fun_upd_idem)
qed

lemma range_written:
  assumes "m p = Some ws" and "e \<le> 64 * length ws" and "pos \<le> e"
  shows "\<exists>ws'. range_from loop opw p pos e m = Some (m(p \<mapsto> ws')) \<and> length ws' = length ws \<and>
    (\<forall>i < 64 * length ws. bm ws' i \<longleftrightarrow> (if pos \<le> i \<and> i < e then v else bm ws i))"
  using assms
proof (induction "e - pos" arbitrary: pos m ws rule: less_induct)
  case less
  consider "64 - pos mod 64 \<le> e - pos" | "e - pos < 64 - pos mod 64" "pos < e" | "pos = e"
    using less.prems(3) by linarith
  then show ?case
  proof cases
    case 1
    define q ws1 where "q = 64 * Suc (pos div 64)"
      and "ws1 = ws[pos div 64 := opw (ws ! (pos div 64)) (BITMAP_FIRST_WORD_MASK pos)]"
    note w = whole_word [of pos e m p ws q ws1, OF 1 less.prems(3,1,2) this]
    have "e - q < e - pos" using w(2,3) by linarith
    then obtain ws' where "range_from loop opw p pos e m = Some (m(p \<mapsto> ws'))" "length ws' = length ws"
        "\<forall>i < 64 * length ws. bm ws' i \<longleftrightarrow> (if q \<le> i \<and> i < e then v else bm ws1 i)"
      using less.hyps [of q "m(p \<mapsto> ws1)" ws1] w(1,3,4) less.prems(2) by auto
    moreover then have "bm ws' i \<longleftrightarrow> (if pos \<le> i \<and> i < e then v else bm ws i)" if "i < 64 * length ws" for i
      using w(2,3) w(5) [OF that] that by auto
    ultimately show ?thesis by blast
  next
    case 2
    then show ?thesis using part_word [of e pos m p ws, OF 2 less.prems(1,2) refl] by blast
  next
    case 3
    then show ?thesis using no_word [of m p ws, OF less.prems(1)] by auto
  qed
qed

end

interpretation set_words: range_loop bitmap_set_loop "\<lambda>w msk. w OR msk" True
  by unfold_locales (subst bitmap_set_loop.simps, simp, simp add: bit_or_iff)

interpretation clear_words: range_loop bitmap_clear_loop "\<lambda>w msk. w AND NOT msk" False
  by unfold_locales (subst bitmap_clear_loop.simps, simp, simp add: bit_and_iff bit_not_iff)

lemma bitmap_set_range:
  assumes "has_bits m p n" and "start + nr \<le> n"
  shows "\<exists>m'. bitmap_set p start nr m = Some m' \<and> has_bits m' p n \<and>
      bitset m' p n = bitset m p n \<union> {start..<start + nr} \<and> (\<forall>x. x \<noteq> p \<longrightarrow> m' x = m x)"
proof -
  obtain ws where ws: "m p = Some ws" "n \<le> 64 * length ws" using assms(1) by (rule has_bitsE)
  obtain ws' where ws': "bitmap_set p start nr m = Some (m(p \<mapsto> ws'))" "length ws' = length ws"
      "\<forall>i < 64 * length ws. bm ws' i \<longleftrightarrow> (if start \<le> i \<and> i < start + nr then True else bm ws i)"
    using set_words.range_written [of m p ws, OF ws(1), of "start + nr" start] assms(2) ws(2)
    unfolding bitmap_set_def BIT_WORD_def range_from_def by auto
  have "bm ws' i \<longleftrightarrow> bm ws i \<or> start \<le> i \<and> i < start + nr" if "i < n" for i
    using ws'(3) [rule_format, of i] ws(2) that by auto
  then have "bitset (m(p \<mapsto> ws')) p n = bitset m p n \<union> {start..<start + nr}"
    using ws(1) assms(2) by (auto simp: bitset_def)
  then show ?thesis using ws' ws by (auto simp: has_bits_def)
qed

lemma bitmap_clear_range:
  assumes "has_bits m p n" and "start + nr \<le> n"
  shows "\<exists>m'. bitmap_clear p start nr m = Some m' \<and> has_bits m' p n \<and>
      bitset m' p n = bitset m p n - {start..<start + nr} \<and> (\<forall>x. x \<noteq> p \<longrightarrow> m' x = m x)"
proof -
  obtain ws where ws: "m p = Some ws" "n \<le> 64 * length ws" using assms(1) by (rule has_bitsE)
  obtain ws' where ws': "bitmap_clear p start nr m = Some (m(p \<mapsto> ws'))" "length ws' = length ws"
      "\<forall>i < 64 * length ws. bm ws' i \<longleftrightarrow> (if start \<le> i \<and> i < start + nr then False else bm ws i)"
    using clear_words.range_written [of m p ws, OF ws(1), of "start + nr" start] assms(2) ws(2)
    unfolding bitmap_clear_def BIT_WORD_def range_from_def by auto
  have "bm ws' i \<longleftrightarrow> bm ws i \<and> \<not> (start \<le> i \<and> i < start + nr)" if "i < n" for i
    using ws'(3) [rule_format, of i] ws(2) that by auto
  then have "bitset (m(p \<mapsto> ws')) p n = bitset m p n - {start..<start + nr}"
    using ws(1) assms(2) by (auto simp: bitset_def)
  then show ?thesis using ws' ws by (auto simp: has_bits_def)
qed

end
