(* ===== verification/Bitmap_Inline.thy ===== *)
theory Bitmap_Inline
  imports Bitmap_Range
begin

text \<open>
  The inline functions of \<^verbatim>\<open>bitmap.h\<close>: the one-word path for constant sizes and the general path
  compute the same operations of sets.
\<close>

section \<open>One-word bitmaps\<close>

lemma small_bits: "small_const_nbits cst n \<Longrightarrow> i < n \<Longrightarrow> bm ws i \<longleftrightarrow> bit (ws ! 0) i"
  by (simp add: small_const_nbits_def bm_def)

lemma small_mask:
  assumes "0 < n" and "n \<le> 64"
  shows "bit (BITMAP_LAST_WORD_MASK n) i \<longleftrightarrow> i < n"
  using assms by (cases "n = 64") (auto simp: last_word_mask)

lemma small_any:
  assumes "small_const_nbits cst n" and "0 < n"
  shows "w AND BITMAP_LAST_WORD_MASK n = 0 \<longleftrightarrow> (\<forall>i < n. \<not> bit w i)"
proof -
  have n: "n \<le> 64" using assms(1) by (simp add: small_const_nbits_def)
  then show ?thesis using small_mask [OF assms(2) n] unfolding bit_word_zero_iff bit_and_iff
    using bit_imp_le_length by blast
qed

lemma small_aget: "m p = Some ws \<Longrightarrow> n \<le> 64 * length ws \<Longrightarrow> 0 < n \<Longrightarrow> aget m p 0 = Some (ws ! 0)"
  by (auto simp: aget_def)

lemma small_write:
  assumes "small_const_nbits cst n" and "0 < n" and "m d = Some a" and "n \<le> 64 * length a"
  shows "\<exists>m'. aset m d 0 w = Some m' \<and> has_bits m' d n \<and> bitset m' d n = {i. i < n \<and> bit w i} \<and>
      (\<forall>x. x \<noteq> d \<longrightarrow> m' x = m x)"
proof -
  have l: "0 < length a" using assms by auto
  have "bitset (m(d \<mapsto> a[0 := w])) d n = {i. i < n \<and> bit w i}"
    using small_bits [OF assms(1), of _ "a[0 := w]"] l by (auto simp: bitset_def)
  then show ?thesis using assms l by (auto simp: aset_def has_bits_def)
qed

lemma bitset_small: "small_const_nbits cst n \<Longrightarrow> m p = Some ws \<Longrightarrow> i \<in> bitset m p n \<longleftrightarrow> i < n \<and> bit (ws ! 0) i"
  using small_bits by (auto simp: bitset_def)

section \<open>Tests\<close>

lemma inline_tests:
  assumes n: "0 < n" and p: "has_bits m p n" and q: "has_bits m q n"
  shows "bitmap_empty cst p n m = Some (bitset m p n = {})"
    and "bitmap_full cst p n m = Some (bitset m p n = {..<n})"
    and "bitmap_equal cst p q n m = Some (bitset m p n = bitset m q n)"
    and "bitmap_intersects cst p q n m = Some (bitset m p n \<inter> bitset m q n \<noteq> {})"
    and "bitmap_subset cst p q n m = Some (bitset m p n \<subseteq> bitset m q n)"
proof -
  obtain v where v: "m p = Some v" "n \<le> 64 * length v" using p by (rule has_bitsE)
  obtain w where w: "m q = Some w" "n \<le> 64 * length w" using q by (rule has_bitsE)
  note g = small_aget [of m p v n, OF v n] small_aget [of m q w n, OF w n]
  show "bitmap_empty cst p n m = Some (bitset m p n = {})"
    using empty_set [OF p] g n bitset_small [of cst n m p v, OF _ v(1)] small_any [of cst n]
    by (auto simp: bitmap_empty_def)
  show "bitmap_full cst p n m = Some (bitset m p n = {..<n})"
    using full_set [OF p] g n bitset_small [of cst n m p v, OF _ v(1)] small_any [of cst n "NOT (v ! 0)"]
    by (auto simp: bitmap_full_def small_const_nbits_def bit_not_iff)
  show "bitmap_equal cst p q n m = Some (bitset m p n = bitset m q n)"
    using equal_set [OF p q] g n bitset_small [of cst n m p v, OF _ v(1)] bitset_small [of cst n m q w, OF _ w(1)]
      small_any [of cst n "v ! 0 XOR w ! 0"] by (auto simp: bitmap_equal_def bit_xor_iff)
  show "bitmap_intersects cst p q n m = Some (bitset m p n \<inter> bitset m q n \<noteq> {})"
    using intersects_set [OF p q] g n bitset_small [of cst n m p v, OF _ v(1)] bitset_small [of cst n m q w, OF _ w(1)]
      small_any [of cst n "v ! 0 AND w ! 0"] by (auto simp: bitmap_intersects_def bit_and_iff)
  show "bitmap_subset cst p q n m = Some (bitset m p n \<subseteq> bitset m q n)"
    using subset_set [OF p q] g n bitset_small [of cst n m p v, OF _ v(1)] bitset_small [of cst n m q w, OF _ w(1)]
      small_any [of cst n "v ! 0 AND NOT (w ! 0)"]
    by (auto simp: bitmap_subset_def bit_and_iff bit_not_iff small_const_nbits_def)
qed

section \<open>Initialisers\<close>

lemma bitset_upd: "bitset (m(d \<mapsto> a)) d n = {i. i < n \<and> bm a i}"
  by (simp add: bitset_def)

lemma inline_zero:
  assumes "0 < n" and "has_bits m d n"
  shows "\<exists>m'. bitmap_zero cst d n m = Some m' \<and> has_bits m' d n \<and> bitset m' d n = {} \<and> (\<forall>x. x \<noteq> d \<longrightarrow> m' x = m x)"
proof -
  obtain a where a: "m d = Some a" "n \<le> 64 * length a" using assms(2) by (rule has_bitsE)
  show ?thesis
  proof (cases "small_const_nbits cst n")
    case True
    then show ?thesis using small_write [of cst n m d a, OF True assms(1) a, of 0] by (simp add: bitmap_zero_def)
  next
    case False
    let ?b = "replicate (BITS_TO_LONGS n) 0 @ drop (BITS_TO_LONGS n) a"
    have l: "BITS_TO_LONGS n \<le> length a" using a(2) by (simp add: longs_le)
    have "bitset (m(d \<mapsto> ?b)) d n = {}" using bit_longs [of _ n] by (auto simp: bitset_upd bm_def nth_append)
    then show ?thesis using False a l by (auto simp: bitmap_zero_def memset_words_def has_bits_def)
  qed
qed

lemma inline_fill:
  assumes "0 < n" and "has_bits m d n"
  shows "\<exists>m'. bitmap_fill cst d n m = Some m' \<and> has_bits m' d n \<and> bitset m' d n = {..<n} \<and> (\<forall>x. x \<noteq> d \<longrightarrow> m' x = m x)"
proof -
  obtain a where a: "m d = Some a" "n \<le> 64 * length a" using assms(2) by (rule has_bitsE)
  define l where "l = BITS_TO_LONGS n - 1"
  have l: "BITS_TO_LONGS n = Suc l" using bit_longs [OF assms(1)] by (simp add: l_def)
  have ll: "l < length a" using a(2) l by (simp add: longs_le)
  show ?thesis
  proof (cases "small_const_nbits cst n")
    case True
    then have "n \<le> 64" by (simp add: small_const_nbits_def)
    then have "BITS_TO_LONGS n \<le> 1" using longs_le [of n 1] by simp
    then have "l = 0" using l by simp
    then show ?thesis using True small_write [of cst n m d a, OF True assms(1) a, of "BITMAP_LAST_WORD_MASK n"] small_mask [OF assms(1) \<open>n \<le> 64\<close>] l
      by (auto simp: bitmap_fill_def Let_def lessThan_def)
  next
    case False
    let ?b = "(replicate l (NOT 0) @ drop l a)[l := BITMAP_LAST_WORD_MASK n]"
    have "bm ?b i" if "i < n" for i
    proof (cases "i div 64 = l")
      case True
      have "i mod 64 < (if n mod 64 = 0 then 64 else n mod 64)"
        using True that l same_word [of i n] by (auto simp: longs_eq split: if_splits)
      then show ?thesis using True ll by (simp add: bm_def last_word_mask)
    next
      case F: False
      then have "i div 64 < l" using bit_longs [OF that] l by simp
      then show ?thesis using F ll by (simp add: bm_def nth_append)
    qed
    then have "bitset (m(d \<mapsto> ?b)) d n = {..<n}" by (auto simp: bitset_upd)
    moreover have "bitmap_fill cst d n m = Some (m(d \<mapsto> ?b))"
      using False a(1) l ll by (simp add: bitmap_fill_def Let_def memset_words_def aset_def)
    ultimately show ?thesis using a ll by (auto simp: has_bits_def)
  qed
qed

lemma inline_copy:
  assumes "0 < n" and "has_bits m d n" and "has_bits m p n"
  shows "\<exists>m'. bitmap_copy cst d p n m = Some m' \<and> has_bits m' d n \<and> bitset m' d n = bitset m p n \<and>
      (\<forall>x. x \<noteq> d \<longrightarrow> m' x = m x)"
proof -
  obtain a where a: "m d = Some a" "n \<le> 64 * length a" using assms(2) by (rule has_bitsE)
  obtain v where v: "m p = Some v" "n \<le> 64 * length v" using assms(3) by (rule has_bitsE)
  show ?thesis
  proof (cases "small_const_nbits cst n")
    case True
    then show ?thesis using small_write [of cst n m d a, OF True assms(1) a, of "v ! 0"] small_aget [of m p v n, OF v assms(1)]
        bitset_small [of cst n m p v, OF True v(1)] by (auto simp: bitmap_copy_def)
  next
    case False
    let ?b = "take (BITS_TO_LONGS n) v @ drop (BITS_TO_LONGS n) a"
    have l: "BITS_TO_LONGS n \<le> length a" "BITS_TO_LONGS n \<le> length v" using a v by (simp_all add: longs_le)
    have "bm ?b i \<longleftrightarrow> bm v i" if "i < n" for i using bit_longs [OF that] l by (simp add: bm_def nth_append)
    then have "bitset (m(d \<mapsto> ?b)) d n = bitset m p n" using v(1) by (auto simp: bitset_def)
    then show ?thesis using False a v l by (auto simp: bitmap_copy_def memcpy_words_def has_bits_def)
  qed
qed

section \<open>Bitwise operations\<close>

lemma inline_ops:
  assumes n: "0 < n" and d: "has_bits m d n" and p: "has_bits m p n" and q: "has_bits m q n"
  shows "\<exists>r m'. bitmap_and cst d p q n m = Some (r, m') \<and> has_bits m' d n \<and>
      bitset m' d n = bitset m p n \<inter> bitset m q n \<and> (\<forall>x. x \<noteq> d \<longrightarrow> m' x = m x)"
    and "\<exists>m'. bitmap_or cst d p q n m = Some m' \<and> has_bits m' d n \<and>
      bitset m' d n = bitset m p n \<union> bitset m q n \<and> (\<forall>x. x \<noteq> d \<longrightarrow> m' x = m x)"
    and "\<exists>m'. bitmap_xor cst d p q n m = Some m' \<and> has_bits m' d n \<and>
      bitset m' d n = (bitset m p n - bitset m q n) \<union> (bitset m q n - bitset m p n) \<and> (\<forall>x. x \<noteq> d \<longrightarrow> m' x = m x)"
    and "\<exists>r m'. bitmap_andnot cst d p q n m = Some (r, m') \<and> has_bits m' d n \<and>
      bitset m' d n = bitset m p n - bitset m q n \<and> (\<forall>x. x \<noteq> d \<longrightarrow> m' x = m x)"
    and "\<exists>m'. bitmap_complement cst d p n m = Some m' \<and> has_bits m' d n \<and>
      bitset m' d n = {..<n} - bitset m p n \<and> (\<forall>x. x \<noteq> d \<longrightarrow> m' x = m x)"
proof -
  obtain a where a: "m d = Some a" "n \<le> 64 * length a" using d by (rule has_bitsE)
  obtain v where v: "m p = Some v" "n \<le> 64 * length v" using p by (rule has_bitsE)
  obtain w where w: "m q = Some w" "n \<le> 64 * length w" using q by (rule has_bitsE)
  note g = small_aget [of m p v n, OF v n] small_aget [of m q w n, OF w n]
  note sw = small_write [of cst n m d a, OF _ n a]
  note bs = bitset_small [of cst n m p v, OF _ v(1)] bitset_small [of cst n m q w, OF _ w(1)]
  show "\<exists>r m'. bitmap_and cst d p q n m = Some (r, m') \<and> has_bits m' d n \<and>
      bitset m' d n = bitset m p n \<inter> bitset m q n \<and> (\<forall>x. x \<noteq> d \<longrightarrow> m' x = m x)"
  proof (cases "small_const_nbits cst n")
    case True
    then show ?thesis using sw [of "v ! 0 AND w ! 0"] g bs by (auto simp: bitmap_and_def bit_and_iff)
  qed (use and_set(1) [OF d p q] in \<open>auto simp: bitmap_and_def\<close>)
  show "\<exists>m'. bitmap_or cst d p q n m = Some m' \<and> has_bits m' d n \<and>
      bitset m' d n = bitset m p n \<union> bitset m q n \<and> (\<forall>x. x \<noteq> d \<longrightarrow> m' x = m x)"
  proof (cases "small_const_nbits cst n")
    case True
    then show ?thesis using sw [of "v ! 0 OR w ! 0"] g bs by (auto simp: bitmap_or_def bit_or_iff)
  qed (use or_set(1) [OF d p q] in \<open>auto simp: bitmap_or_def\<close>)
  show "\<exists>m'. bitmap_xor cst d p q n m = Some m' \<and> has_bits m' d n \<and>
      bitset m' d n = (bitset m p n - bitset m q n) \<union> (bitset m q n - bitset m p n) \<and> (\<forall>x. x \<noteq> d \<longrightarrow> m' x = m x)"
  proof (cases "small_const_nbits cst n")
    case True
    then show ?thesis using sw [of "v ! 0 XOR w ! 0"] g bs by (auto simp: bitmap_xor_def bit_xor_iff)
  qed (use or_set(2) [OF d p q] in \<open>auto simp: bitmap_xor_def\<close>)
  show "\<exists>r m'. bitmap_andnot cst d p q n m = Some (r, m') \<and> has_bits m' d n \<and>
      bitset m' d n = bitset m p n - bitset m q n \<and> (\<forall>x. x \<noteq> d \<longrightarrow> m' x = m x)"
  proof (cases "small_const_nbits cst n")
    case True
    then have "n \<le> 64" by (simp add: small_const_nbits_def)
    then show ?thesis using True sw [of "v ! 0 AND NOT (w ! 0)"] g bs by (auto simp: bitmap_andnot_def bit_and_iff bit_not_iff)
  qed (use and_set(2) [OF d p q] in \<open>auto simp: bitmap_andnot_def\<close>)
  show "\<exists>m'. bitmap_complement cst d p n m = Some m' \<and> has_bits m' d n \<and>
      bitset m' d n = {..<n} - bitset m p n \<and> (\<forall>x. x \<noteq> d \<longrightarrow> m' x = m x)"
  proof (cases "small_const_nbits cst n")
    case True
    then have n64: "n \<le> 64" by (simp add: small_const_nbits_def)
    then show ?thesis using True sw [of "NOT (v ! 0) AND BITMAP_LAST_WORD_MASK n"] g bs(1) small_mask [OF n n64]
      by (auto simp: bitmap_complement_def bit_and_iff bit_not_iff)
  qed (use complement_set [OF d p] in \<open>auto simp: bitmap_complement_def\<close>)
qed

lemma inline_shift_left:
  assumes n: "0 < n" and d: "has_bits m d n" and p: "has_bits m p n" and sh: "sh < n"
  shows "\<exists>m'. bitmap_shift_left cst d p sh n m = Some m' \<and> has_bits m' d n \<and>
      bitset m' d n = {i. i < n \<and> sh \<le> i \<and> i - sh \<in> bitset m p n} \<and> (\<forall>x. x \<noteq> d \<longrightarrow> m' x = m x)"
proof (cases "small_const_nbits cst n")
  case True
  obtain a where a: "m d = Some a" "n \<le> 64 * length a" using d by (rule has_bitsE)
  obtain v where v: "m p = Some v" "n \<le> 64 * length v" using p by (rule has_bitsE)
  have n64: "n \<le> 64" using True by (simp add: small_const_nbits_def)
  let ?w = "push_bit sh (v ! 0) AND BITMAP_LAST_WORD_MASK n"
  obtain m' where m': "aset m d 0 ?w = Some m'" "has_bits m' d n" "bitset m' d n = {i. i < n \<and> bit ?w i}"
      "\<forall>x. x \<noteq> d \<longrightarrow> m' x = m x" using small_write [of cst n m d a, OF True n a] by blast
  have "bit ?w i \<longleftrightarrow> sh \<le> i \<and> i - sh \<in> bitset m p n" if "i < n" for i
    unfolding bitset_small [of cst n m p v, OF True v(1)] bit_and_iff bit_push_bit_iff small_mask [OF n n64]
    using that n64 by auto
  then have "bitset m' d n = {i. i < n \<and> sh \<le> i \<and> i - sh \<in> bitset m p n}" using m'(3) by auto
  moreover have "bitmap_shift_left cst d p sh n m = Some m'"
    using True m'(1) sh n64 small_aget [of m p v n, OF v n] by (simp add: bitmap_shift_left_def)
  ultimately show ?thesis using m' by blast
next
  case False
  have "sh div 64 \<le> BITS_TO_LONGS n" using bit_longs [OF sh] by simp
  then show ?thesis using False shift_left_set [OF d p] by (simp add: bitmap_shift_left_def)
qed

lemma general_shift_right:
  assumes d: "has_bits m d n" and p: "has_bits m p n" and sh: "sh < n"
  shows "\<exists>m'. bitmap_shift_right False d p sh n m = Some m' \<and> has_bits m' d n \<and>
      bitset m' d n = {i. i + sh \<in> bitset m p n} \<and> (\<forall>x. x \<noteq> d \<longrightarrow> m' x = m x)"
proof -
  have "sh div 64 \<le> BITS_TO_LONGS n" using bit_longs [OF sh] by simp
  then show ?thesis using shift_right_set [OF d p] by (simp add: bitmap_shift_right_def small_const_nbits_def)
qed

end
