(* ===== verification/Bitmap_Map.thy ===== *)
theory Bitmap_Map
  imports Bitmap
begin

text \<open>
  The rest of \<^verbatim>\<open>lib/bitmap.c\<close> on bits: ordinals and positions of set bits, the maps between
  bitmaps that they define (\<^verbatim>\<open>bitmap_remap\<close>, \<^verbatim>\<open>bitmap_bitremap\<close>, \<^verbatim>\<open>bitmap_onto\<close>, \<^verbatim>\<open>bitmap_fold\<close>) and
  the allocator of aligned power-of-two regions. The sizes are run-time values here
  (\<^verbatim>\<open>__builtin_constant_p\<close> is false in \<^verbatim>\<open>bitmap.c\<close>).
\<close>

section \<open>Ordinals and positions\<close>

partial_function (option) pos_to_ord_loop :: "addr \<Rightarrow> nat \<Rightarrow> int \<Rightarrow> u64 \<Rightarrow> int \<Rightarrow> store \<Rightarrow> int option" where
  "pos_to_ord_loop buf bits pos i ord m =
     (if uint i < pos then do {
        i \<leftarrow> find_next_bit buf (of_nat bits) (i + 1) m;
        pos_to_ord_loop buf bits pos i (ord + 1) m }
      else Some ord)"

definition bitmap_pos_to_ord :: "addr \<Rightarrow> int \<Rightarrow> nat \<Rightarrow> store \<Rightarrow> int option" where
  "bitmap_pos_to_ord buf pos bits m =
     (if pos < 0 \<or> pos \<ge> int bits then Some (- 1) else do {
        t \<leftarrow> test_bit (word_of_int pos) buf m;
        if \<not> t then Some (- 1) else do {
          i \<leftarrow> find_first_bit buf (of_nat bits) m;
          pos_to_ord_loop buf bits pos i 0 m } })"

partial_function (option) ord_to_pos_loop :: "addr \<Rightarrow> nat \<Rightarrow> u64 \<Rightarrow> int \<Rightarrow> store \<Rightarrow> (u64 \<times> int) option" where
  "ord_to_pos_loop buf bits i ord m =
     (if uint i < int bits \<and> ord > 0 then do {
        i \<leftarrow> find_next_bit buf (of_nat bits) (i + 1) m;
        ord_to_pos_loop buf bits i (ord - 1) m }
      else Some (i, ord))"

definition bitmap_ord_to_pos :: "addr \<Rightarrow> int \<Rightarrow> nat \<Rightarrow> store \<Rightarrow> int option" where
  "bitmap_ord_to_pos buf ord bits m =
     (if ord \<ge> 0 \<and> ord < int bits then do {
        i \<leftarrow> find_first_bit buf (of_nat bits) m;
        (i, ord) \<leftarrow> ord_to_pos_loop buf bits i ord m;
        Some (if uint i < int bits \<and> ord = 0 then uint i else 0) }
      else Some 0)"

definition bitmap_remap :: "addr \<Rightarrow> addr \<Rightarrow> addr \<Rightarrow> addr \<Rightarrow> nat \<Rightarrow> store \<Rightarrow> store option" where
  "bitmap_remap dst src old new bits m =
     (if dst = src then Some m else do {
        m \<leftarrow> bitmap_zero False dst bits m;
        w \<leftarrow> bitmap_weight False new bits m;
        (m, _) \<leftarrow> for_each_set_bit src (of_nat bits) (\<lambda>oldbit (m, u). do {
          n \<leftarrow> bitmap_pos_to_ord old (uint oldbit) bits m;
          m \<leftarrow> (if n < 0 \<or> w = 0 then set_bit (uint oldbit) dst m
                else do { p \<leftarrow> bitmap_ord_to_pos new (n mod w) bits m; set_bit p dst m });
          Some (m, u) }) (m, ());
        Some m })"

definition bitmap_bitremap :: "int \<Rightarrow> addr \<Rightarrow> addr \<Rightarrow> nat \<Rightarrow> store \<Rightarrow> int option" where
  "bitmap_bitremap oldbit old new bits m = do {
     w \<leftarrow> bitmap_weight False new bits m;
     n \<leftarrow> bitmap_pos_to_ord old oldbit bits m;
     if n < 0 \<or> w = 0 then Some oldbit else bitmap_ord_to_pos new (n mod w) bits m }"

definition bitmap_onto :: "addr \<Rightarrow> addr \<Rightarrow> addr \<Rightarrow> nat \<Rightarrow> store \<Rightarrow> store option" where
  "bitmap_onto dst orig relmap bits m =
     (if dst = orig then Some m else do {
        m \<leftarrow> bitmap_zero False dst bits m;
        (m, _) \<leftarrow> for_each_set_bit relmap (of_nat bits) (\<lambda>n (m, k). do {
          t \<leftarrow> test_bit k orig m;
          m \<leftarrow> (if t then set_bit (uint n) dst m else Some m);
          Some (m, k + 1) }) (m, 0);
        Some m })"

text \<open>\<^verbatim>\<open>oldbit % sz\<close> faults for \<open>sz = 0\<close>; the interface gives no meaning to a negative \<open>sz\<close>.\<close>

definition bitmap_fold :: "addr \<Rightarrow> addr \<Rightarrow> nat \<Rightarrow> nat \<Rightarrow> store \<Rightarrow> store option" where
  "bitmap_fold dst orig sz bits m =
     (if dst = orig then Some m else do {
        m \<leftarrow> bitmap_zero False dst bits m;
        (m, _) \<leftarrow> for_each_set_bit orig (of_nat bits) (\<lambda>oldbit (m, u). do {
          m \<leftarrow> (if sz = 0 then None else set_bit (uint oldbit mod int sz) dst m);
          Some (m, u) }) (m, ());
        Some m })"

section \<open>Regions\<close>

datatype reg_op = REG_OP_ISFREE | REG_OP_ALLOC | REG_OP_RELEASE

datatype errno = ENOMEM | EBUSY | EINVAL | ERANGE | EOVERFLOW

definition reg_mask :: "nat \<Rightarrow> nat \<Rightarrow> u64" where
  "reg_mask nbitsinlong offset =
     (let msk = push_bit (nbitsinlong - 1) 1; msk = msk + (msk - 1) in push_bit offset msk)"

definition uu_reg_op :: "addr \<Rightarrow> nat \<Rightarrow> nat \<Rightarrow> reg_op \<Rightarrow> store \<Rightarrow> (bool \<times> store) option" where
  "uu_reg_op bitmap pos order reg_op m =
     (if order \<ge> 31 then None else
      let nbits_reg = 2 ^ order; index = pos div 64; offset = pos - index * 64;
          nlongs_reg = BITS_TO_LONGS nbits_reg; nbitsinlong = min nbits_reg 64;
          msk = reg_mask nbitsinlong offset
      in case reg_op of
           REG_OP_ISFREE \<Rightarrow> do {
             busy \<leftarrow> exit_up 0 nlongs_reg (\<lambda>i. do { w \<leftarrow> aget m bitmap (index + i); Some (w AND msk \<noteq> 0) });
             Some (\<not> busy, m) }
         | REG_OP_ALLOC \<Rightarrow> do {
             m \<leftarrow> for_up 0 nlongs_reg (\<lambda>i m. do {
               w \<leftarrow> aget m bitmap (index + i); aset m bitmap (index + i) (w OR msk) }) m;
             Some (False, m) }
         | REG_OP_RELEASE \<Rightarrow> do {
             m \<leftarrow> for_up 0 nlongs_reg (\<lambda>i m. do {
               w \<leftarrow> aget m bitmap (index + i); aset m bitmap (index + i) (w AND NOT msk) }) m;
             Some (False, m) })"

lemma region_step: "p + 2 ^ k \<le> b \<Longrightarrow> b - (p + 2 ^ k) < b - p" for p b k :: nat
  using zero_less_power [of "2 :: nat" k] by linarith

function find_free_loop :: "addr \<Rightarrow> nat \<Rightarrow> nat \<Rightarrow> nat \<Rightarrow> store \<Rightarrow> ((errno + nat) \<times> store) option" where
  "find_free_loop bitmap bits order pos m =
     (if order \<ge> 31 then None
      else if pos + 2 ^ order \<le> bits then do {
        (free, _) \<leftarrow> uu_reg_op bitmap pos order REG_OP_ISFREE m;
        if \<not> free then find_free_loop bitmap bits order (pos + 2 ^ order) m
        else do {
          (_, m) \<leftarrow> uu_reg_op bitmap pos order REG_OP_ALLOC m;
          Some (Inr pos, m) } }
      else Some (Inl ENOMEM, m))"
  by pat_completeness auto
termination by (relation "measure (\<lambda>(bitmap, bits, order, pos, m). bits - pos)")
    (simp_all add: region_step)

declare find_free_loop.simps [simp del]

definition bitmap_find_free_region :: "addr \<Rightarrow> nat \<Rightarrow> nat \<Rightarrow> store \<Rightarrow> ((errno + nat) \<times> store) option" where
  "bitmap_find_free_region bitmap bits order m = find_free_loop bitmap bits order 0 m"

definition bitmap_release_region :: "addr \<Rightarrow> nat \<Rightarrow> nat \<Rightarrow> store \<Rightarrow> store option" where
  "bitmap_release_region bitmap pos order m = do {
     (_, m) \<leftarrow> uu_reg_op bitmap pos order REG_OP_RELEASE m;
     Some m }"

definition bitmap_allocate_region :: "addr \<Rightarrow> nat \<Rightarrow> nat \<Rightarrow> store \<Rightarrow> ((errno + unit) \<times> store) option" where
  "bitmap_allocate_region bitmap pos order m = do {
     (free, _) \<leftarrow> uu_reg_op bitmap pos order REG_OP_ISFREE m;
     if \<not> free then Some (Inl EBUSY, m)
     else do {
       (_, m) \<leftarrow> uu_reg_op bitmap pos order REG_OP_ALLOC m;
       Some (Inr (), m) } }"

end
