(* ===== verification/Bitmap_Region.thy ===== *)
theory Bitmap_Region
  imports Bitmap_Map Bitmap_Inline
begin

text \<open>
  The region allocator of \<^verbatim>\<open>bitmap.c\<close>: a region is \<open>2 ^ order\<close> bits, aligned to its size. The mask
  arithmetic of \<^verbatim>\<open>__reg_op\<close> selects exactly the bits of the region, within a word or over whole
  words, and the allocator is first fit over the aligned positions.
\<close>

definition region :: "nat \<Rightarrow> nat \<Rightarrow> nat set" where
  "region pos order = {pos..<pos + 2 ^ order}"

section \<open>The mask\<close>

lemma bit_reg_mask:
  assumes "0 < nb" and "off + nb \<le> 64"
  shows "bit (reg_mask nb off) b \<longleftrightarrow> off \<le> b \<and> b < off + nb"
proof -
  have "push_bit (nb - 1) 1 + (push_bit (nb - 1) 1 - 1) = (mask nb :: u64)"
    using assms(1) by (cases nb) (simp_all add: mask_eq_exp_minus_1)
  then have "reg_mask nb off = push_bit off (mask nb)" by (simp add: reg_mask_def Let_def)
  then show ?thesis using assms by (auto simp: bit_simps)
qed

lemma region_in_word:
  fixes pos order :: nat
  assumes al: "2 ^ order dvd pos" and o: "order \<le> 6"
  shows "(2 :: nat) ^ order \<le> 64" and "pos mod 64 + 2 ^ order \<le> 64" and "BITS_TO_LONGS (2 ^ order) = 1"
    and "j \<in> region pos order \<longleftrightarrow> j div 64 = pos div 64 \<and> pos mod 64 \<le> j mod 64 \<and> j mod 64 < pos mod 64 + 2 ^ order"
proof -
  have jp: "j = 64 * (j div 64) + j mod 64" "pos = 64 * (pos div 64) + pos mod 64" "j mod 64 < 64" by simp_all
  obtain k where k: "order + k = 6" using o le_iff_add by metis
  have "(64 :: nat) = 2 ^ (order + k)" unfolding k by simp
  then have d: "2 ^ order dvd (64 :: nat)" by (metis dvd_triv_left power_add)
  show le: "(2 :: nat) ^ order \<le> 64" using d by (auto dest: dvd_imp_le)
  have "2 ^ order dvd pos mod 64" using al d by (simp add: dvd_mod)
  then obtain q where q: "pos mod 64 = 2 ^ order * q" by blast
  obtain c where c: "(64 :: nat) = 2 ^ order * c" using d by blast
  have "2 ^ order * q < 2 ^ order * c" using q c mod_less_divisor [of 64 pos] by simp
  then have "q < c" by simp
  then have "2 ^ order * Suc q \<le> 2 ^ order * c" by (intro mult_le_mono2) simp
  then show fit: "pos mod 64 + 2 ^ order \<le> 64" using q c by simp
  show "BITS_TO_LONGS (2 ^ order) = 1" using le longs_le [of "2 ^ order" 1] bit_longs [of 0 "2 ^ order"] by simp
  show "j \<in> region pos order \<longleftrightarrow> j div 64 = pos div 64 \<and> pos mod 64 \<le> j mod 64 \<and> j mod 64 < pos mod 64 + 2 ^ order"
  proof
    assume "j \<in> region pos order"
    then have "pos \<le> j" "j < pos + 2 ^ order" by (simp_all add: region_def)
    then have "pos \<le> j \<and> j < 64 * Suc (pos div 64)" using fit jp unfolding mult_Suc_right by linarith
    then have "j div 64 = pos div 64" using word_range [of pos j] by blast
    then show "j div 64 = pos div 64 \<and> pos mod 64 \<le> j mod 64 \<and> j mod 64 < pos mod 64 + 2 ^ order"
      using \<open>pos \<le> j\<close> \<open>j < pos + 2 ^ order\<close> jp by linarith
  next
    assume "j div 64 = pos div 64 \<and> pos mod 64 \<le> j mod 64 \<and> j mod 64 < pos mod 64 + 2 ^ order"
    then show "j \<in> region pos order" using jp unfolding region_def atLeastLessThan_iff by linarith
  qed
qed

lemma region_of_words:
  fixes pos order :: nat
  assumes al: "2 ^ order dvd pos" and o: "\<not> order \<le> 6"
  shows "(64 :: nat) \<le> 2 ^ order" and "pos mod 64 = 0"
    and "j \<in> region pos order \<longleftrightarrow> pos div 64 \<le> j div 64 \<and> j div 64 < pos div 64 + BITS_TO_LONGS (2 ^ order)"
proof -
  have jp: "j = 64 * (j div 64) + j mod 64" "pos = 64 * (pos div 64) + pos mod 64" "j mod 64 < 64" by simp_all
  obtain k where k: "order = 6 + k" using o le_iff_add [of 6 order] by auto
  have s: "(2 :: nat) ^ order = 64 * 2 ^ k" by (simp add: k power_add)
  then have "64 dvd pos" using al by (metis dvd_mult_left)
  then show p: "pos mod 64 = 0" by (simp add: mod_eq_0_iff_dvd)
  have nl: "BITS_TO_LONGS (2 ^ order) = 2 ^ k" by (simp add: longs_eq s)
  show "(64 :: nat) \<le> 2 ^ order" by (simp add: s)
  have "j \<in> region pos order \<longleftrightarrow> pos div 64 \<le> j div 64 \<and> j div 64 < pos div 64 + 2 ^ k"
  proof
    assume "j \<in> region pos order"
    then have "64 * (pos div 64) \<le> j" "j < 64 * (pos div 64 + 2 ^ k)"
      using jp(2) p by (simp_all add: region_def s algebra_simps)
    then show "pos div 64 \<le> j div 64 \<and> j div 64 < pos div 64 + 2 ^ k"
      by (metis div_le_mono less_mult_imp_div_less mult.commute nonzero_mult_div_cancel_left zero_neq_numeral)
  next
    assume a: "pos div 64 \<le> j div 64 \<and> j div 64 < pos div 64 + 2 ^ k"
    then have "64 * Suc (j div 64) \<le> 64 * (pos div 64 + 2 ^ k)" by (intro mult_le_mono2) linarith
    then show "j \<in> region pos order" using a jp p unfolding region_def s atLeastLessThan_iff distrib_left mult_Suc_right by linarith
  qed
  then show "j \<in> region pos order \<longleftrightarrow> pos div 64 \<le> j div 64 \<and> j div 64 < pos div 64 + BITS_TO_LONGS (2 ^ order)"
    unfolding nl .
qed

lemma region_bits:
  fixes pos order :: nat
  assumes al: "2 ^ order dvd pos"
  defines "nb \<equiv> min (2 ^ order) 64" and "off \<equiv> pos - pos div 64 * 64" and "nl \<equiv> BITS_TO_LONGS (2 ^ order)"
  shows "0 < nb" and "off + nb \<le> 64"
    and "j \<in> region pos order \<longleftrightarrow> pos div 64 \<le> j div 64 \<and> j div 64 < pos div 64 + nl \<and>
      off \<le> j mod 64 \<and> j mod 64 < off + nb"
proof -
  have off: "off = pos mod 64" by (simp add: off_def modulo_nat_def)
  have "0 < nb \<and> off + nb \<le> 64 \<and> (j \<in> region pos order \<longleftrightarrow> pos div 64 \<le> j div 64 \<and>
      j div 64 < pos div 64 + nl \<and> off \<le> j mod 64 \<and> j mod 64 < off + nb)"
  proof (cases "order \<le> 6")
    case True
    note r = region_in_word [OF al True]
    show ?thesis using r(1,2) unfolding nl_def r(3) r(4) [of j] by (auto simp: nb_def off)
  next
    case False
    note r = region_of_words [OF al False]
    have "nb = 64" using r(1) by (simp add: nb_def)
    then show ?thesis using r(2) unfolding nl_def r(3) [of j] by (simp add: off)
  qed
  then show "0 < nb" and "off + nb \<le> 64"
    and "j \<in> region pos order \<longleftrightarrow> pos div 64 \<le> j div 64 \<and> j div 64 < pos div 64 + nl \<and>
      off \<le> j mod 64 \<and> j mod 64 < off + nb" by blast+
qed

section \<open>Operations on a region\<close>

text \<open>The loops of \<^verbatim>\<open>__reg_op\<close> over the words of a region: each word is replaced, or tested against the mask.\<close>

lemma map_words:
  assumes ws: "m p = Some ws" and fit: "ix + nl \<le> length ws"
  shows "for_up 0 nl (\<lambda>i m. do { w \<leftarrow> aget m p (ix + i); aset m p (ix + i) (f w) }) m =
    Some (m(p \<mapsto> blit ix (\<lambda>k. f (ws ! k)) (ix + nl) ws))"
proof -
  have rd: "aget (m(p \<mapsto> a)) p k = Some (a ! k)" if "k < length a" for a k using that by (simp add: aget_def)
  have "\<exists>s'. for_up 0 nl (\<lambda>i m. do { w \<leftarrow> aget m p (ix + i); aset m p (ix + i) (f w) }) m = Some s' \<and>
      s' = m(p \<mapsto> blit ix (\<lambda>k. f (ws ! k)) (ix + nl) ws)"
  proof (rule for_up_inv)
    fix i s assume i: "i < nl" and s: "s = m(p \<mapsto> blit ix (\<lambda>k. f (ws ! k)) (ix + i) ws)"
    show "\<exists>s'. (aget s p (ix + i) \<bind> (\<lambda>w. aset s p (ix + i) (f w))) = Some s' \<and>
        s' = m(p \<mapsto> blit ix (\<lambda>k. f (ws ! k)) (ix + Suc i) ws)"
      using i fit blit_props(3) [of ix "ix + i" ws "\<lambda>k. f (ws ! k)"] by (simp add: s rd write_upd blit_props(1,2))
  qed (use ws in \<open>simp_all add: blit_def fun_upd_idem\<close>)
  then show ?thesis by blast
qed

lemma bitset_mapped:
  assumes ws: "m p = Some ws" "n \<le> 64 * length ws" and fit: "ix + nl \<le> length ws"
  shows "bitset (m(p \<mapsto> blit ix (\<lambda>k. f (ws ! k)) (ix + nl) ws)) p n = {j. j < n \<and>
      (if ix \<le> j div 64 \<and> j div 64 < ix + nl then bit (f (ws ! (j div 64))) (j mod 64) else j \<in> bitset m p n)}"
proof -
  have "j div 64 < length ws" if "j < n" for j using that ws(2) by (simp add: less_mult_imp_div_less mult.commute)
  then show ?thesis using fit ws(1) by (auto simp: bitset_def bm_def blit_props split: if_splits)
qed

lemma masked_words:
  "(\<exists>k. 0 \<le> k \<and> k < nl \<and> ws ! (ix + k) AND msk \<noteq> 0) \<longleftrightarrow>
   (\<exists>j. ix \<le> j div 64 \<and> j div 64 < ix + nl \<and> bit msk (j mod 64) \<and> bm ws j)" for msk :: u64
proof
  assume "\<exists>k. 0 \<le> k \<and> k < nl \<and> ws ! (ix + k) AND msk \<noteq> 0"
  then obtain k b where kb: "k < nl" "b < 64" "bit (ws ! (ix + k)) b" "bit msk b" by (auto simp: word_neq0_bit bit_and_iff)
  let ?j = "64 * (ix + k) + b"
  have "?j div 64 = ix + k" "?j mod 64 = b" using kb(2) by (simp_all add: mod_mult_self4 del: distrib_left_numeral)
  then show "\<exists>j. ix \<le> j div 64 \<and> j div 64 < ix + nl \<and> bit msk (j mod 64) \<and> bm ws j"
    using kb by (intro exI [of _ ?j]) (simp add: bm_def)
next
  assume "\<exists>j. ix \<le> j div 64 \<and> j div 64 < ix + nl \<and> bit msk (j mod 64) \<and> bm ws j"
  then obtain j where j: "bm ws j" "ix \<le> j div 64" "j div 64 < ix + nl" "bit msk (j mod 64)" by blast
  then have "bit (ws ! (ix + (j div 64 - ix)) AND msk) (j mod 64)" by (simp add: bm_def bit_and_iff)
  then show "\<exists>k. 0 \<le> k \<and> k < nl \<and> ws ! (ix + k) AND msk \<noteq> 0" using j(2,3) by (intro exI [of _ "j div 64 - ix"]) auto
qed

lemma region_words:
  assumes al: "2 ^ order dvd pos" and fits: "pos + 2 ^ order \<le> 64 * l"
    and "ix = pos div 64" and "nl = BITS_TO_LONGS (2 ^ order)" and "msk = reg_mask (min (2 ^ order) 64) (pos - ix * 64)"
  shows "j \<in> region pos order \<longleftrightarrow> ix \<le> j div 64 \<and> j div 64 < ix + nl \<and> bit msk (j mod 64)" and "ix + nl \<le> l"
proof -
  have bits: "j \<in> region pos order \<longleftrightarrow> ix \<le> j div 64 \<and> j div 64 < ix + nl \<and> bit msk (j mod 64)" for j
    unfolding assms(3-5) bit_reg_mask [OF region_bits(1,2) [OF al]] region_bits(3) [OF al] by blast
  then show "j \<in> region pos order \<longleftrightarrow> ix \<le> j div 64 \<and> j div 64 < ix + nl \<and> bit msk (j mod 64)" .
  have nlp: "0 < nl" using bit_longs [of 0 "2 ^ order"] by (simp add: assms(4))
  have "pos \<in> region pos order" by (simp add: region_def)
  then obtain b where b: "b < 64" "bit msk b" using bits mod_less_divisor [of 64] by (metis zero_less_numeral)
  then have "64 * (ix + nl - 1) + b \<in> region pos order" using nlp by (simp add: bits)
  then have "64 * (ix + nl - 1) + b < 64 * l" using fits by (simp add: region_def)
  then show "ix + nl \<le> l" using nlp by linarith
qed

lemma reg_op_set:
  assumes h: "has_bits m p n" and al: "2 ^ order dvd pos" and fits: "pos + 2 ^ order \<le> n" and o: "order < 31"
  shows "uu_reg_op p pos order REG_OP_ISFREE m = Some (bitset m p n \<inter> region pos order = {}, m)"
    and "\<exists>m'. uu_reg_op p pos order REG_OP_ALLOC m = Some (False, m') \<and> has_bits m' p n \<and>
      bitset m' p n = bitset m p n \<union> region pos order \<and> (\<forall>x. x \<noteq> p \<longrightarrow> m' x = m x)"
    and "\<exists>m'. uu_reg_op p pos order REG_OP_RELEASE m = Some (False, m') \<and> has_bits m' p n \<and>
      bitset m' p n = bitset m p n - region pos order \<and> (\<forall>x. x \<noteq> p \<longrightarrow> m' x = m x)"
proof -
  obtain ws where ws: "m p = Some ws" "n \<le> 64 * length ws" using h by (rule has_bitsE)
  define ix nl msk where "ix = pos div 64" and "nl = BITS_TO_LONGS (2 ^ order)"
    and "msk = reg_mask (min (2 ^ order) 64) (pos - ix * 64)"
  note bits = region_words(1) [OF al order_trans [OF fits ws(2)] this]
    and fit = region_words(2) [OF al order_trans [OF fits ws(2)] this]
  note code = uu_reg_op_def Let_def ix_def [symmetric] nl_def [symmetric] msk_def [symmetric]
  have lt: "j \<in> region pos order \<Longrightarrow> j < n" for j using fits by (simp add: region_def)
  have "exit_up 0 nl (\<lambda>i. do { w \<leftarrow> aget m p (ix + i); Some (w AND msk \<noteq> 0) }) =
      Some (\<exists>k. 0 \<le> k \<and> k < nl \<and> ws ! (ix + k) AND msk \<noteq> 0)"
    by (rule exit_up_iff) (use fit ws(1) in \<open>simp add: aget_def\<close>)
  moreover have "(\<exists>k. 0 \<le> k \<and> k < nl \<and> ws ! (ix + k) AND msk \<noteq> 0) \<longleftrightarrow> bitset m p n \<inter> region pos order \<noteq> {}"
    unfolding masked_words using ws(1) lt bits by (auto simp: bitset_def)
  ultimately show "uu_reg_op p pos order REG_OP_ISFREE m = Some (bitset m p n \<inter> region pos order = {}, m)"
    using o unfolding code by simp
  have bm: "j \<in> bitset m p n \<longleftrightarrow> j < n \<and> bit (ws ! (j div 64)) (j mod 64)" for j using ws(1) by (auto simp: bitset_def bm_def)
  have "bitset (m(p \<mapsto> blit ix (\<lambda>k. ws ! k OR msk) (ix + nl) ws)) p n = bitset m p n \<union> region pos order"
    unfolding bitset_mapped [of m p ws, OF ws fit, of "\<lambda>w. w OR msk"] using lt by (auto simp: bits bm bit_or_iff)
  then show "\<exists>m'. uu_reg_op p pos order REG_OP_ALLOC m = Some (False, m') \<and> has_bits m' p n \<and>
      bitset m' p n = bitset m p n \<union> region pos order \<and> (\<forall>x. x \<noteq> p \<longrightarrow> m' x = m x)"
    unfolding code using o map_words [of m p ws, OF ws(1) fit, of "\<lambda>w. w OR msk"] ws fit by (simp add: has_bits_def blit_props)
  have "bitset (m(p \<mapsto> blit ix (\<lambda>k. ws ! k AND NOT msk) (ix + nl) ws)) p n = bitset m p n - region pos order"
    unfolding bitset_mapped [of m p ws, OF ws fit, of "\<lambda>w. w AND NOT msk"] by (auto simp: bits bm bit_and_iff bit_not_iff)
  then show "\<exists>m'. uu_reg_op p pos order REG_OP_RELEASE m = Some (False, m') \<and> has_bits m' p n \<and>
      bitset m' p n = bitset m p n - region pos order \<and> (\<forall>x. x \<noteq> p \<longrightarrow> m' x = m x)"
    unfolding code using o map_words [of m p ws, OF ws(1) fit, of "\<lambda>w. w AND NOT msk"] ws fit by (simp add: has_bits_def blit_props)
qed

section \<open>The allocator\<close>

definition free_at :: "nat set \<Rightarrow> nat \<Rightarrow> nat \<Rightarrow> nat \<Rightarrow> bool" where
  "free_at S n order pos \<longleftrightarrow> 2 ^ order dvd pos \<and> pos + 2 ^ order \<le> n \<and> S \<inter> region pos order = {}"

lemma free_next:
  assumes "2 ^ order dvd pos" and "\<not> free_at S n order pos" and "\<And>q. q < pos \<Longrightarrow> \<not> free_at S n order q"
    and "q < pos + 2 ^ order"
  shows "\<not> free_at S n order q"
proof
  assume f: "free_at S n order q"
  then have "pos < q" using assms(2,3) by (metis linorder_neqE_nat)
  obtain a where a: "pos = 2 ^ order * a" using assms(1) by blast
  obtain b where b: "q = 2 ^ order * b" using f by (auto simp: free_at_def)
  have "2 ^ order * a < 2 ^ order * b" "2 ^ order * b < 2 ^ order * Suc a" using a b \<open>pos < q\<close> assms(4) by simp_all
  then have "a < b" "b < Suc a" by (metis mult_less_cancel1)+
  then show False by simp
qed

lemma find_free_loop_spec:
  assumes h: "has_bits m p n" and o: "order < 31" and al: "2 ^ order dvd pos"
    and less: "\<And>q. q < pos \<Longrightarrow> \<not> free_at (bitset m p n) n order q"
  shows "(\<exists>q m'. find_free_loop p n order pos m = Some (Inr q, m') \<and> free_at (bitset m p n) n order q \<and>
        (\<forall>q' < q. \<not> free_at (bitset m p n) n order q') \<and> has_bits m' p n \<and>
        bitset m' p n = bitset m p n \<union> region q order \<and> (\<forall>x. x \<noteq> p \<longrightarrow> m' x = m x)) \<or>
     (find_free_loop p n order pos m = Some (Inl ENOMEM, m) \<and> (\<forall>q. \<not> free_at (bitset m p n) n order q))"
  using al less
proof (induction "n - pos" arbitrary: pos rule: less_induct)
  case less
  note rec = find_free_loop.simps [of p n order pos m]
  have nle: "\<not> 31 \<le> order" using o by simp
  show ?case
  proof (cases "pos + 2 ^ order \<le> n")
    case True
    note free = reg_op_set(1) [OF h less.prems(1) True o]
    show ?thesis
    proof (cases "free_at (bitset m p n) n order pos")
      case F: True
      obtain m' where "uu_reg_op p pos order REG_OP_ALLOC m = Some (False, m')" "has_bits m' p n"
          "bitset m' p n = bitset m p n \<union> region pos order" "\<forall>x. x \<noteq> p \<longrightarrow> m' x = m x"
        using reg_op_set(2) [OF h less.prems(1) True o] by blast
      moreover have "bitset m p n \<inter> region pos order = {}" using F by (simp add: free_at_def)
      ultimately have "find_free_loop p n order pos m = Some (Inr pos, m')" "has_bits m' p n"
          "bitset m' p n = bitset m p n \<union> region pos order" "\<forall>x. x \<noteq> p \<longrightarrow> m' x = m x"
        using rec nle True free by simp_all
      then show ?thesis using F less.prems(2) by blast
    next
      case F: False
      then have "bitset m p n \<inter> region pos order \<noteq> {}" using True less.prems(1) by (simp add: free_at_def)
      then have "find_free_loop p n order pos m = find_free_loop p n order (pos + 2 ^ order) m"
        using rec nle True free by simp
      moreover have "n - (pos + 2 ^ order) < n - pos" using True by (rule region_step)
      moreover have "2 ^ order dvd pos + 2 ^ order" using less.prems(1) by simp
      moreover have "\<not> free_at (bitset m p n) n order q" if "q < pos + 2 ^ order" for q
        using free_next [OF less.prems(1) F less.prems(2) that] .
      ultimately show ?thesis using less.hyps [of "pos + 2 ^ order"] by simp
    qed
  next
    case False
    then have "find_free_loop p n order pos m = Some (Inl ENOMEM, m)" using rec nle by simp
    moreover have "\<not> free_at (bitset m p n) n order q" for q
      using less.prems(2) [of q] False by (cases "q < pos") (auto simp: free_at_def)
    ultimately show ?thesis by blast
  qed
qed

lemma find_free_region_spec:
  assumes "has_bits m p n" and "order < 31"
  shows "(\<exists>q m'. bitmap_find_free_region p n order m = Some (Inr q, m') \<and> free_at (bitset m p n) n order q \<and>
        (\<forall>q' < q. \<not> free_at (bitset m p n) n order q') \<and> has_bits m' p n \<and>
        bitset m' p n = bitset m p n \<union> region q order \<and> (\<forall>x. x \<noteq> p \<longrightarrow> m' x = m x)) \<or>
     (bitmap_find_free_region p n order m = Some (Inl ENOMEM, m) \<and> (\<forall>q. \<not> free_at (bitset m p n) n order q))"
  unfolding bitmap_find_free_region_def using find_free_loop_spec [OF assms, of 0] by simp

lemma release_region_set:
  assumes "has_bits m p n" and "2 ^ order dvd pos" and "pos + 2 ^ order \<le> n" and "order < 31"
  shows "\<exists>m'. bitmap_release_region p pos order m = Some m' \<and> has_bits m' p n \<and>
      bitset m' p n = bitset m p n - region pos order \<and> (\<forall>x. x \<noteq> p \<longrightarrow> m' x = m x)"
  using reg_op_set(3) [OF assms] by (auto simp: bitmap_release_region_def)

lemma allocate_region_set:
  assumes "has_bits m p n" and "2 ^ order dvd pos" and "pos + 2 ^ order \<le> n" and "order < 31"
  shows "if bitset m p n \<inter> region pos order = {}
      then \<exists>m'. bitmap_allocate_region p pos order m = Some (Inr (), m') \<and> has_bits m' p n \<and>
        bitset m' p n = bitset m p n \<union> region pos order \<and> (\<forall>x. x \<noteq> p \<longrightarrow> m' x = m x)
      else bitmap_allocate_region p pos order m = Some (Inl EBUSY, m)"
  using reg_op_set(1,2) [OF assms] by (auto simp: bitmap_allocate_region_def)

end
