(* ===== verification/Bitmap_Weight.thy ===== *)
theory Bitmap_Weight
  imports Bitmap_Inline Hweight
begin

text \<open>
  \<^verbatim>\<open>bitmap_weight\<close> is the number of positions in the bitmap, on both paths.
\<close>

lemma card_words: "card {i. i < 64 * l \<and> bm ws i} = (\<Sum>k<l. card {j. bit (ws ! k) j})"
proof (induction l)
  case (Suc l)
  have w: "finite {j. bit (w :: u64) j}" for w by (rule finite_subset [of _ "{..<64}"]) (auto dest: bit_imp_le_length)
  have "{i. i < 64 * Suc l \<and> bm ws i} = {i. i < 64 * l \<and> bm ws i} \<union> (\<lambda>j. 64 * l + j) ` {j. bit (ws ! l) j}"
  proof (intro set_eqI iffI)
    fix i assume i: "i \<in> {i. i < 64 * Suc l \<and> bm ws i}"
    show "i \<in> {i. i < 64 * l \<and> bm ws i} \<union> (\<lambda>j. 64 * l + j) ` {j. bit (ws ! l) j}"
    proof (cases "i < 64 * l")
      case False
      then have "i = 64 * l + (i - 64 * l)" "i - 64 * l < 64" using i by auto
      then show ?thesis using i bm_word [of "i - 64 * l" ws l] by (intro UnI2 image_eqI [of _ _ "i - 64 * l"]) auto
    qed (use i in auto)
  next
    fix i assume "i \<in> {i. i < 64 * l \<and> bm ws i} \<union> (\<lambda>j. 64 * l + j) ` {j. bit (ws ! l) j}"
    then show "i \<in> {i. i < 64 * Suc l \<and> bm ws i}" using bit_imp_le_length [of "ws ! l"]
      by (auto simp: bm_word)
  qed
  moreover have "{i. i < 64 * l \<and> bm ws i} \<inter> (\<lambda>j. 64 * l + j) ` {j. bit (ws ! l) j} = {}" by auto
  moreover have "card ((\<lambda>j. 64 * l + j) ` {j. bit (ws ! l) j}) = card {j. bit (ws ! l) j}" by (simp add: card_image)
  ultimately show ?case using Suc w [of "ws ! l"] by (simp add: card_Un_disjoint)
qed simp

lemma weight_loop:
  assumes "\<And>k. k < l \<Longrightarrow> aget m p k = Some (ws ! k)"
  shows "for_up 0 l (\<lambda>k w. do { v \<leftarrow> aget m p k; Some (w + uint (hweight_long v)) }) 0 =
    Some (int (card {i. i < 64 * l \<and> bm ws i}))"
proof -
  have "\<exists>s'. for_up 0 l (\<lambda>k w. do { v \<leftarrow> aget m p k; Some (w + uint (hweight_long v)) }) 0 = Some s' \<and>
      s' = int (\<Sum>k<l. card {j. bit (ws ! k) j})"
    by (rule for_up_inv) (simp_all add: assms hweight_long_uint)
  then show ?thesis by (simp add: card_words)
qed

lemma weight_set:
  assumes "has_bits m p n"
  shows "uu_bitmap_weight p n m = Some (int (card (bitset m p n)))"
proof -
  obtain ws where ws: "m p = Some ws" "n \<le> 64 * length ws" using assms by (rule has_bitsE)
  have rd: "k < BITS_TO_LONGS n \<Longrightarrow> aget m p k = Some (ws ! k)" for k using aget_longs [of m p ws n] ws by blast
  define l where "l = n div 64"
  have lp: "for_up 0 l (\<lambda>k w. do { v \<leftarrow> aget m p k; Some (w + uint (hweight_long v)) }) 0 =
      Some (int (card {i. i < 64 * l \<and> bm ws i}))"
    by (rule weight_loop) (simp add: rd div_longs l_def)
  show ?thesis
  proof (cases "n mod 64 = 0")
    case True
    then have "64 * l = n" by (simp add: l_def mod_eq_0_iff_dvd)
    then show ?thesis using True lp ws(1) by (simp add: uu_bitmap_weight_def Let_def l_def [symmetric] bitset_def)
  next
    case False
    define v where "v = ws ! l AND BITMAP_LAST_WORD_MASK n"
    have g: "aget m p l = Some (ws ! l)" using rd False by (simp add: mod_longs l_def)
    have n: "n = 64 * l + n mod 64" by (simp add: l_def)
    have v: "{j. bit v j} = {j. j < n mod 64 \<and> bm ws (64 * l + j)}"
      using False by (auto simp: v_def bit_and_iff last_word_mask bm_def)
    have "bitset m p n = {i. i < 64 * l \<and> bm ws i} \<union> (\<lambda>j. 64 * l + j) ` {j. bit v j}"
    proof (intro set_eqI iffI)
      fix i assume "i \<in> bitset m p n"
      then have i: "i < n" "bm ws i" using ws(1) by (auto simp: bitset_def)
      show "i \<in> {i. i < 64 * l \<and> bm ws i} \<union> (\<lambda>j. 64 * l + j) ` {j. bit v j}"
      proof (cases "i < 64 * l")
        case F: False
        then show ?thesis unfolding v using i n by (intro UnI2 image_eqI [of _ _ "i - 64 * l"]) auto
      qed (use i in auto)
    next
      fix i assume "i \<in> {i. i < 64 * l \<and> bm ws i} \<union> (\<lambda>j. 64 * l + j) ` {j. bit v j}"
      then show "i \<in> bitset m p n" unfolding v using ws(1) n by (auto simp: bitset_def)
    qed
    moreover have "{i. i < 64 * l \<and> bm ws i} \<inter> (\<lambda>j. 64 * l + j) ` {j. bit v j} = {}" by auto
    moreover have "finite {j. bit v j}" unfolding v by simp
    ultimately have "card (bitset m p n) = card {i. i < 64 * l \<and> bm ws i} + card {j. bit v j}"
      by (simp add: card_Un_disjoint card_image)
    moreover have "uint (hweight_long v) = int (card {j. bit v j})"
      by (simp add: hweight_long_uint)
    ultimately show ?thesis using False lp g
      by (simp add: uu_bitmap_weight_def Let_def l_def [symmetric] v_def [symmetric])
  qed
qed

lemma inline_weight:
  assumes "0 < n" and "has_bits m p n"
  shows "bitmap_weight cst p n m = Some (int (card (bitset m p n)))"
proof (cases "small_const_nbits cst n")
  case True
  then have n: "n \<le> 64" by (simp add: small_const_nbits_def)
  obtain ws where ws: "m p = Some ws" "n \<le> 64 * length ws" using assms(2) by (rule has_bitsE)
  have "{j. bit (ws ! 0 AND BITMAP_LAST_WORD_MASK n) j} = bitset m p n"
    using bitset_small [of cst n m p ws, OF True ws(1)] small_mask [OF assms(1) n] by (auto simp: bit_and_iff)
  then show ?thesis using True small_aget [of m p ws n, OF ws assms(1)]
    by (simp add: bitmap_weight_def hweight_long_uint)
qed (use weight_set [OF assms(2)] in \<open>simp add: bitmap_weight_def\<close>)

end
