(* ===== verification/Bitmap_Props.thy ===== *)
theory Bitmap_Props
  imports Bitmap_Inline Bitmap_Range Bitmap_Region Bitmap_Weight
begin

text \<open>
  What \<^verbatim>\<open>bitmap.h\<close> and \<^verbatim>\<open>bitmap.c\<close> promise. A bitmap of \<open>n\<close> bits stands for a set of numbers below \<open>n\<close>
  (\<open>bitset\<close>); every operation computes the set operation of its name, and the allocator of regions
  satisfies the contract of the locale \<open>region_allocator\<close>.
\<close>

section \<open>The abstract operation behind an update\<close>

definition yields :: "store option \<Rightarrow> store \<Rightarrow> addr \<Rightarrow> nat \<Rightarrow> nat set \<Rightarrow> bool" where
  "yields r m d n S \<longleftrightarrow> (\<exists>m'. r = Some m' \<and> has_bits m' d n \<and> bitset m' d n = S \<and> (\<forall>x. x \<noteq> d \<longrightarrow> m' x = m x))"

lemma yieldsI: "\<exists>m'. r = Some m' \<and> has_bits m' d n \<and> bitset m' d n = S \<and> (\<forall>x. x \<noteq> d \<longrightarrow> m' x = m x) \<Longrightarrow> yields r m d n S"
  by (simp add: yields_def)

lemma yields_snd: "\<exists>r m'. f = Some (r, m') \<and> has_bits m' d n \<and> bitset m' d n = S \<and> (\<forall>x. x \<noteq> d \<longrightarrow> m' x = m x) \<Longrightarrow>
    yields (map_option snd f) m d n S"
  by (force simp: yields_def)

definition ex_maps :: store where
  "ex_maps = [64 \<mapsto> [6, 1], 128 \<mapsto> [10, 3], 192 \<mapsto> [0, 0]]"

lemma ex_maps_bits: "has_bits ex_maps 64 70" "has_bits ex_maps 128 70" "has_bits ex_maps 192 70"
  by (simp_all add: ex_maps_def has_bits_def)

section \<open>Operations on sets\<close>

text \<open>
  C21: the tests of a bitmap decide the corresponding property of the set it stands for, on the
  one-word path of constant sizes and on the general path, whatever the bits past the end hold.
\<close>

theorem bitmap_tests:
  assumes "0 < n" and "has_bits m p n" and "has_bits m q n"
  shows "bitmap_empty cst p n m = Some (bitset m p n = {}) \<and>
    bitmap_full cst p n m = Some (bitset m p n = {..<n}) \<and>
    bitmap_equal cst p q n m = Some (bitset m p n = bitset m q n) \<and>
    bitmap_intersects cst p q n m = Some (bitset m p n \<inter> bitset m q n \<noteq> {}) \<and>
    bitmap_subset cst p q n m = Some (bitset m p n \<subseteq> bitset m q n)"
  using inline_tests [OF assms] by simp

theorem bitmap_tests_witness:
  "bitmap_subset True 64 128 70 ex_maps = Some (bitset ex_maps 64 70 \<subseteq> bitset ex_maps 128 70)"
  using bitmap_tests [OF _ ex_maps_bits(1,2)] by simp

text \<open>
  C20: bitmap_zero, bitmap_fill, bitmap_copy, bitmap_and, bitmap_or, bitmap_xor, bitmap_andnot
  and bitmap_complement refine the set operations of their names, whether or not the destination
  is one of the sources, and change no other array.
\<close>

theorem bitmap_ops_refine:
  assumes "0 < n" and "has_bits m d n" and "has_bits m p n" and "has_bits m q n"
  shows "yields (bitmap_zero cst d n m) m d n {} \<and>
    yields (bitmap_fill cst d n m) m d n {..<n} \<and>
    yields (bitmap_copy cst d p n m) m d n (bitset m p n) \<and>
    yields (map_option snd (bitmap_and cst d p q n m)) m d n (bitset m p n \<inter> bitset m q n) \<and>
    yields (bitmap_or cst d p q n m) m d n (bitset m p n \<union> bitset m q n) \<and>
    yields (bitmap_xor cst d p q n m) m d n ((bitset m p n - bitset m q n) \<union> (bitset m q n - bitset m p n)) \<and>
    yields (map_option snd (bitmap_andnot cst d p q n m)) m d n (bitset m p n - bitset m q n) \<and>
    yields (bitmap_complement cst d p n m) m d n ({..<n} - bitset m p n)"
  using inline_zero [OF assms(1,2)] inline_fill [OF assms(1,2)] inline_copy [OF assms(1-3)]
  by (intro conjI yields_snd [OF inline_ops(1)] yields_snd [OF inline_ops(4)] yieldsI [OF inline_ops(2)]
      yieldsI [OF inline_ops(3)] yieldsI [OF inline_ops(5) [OF assms]] yieldsI assms) simp_all

theorem bitmap_ops_refine_witness:
  "yields (bitmap_xor False 64 64 128 70 ex_maps) ex_maps 64 70
     ((bitset ex_maps 64 70 - bitset ex_maps 128 70) \<union> (bitset ex_maps 128 70 - bitset ex_maps 64 70))"
  using bitmap_ops_refine [OF _ ex_maps_bits(1,1,2)] by simp

text \<open>
  the Boolean that bitmap_and and bitmap_andnot return on the general path says whether the
  result has a bit in its WORDS: bits past the end count, so it is true only if the resulting set
  is not empty when the size is a multiple of the word size, and for other sizes it can be true for
  an empty result.
\<close>

theorem bitmap_and_result:
  assumes "has_bits m d n" and "has_bits m p n" and "has_bits m q n"
  shows "(\<exists>m'. uu_bitmap_and d p q n m = Some (\<exists>i < 64 * BITS_TO_LONGS n. bm (the (m p)) i \<and> bm (the (m q)) i, m')) \<and>
    (\<exists>m'. uu_bitmap_andnot d p q n m = Some (\<exists>i < 64 * BITS_TO_LONGS n. bm (the (m p)) i \<and> \<not> bm (the (m q)) i, m')) \<and>
    (n mod 64 = 0 \<longrightarrow> map_option fst (uu_bitmap_and d p q n m) = Some (bitset m p n \<inter> bitset m q n \<noteq> {}) \<and>
      map_option fst (uu_bitmap_andnot d p q n m) = Some (bitset m p n - bitset m q n \<noteq> {}))"
proof (intro conjI impI)
  note r = and_set [OF assms]
  show "\<exists>m'. uu_bitmap_and d p q n m = Some (\<exists>i < 64 * BITS_TO_LONGS n. bm (the (m p)) i \<and> bm (the (m q)) i, m')"
    using r(1) by blast
  show "\<exists>m'. uu_bitmap_andnot d p q n m = Some (\<exists>i < 64 * BITS_TO_LONGS n. bm (the (m p)) i \<and> \<not> bm (the (m q)) i, m')"
    using r(2) by blast
  assume "n mod 64 = 0"
  then have n: "64 * BITS_TO_LONGS n = n" by (rule longs_bounds(2))
  show "map_option fst (uu_bitmap_and d p q n m) = Some (bitset m p n \<inter> bitset m q n \<noteq> {})"
    using r(1) unfolding n by (auto simp: bitset_def)
  show "map_option fst (uu_bitmap_andnot d p q n m) = Some (bitset m p n - bitset m q n \<noteq> {})"
    using r(2) unfolding n by (auto simp: bitset_def)
qed

theorem bitmap_and_result_witness:
  "\<exists>m'. uu_bitmap_and 192 64 128 70 ex_maps =
     Some (\<exists>i < 64 * BITS_TO_LONGS 70. bm (the (ex_maps 64)) i \<and> bm (the (ex_maps 128)) i, m')"
  using bitmap_and_result [OF ex_maps_bits(3,1,2)] by simp



text \<open>
  bitmap_set adds and bitmap_clear removes exactly the given range, within the array.
\<close>

theorem bitmap_ranges:
  assumes "has_bits m p n" and "start + nr \<le> n"
  shows "yields (bitmap_set p start nr m) m p n (bitset m p n \<union> {start..<start + nr}) \<and>
    yields (bitmap_clear p start nr m) m p n (bitset m p n - {start..<start + nr})"
  by (intro conjI yieldsI bitmap_set_range bitmap_clear_range assms)

theorem bitmap_ranges_witness:
  "yields (bitmap_set 64 60 9 ex_maps) ex_maps 64 70 (bitset ex_maps 64 70 \<union> {60..<69})"
  using bitmap_ranges [OF ex_maps_bits(1), of 60 9] by simp

text \<open>
  bitmap_weight is the number of elements, and is at most the size.
\<close>

theorem bitmap_weight_card:
  assumes "0 < n" and "has_bits m p n"
  shows "bitmap_weight cst p n m = Some (int (card (bitset m p n))) \<and> card (bitset m p n) \<le> n"
proof
  show "bitmap_weight cst p n m = Some (int (card (bitset m p n)))" using assms by (rule inline_weight)
  have "card (bitset m p n) \<le> card {..<n}" by (rule card_mono) (auto simp: bitset_def)
  then show "card (bitset m p n) \<le> n" by simp
qed

theorem bitmap_weight_card_witness:
  "bitmap_weight True 64 70 ex_maps = Some (int (card (bitset ex_maps 64 70)))"
  using bitmap_weight_card [OF _ ex_maps_bits(1)] by simp

section \<open>The allocator of regions\<close>

text \<open>
  The contract of an allocator of aligned power-of-two regions of a set of used positions, in
  terms of which its clients reason.
\<close>

locale region_allocator =
  fixes inv :: "'s \<Rightarrow> bool" and used :: "'s \<Rightarrow> nat set" and n :: nat
    and find_free :: "nat \<Rightarrow> 's \<Rightarrow> ((errno + nat) \<times> 's) option"
    and allocate :: "nat \<Rightarrow> nat \<Rightarrow> 's \<Rightarrow> ((errno + unit) \<times> 's) option"
    and release :: "nat \<Rightarrow> nat \<Rightarrow> 's \<Rightarrow> 's option"
  assumes find_free: "inv s \<Longrightarrow> order < 31 \<Longrightarrow>
      (\<exists>q s'. find_free order s = Some (Inr q, s') \<and> inv s' \<and> free_at (used s) n order q \<and>
        (\<forall>q' < q. \<not> free_at (used s) n order q') \<and> used s' = used s \<union> region q order) \<or>
      (find_free order s = Some (Inl ENOMEM, s) \<and> (\<forall>q. \<not> free_at (used s) n order q))"
    and allocate_free: "inv s \<Longrightarrow> order < 31 \<Longrightarrow> free_at (used s) n order q \<Longrightarrow>
      \<exists>s'. allocate q order s = Some (Inr (), s') \<and> inv s' \<and> used s' = used s \<union> region q order"
    and allocate_busy: "inv s \<Longrightarrow> order < 31 \<Longrightarrow> 2 ^ order dvd q \<Longrightarrow> q + 2 ^ order \<le> n \<Longrightarrow>
      \<not> free_at (used s) n order q \<Longrightarrow> allocate q order s = Some (Inl EBUSY, s)"
    and release: "inv s \<Longrightarrow> order < 31 \<Longrightarrow> 2 ^ order dvd q \<Longrightarrow> q + 2 ^ order \<le> n \<Longrightarrow>
      \<exists>s'. release q order s = Some s' \<and> inv s' \<and> used s' = used s - region q order"
begin

lemma find_free_disjoint:
  assumes "inv s" and "o1 < 31" and "o2 < 31"
    and "find_free o1 s = Some (Inr q1, s1)" and "find_free o2 s1 = Some (Inr q2, s2)"
  shows "region q1 o1 \<inter> region q2 o2 = {} \<and> region q1 o1 \<union> region q2 o2 \<subseteq> used s2"
proof -
  have 1: "inv s1" "used s1 = used s \<union> region q1 o1" using find_free [OF assms(1,2)] assms(4) by auto
  have 2: "free_at (used s1) n o2 q2" "used s2 = used s1 \<union> region q2 o2"
    using find_free [OF 1(1) assms(3)] assms(5) by auto
  show ?thesis using 1(2) 2 by (auto simp: free_at_def)
qed

lemma allocate_release:
  assumes "inv s" and "order < 31" and "free_at (used s) n order q"
  shows "\<exists>s1 s2. allocate q order s = Some (Inr (), s1) \<and> allocate q order s1 = Some (Inl EBUSY, s1) \<and>
    release q order s1 = Some s2 \<and> used s2 = used s"
proof -
  have q: "2 ^ order dvd q" "q + 2 ^ order \<le> n" "used s \<inter> region q order = {}"
    using assms(3) by (auto simp: free_at_def)
  obtain s1 where 1: "allocate q order s = Some (Inr (), s1)" "inv s1" "used s1 = used s \<union> region q order"
    using allocate_free [OF assms] by blast
  have "q \<in> region q order" by (simp add: region_def)
  then have "\<not> free_at (used s1) n order q" using 1(3) by (auto simp: free_at_def)
  then have busy: "allocate q order s1 = Some (Inl EBUSY, s1)" using allocate_busy [OF 1(2) assms(2) q(1,2)] by blast
  obtain s2 where 2: "release q order s1 = Some s2" "used s2 = used s1 - region q order"
    using release [OF 1(2) assms(2) q(1,2)] by blast
  have "used s2 = used s" using 2(2) 1(3) q(3) by blast
  then show ?thesis using 1(1) busy 2(1) by blast
qed

end

interpretation regions: region_allocator "\<lambda>m. has_bits m p n" "\<lambda>m. bitset m p n" n "bitmap_find_free_region p n"
    "bitmap_allocate_region p" "bitmap_release_region p" for p n
proof (unfold_locales, goal_cases)
  case (1 m order)
  then show ?case using find_free_region_spec [of m p n order] by blast
next
  case (2 m order q)
  then show ?case using allocate_region_set [of m p n order q] by (auto simp: free_at_def)
next
  case (3 m order q)
  then show ?case using allocate_region_set [of m p n order q] by (auto simp: free_at_def split: if_splits)
next
  case (4 m order q)
  then show ?case using release_region_set [of m p n order q] by blast
qed



text \<open>
  two successive allocations by bitmap_find_free_region never overlap.
\<close>

theorem find_free_regions_disjoint:
  assumes "has_bits m p n" and "o1 < 31" and "o2 < 31"
    and "bitmap_find_free_region p n o1 m = Some (Inr q1, m1)"
    and "bitmap_find_free_region p n o2 m1 = Some (Inr q2, m2)"
  shows "region q1 o1 \<inter> region q2 o2 = {} \<and> region q1 o1 \<union> region q2 o2 \<subseteq> bitset m2 p n"
  using assms by (rule regions.find_free_disjoint)

lemma ex_two_regions:
  "bitmap_find_free_region 192 70 1 ex_maps = Some (Inr 0, ex_maps(192 \<mapsto> [3, 0]))"
  "bitmap_find_free_region 192 70 0 (ex_maps(192 \<mapsto> [3, 0])) = Some (Inr 2, ex_maps(192 \<mapsto> [7, 0]))"
  by (simp_all add: bitmap_find_free_region_def find_free_loop.simps uu_reg_op_def reg_mask_def ex_maps_def
      exit_up.simps for_up.simps aget_def aset_def BITS_TO_LONGS_def)

theorem find_free_regions_disjoint_witness:
  "region 0 1 \<inter> region 2 0 = {} \<and> region 0 1 \<union> region 2 0 \<subseteq> bitset (ex_maps(192 \<mapsto> [7, 0])) 192 70"
  using find_free_regions_disjoint [OF ex_maps_bits(3) _ _ ex_two_regions] by simp

text \<open>
  C24: allocating a free region succeeds, allocating it again returns -EBUSY, and releasing it
  restores the set of used positions.
\<close>

theorem allocate_release_roundtrip:
  assumes "has_bits m p n" and "order < 31" and "free_at (bitset m p n) n order q"
  shows "\<exists>m1 m2. bitmap_allocate_region p q order m = Some (Inr (), m1) \<and>
    bitmap_allocate_region p q order m1 = Some (Inl EBUSY, m1) \<and>
    bitmap_release_region p q order m1 = Some m2 \<and> bitset m2 p n = bitset m p n"
  using assms by (rule regions.allocate_release)

lemma ex_clear: "bitset ex_maps 192 70 = {}"
proof -
  have "i div 64 = 0 \<or> i div 64 = Suc 0" if "i < 70" for i :: nat using that by linarith
  then have "\<not> bm [0, 0] i" if "i < 70" for i using that by (force simp: bm_def)
  then show ?thesis by (auto simp: bitset_def ex_maps_def)
qed

theorem allocate_release_roundtrip_witness:
  "\<exists>m1 m2. bitmap_allocate_region 192 4 2 ex_maps = Some (Inr (), m1) \<and>
    bitmap_allocate_region 192 4 2 m1 = Some (Inl EBUSY, m1) \<and>
    bitmap_release_region 192 4 2 m1 = Some m2 \<and> bitset m2 192 70 = bitset ex_maps 192 70"
  by (rule allocate_release_roundtrip [OF ex_maps_bits(3)])
    (simp_all add: free_at_def region_def ex_clear)

end
