(* ===== verification/Bitmap_Bits.thy ===== *)
theory Bitmap_Bits
  imports Bitmap_Inline
begin

text \<open>
  Single bits and searches as operations on the set of bits: \<^verbatim>\<open>set_bit\<close>, \<^verbatim>\<open>test_bit\<close>, \<^verbatim>\<open>find_next_bit\<close> from a set bit,
  and \<^verbatim>\<open>for_each_set_bit\<close> with an invariant over the bits already visited.
\<close>

lemma finite_bitset: "finite (bitset m p n)"
  by (rule finite_subset [of _ "{..<n}"]) (auto simp: bitset_def)

lemma card_bitset: "card (bitset m p n) \<le> n"
  using card_mono [of "{..<n}" "bitset m p n"] by (auto simp: bitset_def)

lemma elems_filter:
  assumes "m p = Some ws"
  shows "sorted_list_of_set (bitset m p n) = filter (bm ws) [0..<n]"
proof -
  have "set (filter (bm ws) [0..<n]) = bitset m p n" using assms by (auto simp: bitset_def)
  then show ?thesis using sorted_list_of_set.idem_if_sorted_distinct [of "filter (bm ws) [0..<n]"] by (simp add: sorted_wrt_filter)
qed

lemma filter_next:
  assumes "is_next P n i r"
  shows "filter P [i..<n] = (if r < n then r # filter P [Suc r..<n] else [])"
proof -
  have "[i..<n] = [i..<r] @ [r..<n]" using assms by (metis is_next_def le_add_diff_inverse upt_add_eq_append)
  moreover have "filter P [i..<r] = []" using assms by (auto simp: is_next_def filter_empty_conv)
  ultimately show ?thesis using assms by (auto simp: is_next_def upt_conv_Cons)
qed

lemma next_set_bit:
  assumes "m p = Some ws" and "n \<le> 64 * length ws" and "n < 2 ^ 31" and "unat cur < n"
  obtains R where "find_next_bit p (of_nat n) (cur + 1) m = Some R" and "is_next (bm ws) n (Suc (unat cur)) (unat R)"
proof -
  have n: "unat (of_nat n :: u64) = n" using assms(3) by (simp add: unat_of_nat)
  have c: "unat (cur + 1) = Suc (unat cur)" using assms(4) by (intro unat_Suc [of _ "of_nat n"]) (simp add: n)
  show thesis
  proof (cases "cur + 1 < of_nat n")
    case True
    then show thesis using that find_next_bit_spec [of m p ws "of_nat n" "cur + 1"] assms n c by auto
  next
    case False
    then have "n = Suc (unat cur)" using n c assms(4) by (simp add: word_less_nat_alt)
    then have "is_next (bm ws) n (Suc (unat cur)) (unat (of_nat n :: u64))" unfolding n by (auto simp: is_next_def)
    then show thesis using that find_next_bit_end [of "of_nat n" "cur + 1" p m] False by simp
  qed
qed

lemma set_bit_set:
  assumes "has_bits m p n" and "i < n"
  shows "\<exists>m'. set_bit (int i) p m = Some m' \<and> has_bits m' p n \<and> bitset m' p n = insert i (bitset m p n) \<and> (\<forall>x. x \<noteq> p \<longrightarrow> m' x = m x)"
proof -
  obtain a where a: "m p = Some a" "n \<le> 64 * length a" using assms(1) by (rule has_bitsE)
  have l: "i div 64 < length a" using a(2) assms(2) by (simp add: less_mult_imp_div_less mult.commute)
  let ?a = "a[i div 64 := a ! (i div 64) OR push_bit (i mod 64) 1]"
  have "bm ?a k \<longleftrightarrow> k = i \<or> bm a k" for k
  proof (cases "k div 64 = i div 64")
    case True
    then have "k = i \<longleftrightarrow> k mod 64 = i mod 64" by (metis mult_div_mod_eq)
    then show ?thesis using True l by (auto simp: bm_def bit_or_iff bit_simps)
  next
    case False
    then have "k \<noteq> i" by auto
    then show ?thesis using False by (simp add: bm_def)
  qed
  then have "bitset (m(p \<mapsto> ?a)) p n = insert i (bitset m p n)" using a(1) assms(2) by (auto simp: bitset_def)
  then show ?thesis using a l by (auto simp: set_bit_def aget_def aset_def has_bits_def)
qed

lemma test_bit_set:
  assumes "has_bits m p n" and "i < n" and "n < 2 ^ 31"
  shows "test_bit (of_nat i) p m = Some (i \<in> bitset m p n)"
proof -
  obtain a where a: "m p = Some a" "n \<le> 64 * length a" using assms(1) by (rule has_bitsE)
  have "unat (of_nat i :: u32) = i" using assms(2,3) by (simp add: unat_of_nat)
  moreover have "i div 64 < length a" using a(2) assms(2) by (simp add: less_mult_imp_div_less mult.commute)
  moreover have "push_bit (i mod 64) 1 AND (w :: u64) \<noteq> 0 \<longleftrightarrow> bit w (i mod 64)" for w
    by (simp add: bit_iff_and_push_bit_not_eq_0 and.commute push_bit_of_1)
  ultimately show ?thesis using a assms(2) by (simp add: test_bit_def aget_def bitset_words)
qed

text \<open>The bits are visited in increasing order, each once: the invariant relates the bits below the current one to the state.\<close>

lemma for_each_bits:
  assumes n: "n < 2 ^ 31" and A: "A = bitset m0 a n" and h: "has_bits m0 a n"
    and keep: "\<And>D st. P D st \<Longrightarrow> fst st a = m0 a"
    and step: "\<And>k st. k \<in> A \<Longrightarrow> P {i \<in> A. i < k} st \<Longrightarrow> \<exists>st'. body (of_nat k) st = Some st' \<and> P (insert k {i \<in> A. i < k}) st'"
    and init: "P {} st0"
  shows "\<exists>st'. for_each_set_bit a (of_nat n) body st0 = Some st' \<and> P A st'"
proof -
  obtain ws where ws: "m0 a = Some ws" "n \<le> 64 * length ws" using h by (rule has_bitsE)
  have un: "unat (of_nat n :: u64) = n" using n by (simp add: unat_of_nat)
  have loop: "\<exists>st'. bit_loop (find_next_bit a (of_nat n)) (of_nat n) body b st = Some st' \<and> P A st'"
    if "is_next (bm ws) n s (unat b)" and "P {i \<in> A. i < s} st" for b s st
    using that
  proof (induction "n - unat b" arbitrary: b s st rule: less_induct)
    case less
    have below: "{i \<in> A. i < s} = {i \<in> A. i < unat b}"
      using less.prems(1) ws(1) by (auto simp: is_next_def A bitset_def not_less)
    show ?case
    proof (cases "unat b < n")
      case True
      have bA: "unat b \<in> A" using less.prems(1) True ws(1) by (auto simp: is_next_def A bitset_def)
      obtain st' where st': "body b st = Some st'" "P (insert (unat b) {i \<in> A. i < unat b}) st'"
        using step [OF bA less.prems(2) [unfolded below]] unfolding word_of_unat [OF refl, of b, symmetric] by blast
      have "fst st' a = Some ws" using keep [OF st'(2)] ws(1) by simp
      then obtain R where R: "find_next_bit a (of_nat n) (b + 1) (fst st') = Some R" "is_next (bm ws) n (Suc (unat b)) (unat R)"
        using next_set_bit [of "fst st'" a ws n b] ws(2) n True by blast
      have "insert (unat b) {i \<in> A. i < unat b} = {i \<in> A. i < Suc (unat b)}" using bA by auto
      moreover have "n - unat R < n - unat b" using R(2) True by (auto simp: is_next_def)
      ultimately have "\<exists>st''. bit_loop (find_next_bit a (of_nat n)) (of_nat n) body R st' = Some st'' \<and> P A st''"
        using less.hyps [OF _ R(2)] st'(2) by simp
      then show ?thesis using True un st'(1) R(1) by (subst bit_loop.simps) (simp add: word_less_nat_alt)
    next
      case False
      then have "{i \<in> A. i < unat b} = A" by (auto simp: A bitset_def)
      then show ?thesis using False un less.prems(2) below by (subst bit_loop.simps) (simp add: word_less_nat_alt)
    qed
  qed
  obtain R where R: "find_first_bit a (of_nat n) (fst st0) = Some R" "is_next (bm ws) n 0 (unat R)"
    using find_first_bit_spec [of "fst st0" a ws "of_nat n"] keep [OF init] ws un by auto
  show ?thesis using loop [OF R(2)] init R(1) by (simp add: for_each_set_bit_def)
qed

end
