(* ===== verification/Bitmap_Area.thy ===== *)
theory Bitmap_Area
  imports Bitmap_Bits
begin

text \<open>
  The search for an aligned area of clear bits: \<^verbatim>\<open>bitmap_find_next_zero_area\<close> ends and finds the first one.
\<close>

definition free_area :: "nat set \<Rightarrow> nat \<Rightarrow> nat \<Rightarrow> nat \<Rightarrow> nat \<Rightarrow> bool" where
  "free_area A n k nr r \<longleftrightarrow> 2 ^ k dvd r \<and> r + nr \<le> n \<and> (\<forall>i. r \<le> i \<and> i < r + nr \<longrightarrow> i \<notin> A)"

text \<open>The answer of the search from a start: the first area, or a position behind the bitmap when there is none.\<close>

definition area_found :: "nat set \<Rightarrow> nat \<Rightarrow> nat \<Rightarrow> nat \<Rightarrow> nat \<Rightarrow> nat \<Rightarrow> bool" where
  "area_found A n k nr s r \<longleftrightarrow>
     (if r \<le> n then s \<le> r \<and> free_area A n k nr r \<and> (\<forall>q. s \<le> q \<and> q < r \<longrightarrow> \<not> free_area A n k nr q)
      else \<forall>q. s \<le> q \<longrightarrow> \<not> free_area A n k nr q)"

lemma area_found_later:
  assumes "area_found A n k nr s' r" and "s \<le> s'" and "\<And>q. s \<le> q \<Longrightarrow> q < s' \<Longrightarrow> \<not> free_area A n k nr q"
  shows "area_found A n k nr s r"
  using assms unfolding area_found_def by (meson le_trans not_le)

definition align_up :: "nat \<Rightarrow> nat \<Rightarrow> nat" where
  "align_up k x = (x + (2 ^ k - 1)) div 2 ^ k * 2 ^ k"

lemma align_up_props: "x \<le> align_up k x" "2 ^ k dvd align_up k x" "align_up k x < x + 2 ^ k" "2 ^ k dvd r \<Longrightarrow> x \<le> r \<Longrightarrow> align_up k x \<le> r"
proof -
  let ?p = "2 ^ k :: nat"
  have p: "0 < ?p" by simp
  define y where "y = x + (?p - 1)"
  have y: "y = align_up k x + y mod ?p" unfolding align_up_def y_def by (metis div_mult_mod_eq)
  have m: "y mod ?p < ?p" using p by (rule mod_less_divisor)
  show "x \<le> align_up k x" "align_up k x < x + ?p" using y m p unfolding y_def by linarith+
  show d: "?p dvd align_up k x" by (simp add: align_up_def)
  assume r: "?p dvd r" "x \<le> r"
  show "align_up k x \<le> r"
  proof (rule ccontr)
    assume "\<not> align_up k x \<le> r"
    then have "?p \<le> align_up k x - r" using r(1) d by (intro dvd_imp_le dvd_diff_nat) auto
    then show False using y m r(2) unfolding y_def by linarith
  qed
qed

lemma align_mask_nat:
  assumes "k < 64" and "unat x + 2 ^ k \<le> 2 ^ 64"
  shows "unat (ALIGN_MASK x (2 ^ k - 1)) = align_up k (unat x)"
  using ALIGN_nat [OF assms] by (simp add: ALIGN_def align_up_def)

lemma next_clear:
  assumes "m p = Some ws" and "unat sz \<le> 64 * length ws"
  obtains Z where "find_next_zero_bit p sz s m = Some Z" and "unat Z \<le> unat sz" and "unat Z < unat sz \<Longrightarrow> unat s \<le> unat Z"
    and "\<And>r. unat s \<le> r \<Longrightarrow> r < unat sz \<Longrightarrow> \<not> bm ws r \<Longrightarrow> unat Z \<le> r"
proof (cases "s < sz")
  case True
  then obtain Z where "find_next_zero_bit p sz s m = Some Z" "is_next (\<lambda>i. \<not> bm ws i) (unat sz) (unat s) (unat Z)"
    using clear_bits.next_bit [of m p ws sz s] assms by blast
  then show thesis using that [of Z] unfolding is_next_def by (meson not_le)
next
  case False
  then show thesis using that [of sz] clear_bits.next_end [of sz s p m] by (simp add: word_less_nat_alt word_le_nat_alt)
qed

lemma find_area:
  assumes ws: "m p = Some ws" and le: "unat sz \<le> 64 * length ws" and A: "A = bitset m p (unat sz)"
    and k: "k < 64" and nr: "0 < unat nr" and room: "unat sz + 2 ^ k + unat nr \<le> 2 ^ 64"
  shows "\<exists>r. bitmap_find_next_zero_area p sz s nr (2 ^ k - 1) m = Some r \<and> area_found A (unat sz) k (unat nr) (unat s) (unat r)"
proof (induction "unat sz - unat s" arbitrary: s rule: less_induct)
  case less
  let ?n = "unat sz" and ?free = "free_area A (unat sz) k (unat nr)"
  obtain Z where Z: "find_next_zero_bit p sz s m = Some Z" "unat Z \<le> ?n" "unat Z < ?n \<Longrightarrow> unat s \<le> unat Z"
      "\<And>r. unat s \<le> r \<Longrightarrow> r < ?n \<Longrightarrow> \<not> bm ws r \<Longrightarrow> unat Z \<le> r" using next_clear [OF _ le] ws by metis
  define x where "x = ALIGN_MASK Z (2 ^ k - 1)"
  define e where "e = x + ucast nr"
  have x: "unat x = align_up k (unat Z)" unfolding x_def using room Z(2) by (intro align_mask_nat k) linarith
  have xe: "unat x + unat nr < 2 ^ 64" using x align_up_props(3) [of k "unat Z"] Z(2) room by linarith
  have nr': "unat (ucast nr :: u64) = unat nr"
    using unat_bound [of nr] by (simp add: unsigned_ucast_eq take_bit_nat_eq_self)
  have e: "unat e = unat x + unat nr" unfolding e_def using xe nr' by (simp add: unat_add_lem [THEN iffD1])
  have skip: "\<not> ?free q" if "unat s \<le> q" "q < unat x" for q
  proof
    assume f: "?free q"
    then have "q < ?n" "\<not> bm ws q" using nr ws by (auto simp: free_area_def A bitset_def)
    then have "unat Z \<le> q" using Z(4) that(1) by blast
    then have "unat x \<le> q" using f align_up_props(4) [of k q] x by (simp add: free_area_def)
    then show False using that(2) by simp
  qed
  note code = bitmap_find_next_zero_area.simps [of p sz s nr "2 ^ k - 1" m]
  show ?case
  proof (cases "?n < unat e")
    case True
    have "\<not> ?free q" if "unat s \<le> q" for q
      using skip [OF that] True e by (cases "q < unat x") (auto simp: free_area_def)
    then have "area_found A ?n k (unat nr) (unat s) (unat e)" using True by (simp add: area_found_def)
    then show ?thesis using Z(1) True unfolding code by (simp add: Let_def word_less_nat_alt x_def [symmetric] e_def [symmetric])
  next
    case False
    have xn: "unat x < ?n" "unat s \<le> unat x" using False e nr x Z(3) align_up_props(1) [of "unat Z" k] by linarith+
    have "x < e" using e nr by (simp add: word_less_nat_alt)
    then obtain i where i: "find_next_bit p e x m = Some i" "is_next (bm ws) (unat e) (unat x) (unat i)"
      using set_bits.next_bit [of m p ws e x] ws le False by auto
    have c: "bitmap_find_next_zero_area p sz s nr (2 ^ k - 1) m =
        (if i < e then bitmap_find_next_zero_area p sz (i + 1) nr (2 ^ k - 1) m else Some x)"
      using Z(1) i(1) False unfolding code by (simp add: Let_def word_less_nat_alt x_def [symmetric] e_def [symmetric])
    show ?thesis
    proof (cases "unat i < unat e")
      case True
      then have ib: "bm ws (unat i)" "unat x \<le> unat i" "unat i < ?n" using i(2) False by (auto simp: is_next_def)
      have u: "unat (i + 1) = Suc (unat i)" using ib(3) by (rule unat_Suc)
      have "?n - unat (i + 1) < ?n - unat s" using u ib xn by linarith
      then obtain r where r: "bitmap_find_next_zero_area p sz (i + 1) nr (2 ^ k - 1) m = Some r"
          "area_found A ?n k (unat nr) (unat (i + 1)) (unat r)" using less.hyps by blast
      have "\<not> ?free q" if "unat s \<le> q" "q < unat (i + 1)" for q
      proof (cases "q < unat x")
        case False
        then have "unat i \<in> A" "q \<le> unat i" "unat i < q + unat nr" using ib ws that(2) u True e by (auto simp: A bitset_def)
        then show ?thesis by (auto simp: free_area_def)
      qed (rule skip [OF that(1)])
      then have "area_found A ?n k (unat nr) (unat s) (unat r)" using r(2) u ib xn by (intro area_found_later [OF r(2)]) auto
      then show ?thesis using c r(1) True by (simp add: word_less_nat_alt)
    next
      case F: False
      then have "unat i = unat e" using i(2) by (simp add: is_next_def)
      then have "?free (unat x)" using i(2) ws e False x align_up_props(2) [of k "unat Z"] by (auto simp: free_area_def is_next_def A bitset_def)
      then have "area_found A ?n k (unat nr) (unat s) (unat x)" using xn skip by (simp add: area_found_def)
      then show ?thesis using c F by (simp add: word_less_nat_alt)
    qed
  qed
qed

definition ex_area :: store where
  "ex_area = [64 \<mapsto> [0x1F, 0]]"

text \<open>
  C25: bitmap_find_next_zero_area ends; when an aligned area of nr clear bits lies at or after the start it returns the
  first one, otherwise a position behind the bitmap. The alignment is a power of two, and the size is small enough for
  the sums not to wrap around.
\<close>

theorem bitmap_find_next_zero_area_first:
  assumes "has_bits m p (unat sz)" and "k < 64" and "0 < unat nr" and "unat sz + 2 ^ k + unat nr \<le> 2 ^ 64"
  shows "\<exists>r. bitmap_find_next_zero_area p sz start nr (2 ^ k - 1) m = Some r \<and>
    (if \<exists>q \<ge> unat start. free_area (bitset m p (unat sz)) (unat sz) k (unat nr) q
     then unat start \<le> unat r \<and> free_area (bitset m p (unat sz)) (unat sz) k (unat nr) (unat r) \<and>
       (\<forall>q. unat start \<le> q \<and> q < unat r \<longrightarrow> \<not> free_area (bitset m p (unat sz)) (unat sz) k (unat nr) q)
     else unat sz < unat r)"
proof -
  obtain ws where ws: "m p = Some ws" "unat sz \<le> 64 * length ws" using assms(1) by (rule has_bitsE)
  obtain r where r: "bitmap_find_next_zero_area p sz start nr (2 ^ k - 1) m = Some r"
      "area_found (bitset m p (unat sz)) (unat sz) k (unat nr) (unat start) (unat r)"
    using find_area [OF _ ws(2) refl assms(2-4), of m p start] ws(1) by blast
  show ?thesis
  proof (cases "unat r \<le> unat sz")
    case True
    then show ?thesis using r unfolding area_found_def by auto
  next
    case False
    then show ?thesis using r unfolding area_found_def by (auto simp: not_le)
  qed
qed

lemma ex_area_free: "free_area (bitset ex_area 64 128) 128 3 4 8"
proof -
  have "i \<notin> bitset ex_area 64 128" if "8 \<le> i" "i < 12" for i
  proof -
    have "i = 8 \<or> i = 9 \<or> i = 10 \<or> i = 11" using that by arith
    then show ?thesis by (auto simp: bitset_def ex_area_def bm_def)
  qed
  then show ?thesis by (simp add: free_area_def)
qed

theorem bitmap_find_next_zero_area_first_witness:
  "\<exists>r. bitmap_find_next_zero_area 64 128 3 4 7 ex_area = Some r \<and> free_area (bitset ex_area 64 128) 128 3 4 (unat r)"
proof -
  have "\<exists>q \<ge> 3. free_area (bitset ex_area 64 128) 128 3 4 q" using ex_area_free by (intro exI [of _ 8]) simp
  moreover have "has_bits ex_area 64 128" by (simp add: ex_area_def has_bits_def)
  ultimately show ?thesis using bitmap_find_next_zero_area_first [of ex_area 64 128 3 4 3] by auto
qed

end
