(* ===== verification/Bitmap_Map_Props.thy ===== *)
theory Bitmap_Map_Props
  imports Bitmap_Bits Bitmap_Map Bitmap_Weight
begin

text \<open>
  Ordinals and positions of set bits, and the maps between bitmaps, against their description on sets of bits.
\<close>

section \<open>Ordinals\<close>

text \<open>The number of elements below a position, and the element with a number.\<close>

definition ordinal :: "nat set \<Rightarrow> nat \<Rightarrow> nat" where
  "ordinal A b = card {i \<in> A. i < b}"

definition nth_bit :: "nat set \<Rightarrow> nat \<Rightarrow> nat" where
  "nth_bit A k = sorted_list_of_set A ! k"

lemma filter_below_card: "length (filter P [0..<b]) = card {i. P i \<and> i < b}"
proof -
  have "set (filter P [0..<b]) = {i. P i \<and> i < b}" by auto
  then show ?thesis using distinct_card [of "filter P [0..<b]"] by simp
qed

lemma ordinal_less: "finite A \<Longrightarrow> b \<in> A \<Longrightarrow> ordinal A b < card A"
  unfolding ordinal_def by (intro psubset_card_mono) auto

lemma elems_split:
  assumes "b \<in> bitset m p n" and "m p = Some ws"
  shows "filter (bm ws) [0..<n] = filter (bm ws) [0..<b] @ b # filter (bm ws) [Suc b..<n]" and "length (filter (bm ws) [0..<b]) = ordinal (bitset m p n) b"
proof -
  have b: "b < n" "bm ws b" using assms by (auto simp: bitset_def)
  then have "[0..<n] = [0..<b] @ b # [Suc b..<n]" using upt_add_eq_append [of 0 b "n - b"] by (simp add: upt_conv_Cons)
  then show "filter (bm ws) [0..<n] = filter (bm ws) [0..<b] @ b # filter (bm ws) [Suc b..<n]" using b by simp
  have "{i. bm ws i \<and> i < b} = {i \<in> bitset m p n. i < b}" using b assms(2) by (auto simp: bitset_def)
  then show "length (filter (bm ws) [0..<b]) = ordinal (bitset m p n) b" by (simp add: filter_below_card ordinal_def)
qed

lemma ordinal_inverse:
  assumes "finite A"
  shows "b \<in> A \<Longrightarrow> nth_bit A (ordinal A b) = b" and "k < card A \<Longrightarrow> nth_bit A k \<in> A \<and> ordinal A (nth_bit A k) = k"
proof -
  let ?xs = "sorted_list_of_set A"
  have s: "sorted_wrt (<) ?xs" "set ?xs = A" "length ?xs = card A" using assms by simp_all
  have o: "ordinal A (?xs ! k) = k" if "k < card A" for k
  proof -
    have "{i \<in> A. i < ?xs ! k} = set (take k ?xs)"
    proof (intro equalityI subsetI)
      fix x assume "x \<in> {i \<in> A. i < ?xs ! k}"
      then have x: "x \<in> set ?xs" "x < ?xs ! k" using s(2) by simp_all
      then obtain j where j: "j < length ?xs" "x = ?xs ! j" unfolding in_set_conv_nth by blast
      then have "j < k" using s(1,3) that x(2) by (metis linorder_neqE_nat less_asym' sorted_wrt_nth_less)
      then show "x \<in> set (take k ?xs)" using j by (auto simp: in_set_conv_nth)
    next
      fix x assume "x \<in> set (take k ?xs)"
      then obtain j where j: "j < k" "j < length ?xs" "x = ?xs ! j" by (auto simp: in_set_conv_nth)
      then show "x \<in> {i \<in> A. i < ?xs ! k}" using sorted_wrt_nth_less [OF s(1), of j k] that s(2,3) nth_mem by fastforce
    qed
    moreover have "distinct (take k ?xs)" using s(1) by simp
    ultimately show ?thesis using distinct_card [of "take k ?xs"] that s(3) by (simp add: ordinal_def)
  qed
  show "b \<in> A \<Longrightarrow> nth_bit A (ordinal A b) = b" using o s(2,3) unfolding nth_bit_def by (metis in_set_conv_nth)
  show "k < card A \<Longrightarrow> nth_bit A k \<in> A \<and> ordinal A (nth_bit A k) = k" using o s(2,3) nth_mem unfolding nth_bit_def by metis
qed

section \<open>Positions to ordinals and back\<close>

lemma pos_to_ord_count:
  assumes ws: "m p = Some ws" and "n \<le> 64 * length ws" and "n < 2 ^ 31" and "b < n" and "bm ws b"
  shows "is_next (bm ws) n s (unat i) \<Longrightarrow> s \<le> b \<Longrightarrow>
    pos_to_ord_loop p n (int b) i k m = Some (k + int (length (filter (bm ws) [s..<b])))"
proof (induction "b - s" arbitrary: i k s rule: less_induct)
  case less
  have le: "unat i \<le> b" using less.prems assms(4,5) by (auto simp: is_next_def not_le)
  then have nx: "is_next (bm ws) b s (unat i)" using less.prems(1) assms(4) by (auto simp: is_next_def)
  show ?case
  proof (cases "unat i < b")
    case True
    then obtain R where R: "find_next_bit p (of_nat n) (i + 1) m = Some R" "is_next (bm ws) n (Suc (unat i)) (unat R)"
      using next_set_bit [of m p ws n i] ws assms(2-4) by auto
    have "uint i < int b" using True by (simp only: uint_nat of_nat_less_iff)
    moreover have "pos_to_ord_loop p n (int b) R (k + 1) m = Some (k + 1 + int (length (filter (bm ws) [Suc (unat i)..<b])))"
      using True less.prems(1) R(2) by (intro less.hyps) (auto simp: is_next_def)
    ultimately show ?thesis using R(1) True filter_next [OF nx] by (subst pos_to_ord_loop.simps) simp
  next
    case False
    then have "unat i = b" using le by simp
    then have "\<not> uint i < int b" by (simp only: uint_nat of_nat_less_iff)
    then show ?thesis using False filter_next [OF nx] by (subst pos_to_ord_loop.simps) simp
  qed
qed

lemma pos_to_ord_spec:
  assumes h: "has_bits m p n" and "n < 2 ^ 31"
  shows "bitmap_pos_to_ord p pos n m = Some (if 0 \<le> pos \<and> nat pos \<in> bitset m p n then int (ordinal (bitset m p n) (nat pos)) else - 1)"
proof (cases "0 \<le> pos \<and> pos < int n")
  case False
  then have "\<not> (0 \<le> pos \<and> nat pos \<in> bitset m p n)" by (auto simp: bitset_def)
  then show ?thesis using False by (auto simp: bitmap_pos_to_ord_def)
next
  case True
  obtain ws where ws: "m p = Some ws" "n \<le> 64 * length ws" using h by (rule has_bitsE)
  define b where "b = nat pos"
  have b: "pos = int b" "b < n" using True unfolding b_def by (simp, linarith)
  have t: "test_bit (word_of_int pos) p m = Some (b \<in> bitset m p n)" using test_bit_set [OF h b(2) assms(2)] b(1) by simp
  show ?thesis
  proof (cases "b \<in> bitset m p n")
    case bA: True
    then have "bm ws b" using ws(1) by (simp add: bitset_def)
    moreover have un: "unat (of_nat n :: u64) = n" using assms(2) by (simp add: unat_of_nat)
    moreover obtain R where R: "find_first_bit p (of_nat n) m = Some R" "is_next (bm ws) n 0 (unat R)"
      using find_first_bit_spec [of m p ws "of_nat n"] ws un by auto
    ultimately have "pos_to_ord_loop p n (int b) R 0 m = Some (0 + int (length (filter (bm ws) [0..<b])))"
      using ws assms(2) b(2) by (intro pos_to_ord_count) auto
    moreover have "length (filter (bm ws) [0..<b]) = ordinal (bitset m p n) b" using bA ws(1) by (rule elems_split)
    ultimately show ?thesis using t R(1) b bA by (simp add: bitmap_pos_to_ord_def)
  next
    case False
    then show ?thesis using t b by (simp add: bitmap_pos_to_ord_def)
  qed
qed

lemma ord_to_pos_walk:
  assumes "m p = Some ws" and "n \<le> 64 * length ws" and "n < 2 ^ 31"
  shows "is_next (bm ws) n s (unat i) \<Longrightarrow> \<exists>i' k'. ord_to_pos_loop p n i (int k) m = Some (i', k') \<and>
    (if k < length (filter (bm ws) [s..<n]) then k' = 0 \<and> unat i' = filter (bm ws) [s..<n] ! k \<and> unat i' < n else n \<le> unat i')"
proof (induction k arbitrary: s i)
  case 0
  then show ?case using filter_next [OF 0] by (subst ord_to_pos_loop.simps) auto
next
  case (Suc k)
  have u: "uint i < int n \<longleftrightarrow> unat i < n" by (simp only: uint_nat of_nat_less_iff)
  show ?case
  proof (cases "unat i < n")
    case True
    obtain R where R: "find_next_bit p (of_nat n) (i + 1) m = Some R" "is_next (bm ws) n (Suc (unat i)) (unat R)"
      using assms True by (rule next_set_bit)
    have "ord_to_pos_loop p n i (int (Suc k)) m = ord_to_pos_loop p n R (int k) m" using R(1) True u by (subst ord_to_pos_loop.simps) simp
    moreover have "filter (bm ws) [s..<n] = unat i # filter (bm ws) [Suc (unat i)..<n]" using True filter_next [OF Suc.prems] by simp
    ultimately show ?thesis using Suc.IH [OF R(2)] by (simp only: length_Cons nth_Cons_Suc Suc_less_eq)
  next
    case False
    then show ?thesis using u filter_next [OF Suc.prems] by (subst ord_to_pos_loop.simps) simp
  qed
qed

lemma ord_to_pos_spec:
  assumes h: "has_bits m p n" and "n < 2 ^ 31"
  shows "bitmap_ord_to_pos p (int k) n m = Some (if k < card (bitset m p n) then int (nth_bit (bitset m p n) k) else 0)"
proof -
  obtain ws where ws: "m p = Some ws" "n \<le> 64 * length ws" using h by (rule has_bitsE)
  have un: "unat (of_nat n :: u64) = n" using assms(2) by (simp add: unat_of_nat)
  obtain R where R: "find_first_bit p (of_nat n) m = Some R" "is_next (bm ws) n 0 (unat R)"
    using find_first_bit_spec [of m p ws "of_nat n"] ws un by auto
  obtain i' k' where l: "ord_to_pos_loop p n R (int k) m = Some (i', k')"
      "if k < length (filter (bm ws) [0..<n]) then k' = 0 \<and> unat i' = filter (bm ws) [0..<n] ! k \<and> unat i' < n else n \<le> unat i'"
    using ord_to_pos_walk [OF _ ws(2) assms(2) R(2)] ws(1) by blast
  have e: "filter (bm ws) [0..<n] = sorted_list_of_set (bitset m p n)" using elems_filter [of m p ws n] ws(1) by simp
  have u: "uint i' < int n \<longleftrightarrow> unat i' < n" by (simp only: uint_nat of_nat_less_iff)
  have v: "uint i' = int (unat i')" by (rule uint_nat)
  show ?thesis
  proof (cases "k < card (bitset m p n)")
    case True
    then have "unat i' = nth_bit (bitset m p n) k" "k' = 0" "unat i' < n" using l(2) by (simp_all add: e nth_bit_def)
    moreover have "k < n" using True card_bitset [of m p n] by simp
    ultimately show ?thesis using True R(1) l(1) u unfolding bitmap_ord_to_pos_def by (simp add: v del: of_nat_unat)
  next
    case False
    then show ?thesis using R(1) l u by (auto simp: bitmap_ord_to_pos_def e)
  qed
qed

section \<open>Maps of bitmaps\<close>

definition remap_bit :: "nat set \<Rightarrow> nat set \<Rightarrow> nat \<Rightarrow> nat" where
  "remap_bit old new b = (if b \<in> old \<and> new \<noteq> {} then nth_bit new (ordinal old b mod card new) else b)"

lemma remap_bit_below:
  assumes "finite new" and "new \<subseteq> {..<n}" and "b < n"
  shows "remap_bit old new b < n"
proof (cases "new = {}")
  case False
  then have "ordinal old b mod card new < card new" using assms(1) by (simp add: card_gt_0_iff)
  then show ?thesis using ordinal_inverse(2) [OF assms(1)] assms(2,3) by (auto simp: remap_bit_def)
qed (use assms in \<open>simp add: remap_bit_def\<close>)

lemma remap_bit_inverse:
  assumes "finite old" and "finite new" and "card old = card new" and "b \<in> old"
  shows "remap_bit new old (remap_bit old new b) = b"
proof -
  have o: "ordinal old b < card new" using ordinal_less [OF assms(1,4)] assms(3) by simp
  then have "new \<noteq> {}" by auto
  then show ?thesis using o assms(3,4) ordinal_inverse(1) [OF assms(1,4)] ordinal_inverse(2) [OF assms(2) o] by (auto simp: remap_bit_def)
qed

lemma bitremap_code:
  assumes "has_bits m old n" and "has_bits m new n" and "n < 2 ^ 31" and "w = int (card (bitset m new n))" and "0 \<le> b"
  shows "do { k \<leftarrow> bitmap_pos_to_ord old b n m;
      if k < 0 \<or> w = 0 then Some b else bitmap_ord_to_pos new (k mod w) n m } = Some (int (remap_bit (bitset m old n) (bitset m new n) (nat b)))"
proof (cases "nat b \<in> bitset m old n \<and> bitset m new n \<noteq> {}")
  case True
  let ?N = "bitset m new n" and ?k = "ordinal (bitset m old n) (nat b)"
  have c: "0 < card ?N" using True by (simp add: card_gt_0_iff finite_bitset)
  then have "bitmap_ord_to_pos new (int (?k mod card ?N)) n m = Some (int (nth_bit ?N (?k mod card ?N)))"
    using ord_to_pos_spec [OF assms(2,3)] by simp
  then show ?thesis using True c assms(4,5) pos_to_ord_spec [OF assms(1,3)] by (simp add: remap_bit_def zmod_int)
next
  case False
  then show ?thesis using assms(4,5) pos_to_ord_spec [OF assms(1,3), of b] finite_bitset by (auto simp: remap_bit_def)
qed

definition drawn :: "addr \<Rightarrow> nat \<Rightarrow> store \<Rightarrow> nat set \<Rightarrow> store \<Rightarrow> bool" where
  "drawn dst n m0 B m \<longleftrightarrow> has_bits m dst n \<and> bitset m dst n = B \<and> (\<forall>x. x \<noteq> dst \<longrightarrow> m x = m0 x)"

lemma drawn_same: "drawn dst n m0 B m \<Longrightarrow> p \<noteq> dst \<Longrightarrow> has_bits m p n = has_bits m0 p n \<and> bitset m p n = bitset m0 p n"
  by (simp add: drawn_def has_bits_def bitset_def)

lemma drawn_set: "drawn dst n m0 B m \<Longrightarrow> i < n \<Longrightarrow> \<exists>m'. set_bit (int i) dst m = Some m' \<and> drawn dst n m0 (insert i B) m'"
  using set_bit_set [of m dst n i] unfolding drawn_def by metis

lemma drawn_zero: "0 < n \<Longrightarrow> has_bits m dst n \<Longrightarrow> \<exists>m1. bitmap_zero False dst n m = Some m1 \<and> drawn dst n m {} m1"
  using inline_zero [of n m dst False] unfolding drawn_def by metis

lemma uint_bit: "k < n \<Longrightarrow> n < 2 ^ 31 \<Longrightarrow> uint (of_nat k :: u64) = int k"
  by (simp add: uint_nat unat_of_nat)

text \<open>The stores of the routines on the way: the destination holds the bits set so far, and the rest is as at the start.\<close>

lemma remap_code:
  assumes al: "dst \<noteq> src" "dst \<noteq> old" "dst \<noteq> new" and n: "0 < n" "n < 2 ^ 31"
    and h: "has_bits m dst n" "has_bits m src n" "has_bits m old n" "has_bits m new n"
  shows "\<exists>m'. bitmap_remap dst src old new n m = Some m' \<and> drawn dst n m (remap_bit (bitset m old n) (bitset m new n) ` bitset m src n) m'"
proof -
  let ?f = "remap_bit (bitset m old n) (bitset m new n)" and ?S = "bitset m src n" and ?w = "int (card (bitset m new n))"
  obtain m1 where m1: "bitmap_zero False dst n m = Some m1" "drawn dst n m {} m1" using drawn_zero [OF n(1) h(1)] by blast
  have w: "bitmap_weight False new n m1 = Some ?w"
    using inline_weight [of n m1 new False] drawn_same [OF m1(2), of new] al h(4) n by auto
  let ?P = "\<lambda>D st. drawn dst n m (?f ` D) (fst st)"
  let ?body = "\<lambda>(oldbit :: u64) (m :: store, u :: unit). do {
          k \<leftarrow> bitmap_pos_to_ord old (uint oldbit) n m;
          m \<leftarrow> (if k < 0 \<or> ?w = 0 then set_bit (uint oldbit) dst m
                else do { p \<leftarrow> bitmap_ord_to_pos new (k mod ?w) n m; set_bit p dst m });
          Some (m, u) }"
  have "\<exists>st'. for_each_set_bit src (of_nat n) ?body (m1, ()) = Some st' \<and> ?P ?S st'"
  proof (rule for_each_bits [where P = ?P, OF n(2) refl h(2)])
    fix k and st :: "store \<times> unit"
    assume k: "k \<in> ?S" and p: "?P {i \<in> ?S. i < k} st"
    obtain m2 where st: "st = (m2, ())" by (cases st) auto
    have d: "drawn dst n m (?f ` {i \<in> ?S. i < k}) m2" using p st by simp
    have kn: "k < n" using k by (simp add: bitset_def)
    have sm: "has_bits m2 old n" "has_bits m2 new n" "bitset m2 old n = bitset m old n" "bitset m2 new n = bitset m new n"
      using drawn_same [OF d, of old] drawn_same [OF d, of new] al h by auto
    have r: "do { j \<leftarrow> bitmap_pos_to_ord old (int k) n m2;
        if j < 0 \<or> ?w = 0 then Some (int k) else bitmap_ord_to_pos new (j mod ?w) n m2 } = Some (int (?f k))"
      using bitremap_code [OF sm(1,2) n(2), of ?w "int k"] sm(3,4) by simp
    have "?f k < n" using kn by (intro remap_bit_below finite_bitset) (auto simp: bitset_def)
    then obtain m3 where m3: "set_bit (int (?f k)) dst m2 = Some m3" "drawn dst n m (insert (?f k) (?f ` {i \<in> ?S. i < k})) m3"
      using drawn_set [OF d] by blast
    have "?body (of_nat k) st = Some (m3, ())"
      using r m3(1) uint_bit [OF kn n(2)] st pos_to_ord_spec [OF sm(1) n(2), of "int k"] by (auto split: if_splits)
    then show "\<exists>st'. ?body (of_nat k) st = Some st' \<and> ?P (insert k {i \<in> ?S. i < k}) st'" using m3(2) by simp
  qed (use m1(2) al in \<open>auto simp: drawn_def\<close>)
  then show ?thesis using m1(1) w al by (auto simp: bitmap_remap_def)
qed

lemma fold_code:
  assumes al: "dst \<noteq> orig" and n: "0 < n" "n < 2 ^ 31" and sz: "0 < sz" and h: "has_bits m dst n" "has_bits m orig n"
  shows "\<exists>m'. bitmap_fold dst orig sz n m = Some m' \<and> drawn dst n m ((\<lambda>b. b mod sz) ` bitset m orig n) m'"
proof -
  let ?S = "bitset m orig n"
  obtain m1 where m1: "bitmap_zero False dst n m = Some m1" "drawn dst n m {} m1" using drawn_zero [OF n(1) h(1)] by blast
  let ?P = "\<lambda>D st. drawn dst n m ((\<lambda>b. b mod sz) ` D) (fst st)"
  let ?body = "\<lambda>(oldbit :: u64) (m :: store, u :: unit). do { m \<leftarrow> (if sz = 0 then None else set_bit (uint oldbit mod int sz) dst m); Some (m, u) }"
  have "\<exists>st'. for_each_set_bit orig (of_nat n) ?body (m1, ()) = Some st' \<and> ?P ?S st'"
  proof (rule for_each_bits [where P = ?P, OF n(2) refl h(2)])
    fix k and st :: "store \<times> unit"
    assume k: "k \<in> ?S" and p: "?P {i \<in> ?S. i < k} st"
    obtain m2 where st: "st = (m2, ())" by (cases st) auto
    have kn: "k < n" using k by (simp add: bitset_def)
    then have "k mod sz < n" by (meson le_less_trans mod_less_eq_dividend)
    then obtain m3 where m3: "set_bit (int (k mod sz)) dst m2 = Some m3" "drawn dst n m (insert (k mod sz) ((\<lambda>b. b mod sz) ` {i \<in> ?S. i < k})) m3"
      using drawn_set p st by fastforce
    then show "\<exists>st'. ?body (of_nat k) st = Some st' \<and> ?P (insert k {i \<in> ?S. i < k}) st'"
      using uint_bit [OF kn n(2)] sz st by (simp add: zmod_int)
  qed (use m1(2) al in \<open>auto simp: drawn_def\<close>)
  then show ?thesis using m1(1) al by (auto simp: bitmap_fold_def)
qed

lemma onto_code:
  assumes al: "dst \<noteq> orig" "dst \<noteq> relmap" and n: "0 < n" "n < 2 ^ 31"
    and h: "has_bits m dst n" "has_bits m orig n" "has_bits m relmap n"
  shows "\<exists>m'. bitmap_onto dst orig relmap n m = Some m' \<and>
    drawn dst n m {b \<in> bitset m relmap n. ordinal (bitset m relmap n) b \<in> bitset m orig n} m'"
proof -
  let ?R = "bitset m relmap n" and ?O = "bitset m orig n"
  obtain m1 where m1: "bitmap_zero False dst n m = Some m1" "drawn dst n m {} m1" using drawn_zero [OF n(1) h(1)] by blast
  let ?P = "\<lambda>D st. drawn dst n m {b \<in> D. ordinal ?R b \<in> ?O} (fst st) \<and> snd st = (of_nat (card D) :: u32)"
  let ?body = "\<lambda>(b :: u64) (m :: store, k :: u32). do { t \<leftarrow> test_bit k orig m; m \<leftarrow> (if t then set_bit (uint b) dst m else Some m); Some (m, k + 1) }"
  have "\<exists>st'. for_each_set_bit relmap (of_nat n) ?body (m1, 0) = Some st' \<and> ?P ?R st'"
  proof (rule for_each_bits [where P = ?P, OF n(2) refl h(3)])
    fix k and st :: "store \<times> u32"
    assume k: "k \<in> ?R" and p: "?P {i \<in> ?R. i < k} st"
    obtain m2 j where st: "st = (m2, j)" by (cases st)
    let ?D = "{i \<in> ?R. i < k}"
    have kn: "k < n" using k by (simp add: bitset_def)
    have o: "j = of_nat (ordinal ?R k)" "ordinal ?R k < n"
      using p st ordinal_less [OF finite_bitset k] card_bitset [of m relmap n] by (auto simp: ordinal_def)
    have d: "drawn dst n m {b \<in> ?D. ordinal ?R b \<in> ?O} m2" using p st by simp
    have t: "test_bit j orig m2 = Some (ordinal ?R k \<in> ?O)"
      using test_bit_set [of m2 orig n, OF _ o(2) n(2)] drawn_same [OF d, of orig] al h(2) o(1) by simp
    have c: "of_nat (card (insert k ?D)) = j + 1" using o(1) finite_bitset [of m relmap n] by (simp add: ordinal_def)
    show "\<exists>st'. ?body (of_nat k) st = Some st' \<and> ?P (insert k ?D) st'"
    proof (cases "ordinal ?R k \<in> ?O")
      case True
      obtain m3 where m3: "set_bit (int k) dst m2 = Some m3" "drawn dst n m (insert k {b \<in> ?D. ordinal ?R b \<in> ?O}) m3"
        using drawn_set [OF d kn] by blast
      moreover have "insert k {b \<in> ?D. ordinal ?R b \<in> ?O} = {b \<in> insert k ?D. ordinal ?R b \<in> ?O}" using True by auto
      ultimately show ?thesis using t True c uint_bit [OF kn n(2)] st by simp
    next
      case False
      then have "{b \<in> insert k ?D. ordinal ?R b \<in> ?O} = {b \<in> ?D. ordinal ?R b \<in> ?O}" by auto
      then show ?thesis using t False c d st by simp
    qed
  qed (use m1(2) al in \<open>auto simp: drawn_def\<close>)
  then show ?thesis using m1(1) al by (auto simp: bitmap_onto_def)
qed

lemma onto_image:
  assumes "finite R"
  shows "{b \<in> R. ordinal R b \<in> S} = nth_bit R ` {k \<in> S. k < card R}"
proof (intro equalityI subsetI)
  fix b assume "b \<in> {b \<in> R. ordinal R b \<in> S}"
  then show "b \<in> nth_bit R ` {k \<in> S. k < card R}"
    using ordinal_inverse(1) [OF assms, of b] ordinal_less [OF assms, of b] by (intro image_eqI [of _ _ "ordinal R b"]) auto
qed (use ordinal_inverse(2) [OF assms] in auto)

section \<open>The routines\<close>

text \<open>The example of the documentation: the bits 4 to 7 are mapped to the bits 12 to 15.\<close>

definition ex_remap :: store where
  "ex_remap = [0 \<mapsto> [0xA2], 64 \<mapsto> [0xF0], 128 \<mapsto> [0xF000], 192 \<mapsto> [0], 256 \<mapsto> [0]]"

lemma ex_remap_bits: "n \<le> 64 \<Longrightarrow> has_bits ex_remap 0 n" "n \<le> 64 \<Longrightarrow> has_bits ex_remap 64 n" "n \<le> 64 \<Longrightarrow> has_bits ex_remap 128 n"
  "n \<le> 64 \<Longrightarrow> has_bits ex_remap 192 n" "n \<le> 64 \<Longrightarrow> has_bits ex_remap 256 n"
  by (simp_all add: ex_remap_def has_bits_def)

text \<open>
  C26: bitmap_remap, with a destination that is none of the sources, clears the destination and maps every set bit of the
  source: the n-th set bit of old to the set bit of new with number n modulo the weight of new, every other bit, and all
  bits when new is empty, to itself; bitmap_bitremap computes the same map of one bit.
\<close>

theorem bitmap_remap_image:
  assumes "dst \<noteq> src" and "dst \<noteq> old" and "dst \<noteq> new" and "0 < n" and "n < 2 ^ 31"
    and "has_bits m dst n" and "has_bits m src n" and "has_bits m old n" and "has_bits m new n"
  shows "(\<exists>m'. bitmap_remap dst src old new n m = Some m' \<and> has_bits m' dst n \<and>
      bitset m' dst n = remap_bit (bitset m old n) (bitset m new n) ` bitset m src n \<and> (\<forall>x. x \<noteq> dst \<longrightarrow> m' x = m x)) \<and>
    bitmap_bitremap (int b) old new n m = Some (int (remap_bit (bitset m old n) (bitset m new n) b))"
proof
  show "\<exists>m'. bitmap_remap dst src old new n m = Some m' \<and> has_bits m' dst n \<and>
      bitset m' dst n = remap_bit (bitset m old n) (bitset m new n) ` bitset m src n \<and> (\<forall>x. x \<noteq> dst \<longrightarrow> m' x = m x)"
    using remap_code [OF assms] by (simp add: drawn_def)
  show "bitmap_bitremap (int b) old new n m = Some (int (remap_bit (bitset m old n) (bitset m new n) b))"
    using bitremap_code [OF assms(8,9,5) refl, of "int b"] inline_weight [OF assms(4,9), of False] by (simp add: bitmap_bitremap_def)
qed

theorem bitmap_remap_image_witness:
  "\<exists>m'. bitmap_remap 192 0 64 128 16 ex_remap = Some m' \<and>
    bitset m' 192 16 = remap_bit (bitset ex_remap 64 16) (bitset ex_remap 128 16) ` bitset ex_remap 0 16"
  using bitmap_remap_image [of 192 0 64 128 16 ex_remap 5] by (auto simp: ex_remap_bits)

text \<open>
  a map between bitmaps of the same weight is undone by the map with both exchanged, on the subsets of its domain.
\<close>

theorem bitmap_remap_roundtrip:
  assumes "dst \<noteq> src" and "dst \<noteq> old" and "dst \<noteq> new" and "back \<noteq> dst" and "back \<noteq> old" and "back \<noteq> new" and "0 < n" and "n < 2 ^ 31"
    and "has_bits m dst n" and "has_bits m src n" and "has_bits m old n" and "has_bits m new n" and "has_bits m back n"
    and "bitset m src n \<subseteq> bitset m old n" and "card (bitset m old n) = card (bitset m new n)"
  shows "\<exists>m1 m2. bitmap_remap dst src old new n m = Some m1 \<and> bitmap_remap back dst new old n m1 = Some m2 \<and> bitset m2 back n = bitset m src n"
proof -
  let ?O = "bitset m old n" and ?N = "bitset m new n"
  obtain m1 where m1: "bitmap_remap dst src old new n m = Some m1" "drawn dst n m (remap_bit ?O ?N ` bitset m src n) m1"
    using remap_code [OF assms(1-3,7-12)] by blast
  have s: "has_bits m1 old n" "has_bits m1 new n" "has_bits m1 back n" "bitset m1 old n = ?O" "bitset m1 new n = ?N"
    using drawn_same [OF m1(2)] assms by auto
  have d: "has_bits m1 dst n" "bitset m1 dst n = remap_bit ?O ?N ` bitset m src n" using m1(2) by (simp_all add: drawn_def)
  obtain m2 where m2: "bitmap_remap back dst new old n m1 = Some m2" "drawn back n m1 (remap_bit ?N ?O ` bitset m1 dst n) m2"
    using remap_code [OF assms(4,6,5,7,8) s(3) d(1) s(2,1)] s(4,5) by auto
  have "remap_bit ?N ?O (remap_bit ?O ?N b) = b" if "b \<in> bitset m src n" for b
    using remap_bit_inverse [OF finite_bitset finite_bitset assms(15), of b] that assms(14) by blast
  then have "remap_bit ?N ?O ` bitset m1 dst n = bitset m src n" unfolding d(2) image_image by simp
  then show ?thesis using m1(1) m2 by (auto simp: drawn_def)
qed

lemma ex_remap_set: "bitset ex_remap 64 16 = {4, 5, 6, 7}" "bitset ex_remap 128 16 = {12, 13, 14, 15}"
proof -
  have f: "bitset ex_remap p 16 = set (filter (bm (the (ex_remap p))) [0..<16])" for p by (auto simp: bitset_def)
  show "bitset ex_remap 64 16 = {4, 5, 6, 7}" "bitset ex_remap 128 16 = {12, 13, 14, 15}"
    unfolding f by (simp_all add: ex_remap_def bm_def upt_rec) auto
qed

theorem bitmap_remap_roundtrip_witness:
  "\<exists>m1 m2. bitmap_remap 192 64 64 128 16 ex_remap = Some m1 \<and> bitmap_remap 256 192 128 64 16 m1 = Some m2 \<and> bitset m2 256 16 = {4, 5, 6, 7}"
  using bitmap_remap_roundtrip [of 192 64 64 128 256 16 ex_remap] by (simp add: ex_remap_bits ex_remap_set)

text \<open>
  C27: folding a bitmap modulo the weight of relmap and translating the result onto relmap, as the documentation advises,
  gives for every set bit m of the original the set bit of relmap with number m modulo the weight; the result is empty
  only when the original or relmap is.
\<close>

theorem bitmap_fold_onto:
  assumes "tmp \<noteq> orig" and "tmp \<noteq> relmap" and "dst \<noteq> tmp" and "dst \<noteq> relmap" and "0 < n" and "n < 2 ^ 31"
    and "has_bits m tmp n" and "has_bits m dst n" and "has_bits m orig n" and "has_bits m relmap n" and "bitset m relmap n \<noteq> {}"
  shows "\<exists>m1 m2. bitmap_weight False relmap n m = Some (int (card (bitset m relmap n))) \<and>
    bitmap_fold tmp orig (card (bitset m relmap n)) n m = Some m1 \<and>
    bitset m1 tmp n = (\<lambda>b. b mod card (bitset m relmap n)) ` bitset m orig n \<and>
    bitmap_onto dst tmp relmap n m1 = Some m2 \<and>
    bitset m2 dst n = nth_bit (bitset m relmap n) ` bitset m1 tmp n \<and> (bitset m2 dst n = {} \<longleftrightarrow> bitset m orig n = {})"
proof -
  let ?R = "bitset m relmap n"
  have c: "0 < card ?R" using assms(11) by (simp add: card_gt_0_iff finite_bitset)
  obtain m1 where m1: "bitmap_fold tmp orig (card ?R) n m = Some m1" "drawn tmp n m ((\<lambda>b. b mod card ?R) ` bitset m orig n) m1"
    using fold_code [OF assms(1,5,6) c assms(7,9)] by blast
  have s: "has_bits m1 relmap n" "has_bits m1 dst n" "bitset m1 relmap n = ?R" using drawn_same [OF m1(2)] assms by auto
  have t: "has_bits m1 tmp n" "bitset m1 tmp n = (\<lambda>b. b mod card ?R) ` bitset m orig n" using m1(2) by (simp_all add: drawn_def)
  obtain m2 where m2: "bitmap_onto dst tmp relmap n m1 = Some m2" "drawn dst n m1 {b \<in> ?R. ordinal ?R b \<in> bitset m1 tmp n} m2"
    using onto_code [OF assms(3,4,5,6) s(2) t(1) s(1)] s(3) by auto
  have "{k \<in> bitset m1 tmp n. k < card ?R} = bitset m1 tmp n" using c t(2) by auto
  then have "bitset m2 dst n = nth_bit ?R ` bitset m1 tmp n" using m2(2) onto_image [OF finite_bitset, of m relmap n "bitset m1 tmp n"] by (simp add: drawn_def)
  then show ?thesis using m1(1) m2(1) t(2) inline_weight [OF assms(5,10), of False] by simp
qed

theorem bitmap_fold_onto_witness:
  "\<exists>m1 m2. bitmap_fold 192 0 4 16 ex_remap = Some m1 \<and> bitmap_onto 256 192 64 16 m1 = Some m2 \<and>
    bitset m2 256 16 = nth_bit {4, 5, 6, 7} ` bitset m1 192 16"
proof -
  have c: "card (bitset ex_remap 64 16) = 4" by (simp add: ex_remap_set)
  obtain m1 m2 where "bitmap_fold 192 0 4 16 ex_remap = Some m1" "bitmap_onto 256 192 64 16 m1 = Some m2"
      "bitset m2 256 16 = nth_bit (bitset ex_remap 64 16) ` bitset m1 192 16"
    using bitmap_fold_onto [of 192 0 64 256 16 ex_remap] unfolding c by (auto simp: ex_remap_bits ex_remap_set(1))
  then show ?thesis unfolding ex_remap_set(1) by (intro exI conjI)
qed

text \<open>
  bitmap_pos_to_ord gives the number of a set bit and -1 for every other position; bitmap_ord_to_pos is its inverse.
\<close>

theorem bitmap_ord_pos_inverse:
  assumes "has_bits m p n" and "n < 2 ^ 31" and "k < card (bitset m p n)"
  shows "\<exists>b. bitmap_ord_to_pos p (int k) n m = Some (int b) \<and> b \<in> bitset m p n \<and> bitmap_pos_to_ord p (int b) n m = Some (int k) \<and>
    (c \<notin> bitset m p n \<longrightarrow> bitmap_pos_to_ord p (int c) n m = Some (- 1))"
  using ord_to_pos_spec [OF assms(1,2), of k] pos_to_ord_spec [OF assms(1,2)] ordinal_inverse(2) [OF finite_bitset assms(3)] assms(3) by auto

theorem bitmap_ord_pos_inverse_witness:
  "\<exists>b. bitmap_ord_to_pos 64 3 16 ex_remap = Some (int b) \<and> bitmap_pos_to_ord 64 (int b) 16 ex_remap = Some 3"
proof -
  have "3 < card (bitset ex_remap 64 16)" by (simp add: ex_remap_set)
  then show ?thesis using bitmap_ord_pos_inverse [of ex_remap 64 16 3 0] ex_remap_bits(2) [of 16] by (simp, blast)
qed

end
