(* ===== verification/Bitmap_Text.thy ===== *)
theory Bitmap_Text
  imports Bitmap_Map
begin

text \<open>
  The printing and parsing functions of \<^verbatim>\<open>lib/bitmap.c\<close>. A character buffer is the list of its bytes; reading or
  writing past its end is a fault. \<^verbatim>\<open>snprintf\<close>, \<^verbatim>\<open>strtoul\<close> and the character classes are the C library's, in the
  "C" locale, as far as the code uses them. Lengths and sizes are natural numbers; the sizes passed to
  \<^verbatim>\<open>snprintf\<close> are computed at the width of the C expression and wrap around there.
\<close>

section \<open>The C library\<close>

abbreviation NUL :: char where
  "NUL \<equiv> CHR 0x00"

definition code :: "char \<Rightarrow> nat" where
  "code c = of_char c"

definition isdigit :: "char \<Rightarrow> bool" where
  "isdigit c \<longleftrightarrow> 48 \<le> code c \<and> code c \<le> 57"

definition isspace :: "char \<Rightarrow> bool" where
  "isspace c \<longleftrightarrow> code c = 32 \<or> 9 \<le> code c \<and> code c \<le> 13"

definition isxdigit :: "char \<Rightarrow> bool" where
  "isxdigit c \<longleftrightarrow> isdigit c \<or> 65 \<le> code c \<and> code c \<le> 70 \<or> 97 \<le> code c \<and> code c \<le> 102"

definition toupper :: "char \<Rightarrow> nat" where
  "toupper c = (if 97 \<le> code c \<and> code c \<le> 122 then code c - 32 else code c)"

definition digit :: "nat \<Rightarrow> char" where
  "digit d = char_of (if d < 10 then 48 + d else 87 + d)"

text \<open>The digits of a number to a base, most significant first.\<close>

fun digits :: "nat \<Rightarrow> nat \<Rightarrow> string" where
  "digits b n = (if b < 2 \<or> n < b then [digit n] else digits b (n div b) @ [digit (n mod b)])"

declare digits.simps [simp del]

text \<open>\<^verbatim>\<open>%0*lx\<close>: at least the given width, padded with zeros.\<close>

definition hex_padded :: "nat \<Rightarrow> nat \<Rightarrow> string" where
  "hex_padded w n = replicate (w - length (digits 16 n)) (digit 0) @ digits 16 n"

text \<open>
  \<^verbatim>\<open>snprintf\<close> of a formatted text into a buffer at an offset: at most \<open>sz - 1\<close> characters and a terminator are
  written, nothing for size 0; the result is the length of the whole text.
\<close>

definition snprintf :: "nat \<Rightarrow> nat \<Rightarrow> string \<Rightarrow> string \<Rightarrow> (nat \<times> string) option" where
  "snprintf pos sz txt b =
     (let out = take (sz - 1) txt @ [NUL] in
      if sz = 0 then Some (length txt, b)
      else if pos + length out \<le> length b then Some (length txt, take pos b @ out @ drop (pos + length out) b)
      else None)"

text \<open>\<^verbatim>\<open>strtoul\<close> at a decimal digit: the value, at most \<^verbatim>\<open>ULONG_MAX\<close>, and the rest of the string.\<close>

fun dec_value :: "nat \<Rightarrow> string \<Rightarrow> nat" where
  "dec_value v [] = v"
| "dec_value v (c # cs) = dec_value (10 * v + (code c - 48)) cs"

definition strtoul :: "string \<Rightarrow> u64 \<times> string" where
  "strtoul bp = (of_nat (min (dec_value 0 (takeWhile isdigit bp)) (2 ^ 64 - 1)), dropWhile isdigit bp)"

section \<open>Hexadecimal\<close>

definition unhex :: "char \<Rightarrow> u32" where
  "unhex c = of_nat (if isdigit c then code c - 48 else toupper c - 65 + 10)"

function snprintf_loop ::
  "u32 \<Rightarrow> addr \<Rightarrow> store \<Rightarrow> int \<Rightarrow> nat \<Rightarrow> string \<Rightarrow> nat \<Rightarrow> string \<Rightarrow> (nat \<times> string) option" where
  "snprintf_loop buflen maskp m i chunksz sep len b =
     (if i \<ge> 0 then do {
        let chunkmask = (ucast (push_bit chunksz 1 - 1 :: u64) :: u32);
        w \<leftarrow> aget m maskp (nat i div 64);
        let val = drop_bit (nat i mod 64) w AND ucast chunkmask;
        (k, b) \<leftarrow> snprintf len (unat (buflen - of_nat len)) (sep @ hex_padded ((chunksz + 3) div 4) (unat val)) b;
        snprintf_loop buflen maskp m (i - 32) 32 '','' (len + k) b }
      else Some (len, b))"
  by pat_completeness auto
termination by (relation "measure (\<lambda>(buflen, maskp, m, i, chunksz, sep, len, b). nat (i + 32))") auto

declare snprintf_loop.simps [simp del]

definition bitmap_snprintf :: "string \<Rightarrow> u32 \<Rightarrow> addr \<Rightarrow> nat \<Rightarrow> store \<Rightarrow> (nat \<times> string) option" where
  "bitmap_snprintf buf buflen maskp nmaskbits m =
     (let chunksz = (if nmaskbits mod 32 = 0 then 32 else nmaskbits mod 32)
      in snprintf_loop buflen maskp m (int ((nmaskbits + 31) div 32 * 32) - 32) chunksz '''' 0 buf)"

text \<open>
  The inner loop of \<^verbatim>\<open>__bitmap_parse\<close>: characters are taken until a comma, a terminator or the end; the result is the
  rest of the buffer, the last character, the digits so far and the chunk with its digits.
\<close>

fun chunk_loop ::
  "string \<Rightarrow> nat \<Rightarrow> char \<Rightarrow> nat \<Rightarrow> u32 \<Rightarrow> nat \<Rightarrow> (errno + string \<times> nat \<times> char \<times> nat \<times> u32 \<times> nat) option" where
  "chunk_loop buf 0 c totaldigits chunk ndigits = Some (Inr (buf, 0, c, totaldigits, chunk, ndigits))"
| "chunk_loop [] (Suc buflen) c totaldigits chunk ndigits = None"
| "chunk_loop (x # buf) (Suc buflen) c totaldigits chunk ndigits =
     (if isspace x then chunk_loop buf buflen x totaldigits chunk ndigits
      else if totaldigits \<noteq> 0 \<and> x \<noteq> NUL \<and> isspace c then Some (Inl EINVAL)
      else if x = NUL \<or> x = CHR '','' then Some (Inr (buf, buflen, x, totaldigits, chunk, ndigits))
      else if \<not> isxdigit x then Some (Inl EINVAL)
      else if (ucast chunk :: u64) AND NOT (push_bit 28 1 - 1) \<noteq> 0 then Some (Inl EOVERFLOW)
      else chunk_loop buf buflen x (totaldigits + 1) (push_bit 4 chunk OR unhex x) (ndigits + 1))"

lemma chunk_loop_shorter:
  "chunk_loop buf n c td ch nd = Some (Inr (buf', n', r)) \<Longrightarrow> n' \<noteq> 0 \<Longrightarrow> n' < n"
  by (induction buf n c td ch nd rule: chunk_loop.induct) (auto split: if_splits)

function parse_loop ::
  "addr \<Rightarrow> nat \<Rightarrow> string \<Rightarrow> nat \<Rightarrow> char \<Rightarrow> nat \<Rightarrow> nat \<Rightarrow> int \<Rightarrow> store \<Rightarrow> ((errno + unit) \<times> store) option" where
  "parse_loop maskp nmaskbits buf buflen c totaldigits nchunks nbits m =
     (case chunk_loop buf buflen c totaldigits 0 0 of
        None \<Rightarrow> None
      | Some (Inl e) \<Rightarrow> Some (Inl e, m)
      | Some (Inr (buf', buflen', c', totaldigits', chunk, ndigits)) \<Rightarrow>
          if ndigits = 0 then Some (Inl EINVAL, m)
          else if nchunks = 0 \<and> chunk = 0 then
            (if buflen' \<noteq> 0 \<and> c' = CHR '','' then parse_loop maskp nmaskbits buf' buflen' c' totaldigits' nchunks nbits m
             else Some (Inr (), m))
          else do {
            m \<leftarrow> uu_bitmap_shift_left maskp maskp 32 nmaskbits m;
            w \<leftarrow> aget m maskp 0;
            m \<leftarrow> aset m maskp 0 (w OR ucast chunk);
            let nchunks = nchunks + 1;
            let nbits = nbits + (if nchunks = 1 then fls chunk else 32);
            if nbits > int nmaskbits then Some (Inl EOVERFLOW, m)
            else if buflen' \<noteq> 0 \<and> c' = CHR '','' then parse_loop maskp nmaskbits buf' buflen' c' totaldigits' nchunks nbits m
            else Some (Inr (), m) })"
  by pat_completeness auto
termination
  by (relation "measure (\<lambda>(maskp, nmaskbits, buf, buflen, r). buflen)") (auto dest: chunk_loop_shorter)

declare parse_loop.simps [simp del]

definition uu_bitmap_parse :: "string \<Rightarrow> nat \<Rightarrow> addr \<Rightarrow> nat \<Rightarrow> store \<Rightarrow> ((errno + unit) \<times> store) option" where
  "uu_bitmap_parse buf buflen maskp nmaskbits m = do {
     m \<leftarrow> bitmap_zero False maskp nmaskbits m;
     parse_loop maskp nmaskbits buf buflen NUL 0 0 0 m }"

definition bitmap_parse :: "string \<Rightarrow> nat \<Rightarrow> addr \<Rightarrow> nat \<Rightarrow> store \<Rightarrow> ((errno + unit) \<times> store) option" where
  "bitmap_parse buf buflen maskp nmaskbits m = uu_bitmap_parse buf buflen maskp nmaskbits m"

section \<open>Lists of ranges\<close>

definition bscnl_emit :: "string \<Rightarrow> int \<Rightarrow> nat \<Rightarrow> nat \<Rightarrow> nat \<Rightarrow> (nat \<times> string) option" where
  "bscnl_emit buf buflen rbot rtop len = do {
     let room = (\<lambda>len. unat (word_of_int (buflen - int len) :: u64));
     (len, buf) \<leftarrow> (if len > 0 then do { (k, buf) \<leftarrow> snprintf len (room len) '','' buf; Some (len + k, buf) } else Some (len, buf));
     (k, buf) \<leftarrow> snprintf len (room len)
        (if rbot = rtop then digits 10 rbot else digits 10 rbot @ ''-'' @ digits 10 rtop) buf;
     Some (len + k, buf) }"

partial_function (option) snlist_loop ::
  "int \<Rightarrow> addr \<Rightarrow> nat \<Rightarrow> store \<Rightarrow> u64 \<Rightarrow> u64 \<Rightarrow> nat \<Rightarrow> string \<Rightarrow> (nat \<times> string) option" where
  "snlist_loop buflen maskp nmaskbits m cur rbot len buf =
     (if unat cur < nmaskbits then do {
        let rtop = cur;
        cur \<leftarrow> find_next_bit maskp (of_nat nmaskbits) (cur + 1) m;
        if unat cur \<ge> nmaskbits \<or> unat cur > unat rtop + 1 then do {
          (len, buf) \<leftarrow> bscnl_emit buf buflen (unat rbot) (unat rtop) len;
          snlist_loop buflen maskp nmaskbits m cur cur len buf }
        else snlist_loop buflen maskp nmaskbits m cur rbot len buf }
      else Some (len, buf))"

definition bitmap_snlistprintf :: "string \<Rightarrow> u32 \<Rightarrow> addr \<Rightarrow> nat \<Rightarrow> store \<Rightarrow> (nat \<times> string) option" where
  "bitmap_snlistprintf buf buflen maskp nmaskbits m =
     (if buflen = 0 then Some (0, buf)
      else if buf = [] then None
      else do {
        cur \<leftarrow> find_first_bit maskp (of_nat nmaskbits) m;
        snlist_loop (sint buflen) maskp nmaskbits m cur cur 0 (buf[0 := NUL]) })"

text \<open>One number or range of \<^verbatim>\<open>bitmap_parselist\<close>: its bounds, truncated to \<^verbatim>\<open>unsigned\<close>, and the rest.\<close>

definition parse_range :: "string \<Rightarrow> (errno + u32 \<times> u32 \<times> string) option" where
  "parse_range bp = (case bp of [] \<Rightarrow> None | c # _ \<Rightarrow>
     if \<not> isdigit c then Some (Inl EINVAL)
     else let (a, bp) = strtoul bp; a = (ucast a :: u32) in
       case bp of [] \<Rightarrow> None | d # bp' \<Rightarrow>
         if d = CHR ''-'' then
           (case bp' of [] \<Rightarrow> None | c # _ \<Rightarrow>
              if \<not> isdigit c then Some (Inl EINVAL)
              else let (b, bp) = strtoul bp' in Some (Inr (a, ucast b, bp)))
         else Some (Inr (a, a, bp)))"

partial_function (option) parselist_loop :: "addr \<Rightarrow> nat \<Rightarrow> string \<Rightarrow> store \<Rightarrow> ((errno + unit) \<times> store) option" where
  "parselist_loop maskp nmaskbits bp m = do {
     r \<leftarrow> parse_range bp;
     case r of
       Inl e \<Rightarrow> Some (Inl e, m)
     | Inr (a, b, bp) \<Rightarrow>
         if \<not> a \<le> b then Some (Inl EINVAL, m)
         else if b \<ge> of_nat nmaskbits then Some (Inl ERANGE, m)
         else do {
           m \<leftarrow> for_up (unat a) (unat b + 1) (\<lambda>i m. set_bit (int i) maskp m) m;
           bp \<leftarrow> (case bp of [] \<Rightarrow> None | c # rest \<Rightarrow> Some (if c = CHR '','' then rest else bp));
           c \<leftarrow> (case bp of [] \<Rightarrow> None | c # rest \<Rightarrow> Some c);
           if c \<noteq> NUL \<and> c \<noteq> CHR 0x0A then parselist_loop maskp nmaskbits bp m else Some (Inr (), m) } }"

definition bitmap_parselist :: "string \<Rightarrow> addr \<Rightarrow> nat \<Rightarrow> store \<Rightarrow> ((errno + unit) \<times> store) option" where
  "bitmap_parselist bp maskp nmaskbits m = do {
     m \<leftarrow> bitmap_zero False maskp nmaskbits m;
     parselist_loop maskp nmaskbits bp m }"

end
