(* ===== verification/Text_Digits.thy ===== *)
theory Text_Digits
  imports Bitmap_Text Bitmap_Shift
begin

text \<open>
  Digits and numbers: the digit characters, the digits of a number as numbers, and what \<^verbatim>\<open>snprintf\<close> and the chunk
  loop of \<^verbatim>\<open>__bitmap_parse\<close> do with them.
\<close>

section \<open>Digit characters\<close>

lemma code_digit: "d < 16 \<Longrightarrow> code (digit d) = (if d < 10 then 48 + d else 87 + d)"
  by (simp add: code_def digit_def take_bit_nat_eq_self)

lemma digit_class:
  assumes "d < 16"
  shows "isxdigit (digit d)" and "\<not> isspace (digit d)" and "isdigit (digit d) \<longleftrightarrow> d < 10"
  using code_digit [OF assms] assms by (auto simp: isxdigit_def isspace_def isdigit_def split: if_splits)

lemma digit_ne:
  assumes "d < 16"
  shows "digit d \<noteq> NUL" and "digit d \<noteq> CHR '',''" and "digit d \<noteq> CHR ''-''"
proof -
  have "code NUL = 0" "code (CHR '','') = 44" "code (CHR ''-'') = 45" by (simp_all add: code_def)
  then show "digit d \<noteq> NUL" and "digit d \<noteq> CHR '',''" and "digit d \<noteq> CHR ''-''" using code_digit [OF assms] by (auto split: if_splits)
qed

lemma unhex_digit: "d < 16 \<Longrightarrow> unhex (digit d) = of_nat d"
  by (auto simp: unhex_def digit_class code_digit toupper_def)

lemma separators: "isspace (CHR '','') = False" "isspace NUL = False" "isdigit NUL = False" "isdigit (CHR '','') = False" "isdigit (CHR ''-'') = False"
  by (simp_all add: isspace_def isdigit_def code_def)

section \<open>Digits of a number\<close>

fun dlist :: "nat \<Rightarrow> nat \<Rightarrow> nat list" where
  "dlist b n = (if b < 2 \<or> n < b then [n] else dlist b (n div b) @ [n mod b])"

declare dlist.simps [simp del]

definition horner :: "nat \<Rightarrow> nat \<Rightarrow> nat list \<Rightarrow> nat" where
  "horner b v ds = foldl (\<lambda>v d. b * v + d) v ds"

lemma horner_simps [simp]: "horner b v [] = v" "horner b v (d # ds) = horner b (b * v + d) ds"
  "horner b v (ds @ es) = horner b (horner b v ds) es"
  by (simp_all add: horner_def)

lemma digits_dlist: "digits b n = map digit (dlist b n)"
  by (induction b n rule: digits.induct) (subst digits.simps, subst dlist.simps, simp)

lemma dlist_small: "2 \<le> b \<Longrightarrow> d \<in> set (dlist b n) \<Longrightarrow> d < b"
proof (induction b n rule: dlist.induct)
  case (1 b n)
  then show ?case by (subst (asm) (2) dlist.simps) (auto split: if_splits)
qed

lemma dlist_horner: "2 \<le> b \<Longrightarrow> horner b 0 (dlist b n) = n"
proof (induction b n rule: dlist.induct)
  case (1 b n)
  then show ?case by (subst dlist.simps) auto
qed

lemma dlist_nonempty: "dlist b n \<noteq> []"
  by (subst dlist.simps) simp

lemma dlist_length: "2 \<le> b \<Longrightarrow> n < b ^ Suc k \<Longrightarrow> length (dlist b n) \<le> Suc k"
proof (induction k arbitrary: n)
  case 0
  then show ?case by (subst dlist.simps) simp
next
  case (Suc k)
  show ?case
  proof (cases "n < b")
    case True
    then show ?thesis by (subst dlist.simps) simp
  next
    case False
    have "n div b < b ^ Suc k" using Suc.prems by (simp add: less_mult_imp_div_less mult.commute)
    then show ?thesis using Suc False by (subst dlist.simps) simp
  qed
qed

lemma horner_bound: "b > 0 \<Longrightarrow> v \<le> horner b v ds"
proof (induction ds arbitrary: v)
  case (Cons d ds)
  have "v \<le> b * v + d" using Cons.prems by (cases b) auto
  then show ?case using Cons.IH [OF Cons.prems, of "b * v + d"] by simp
qed simp

lemma horner_zeros [simp]: "horner b 0 (replicate k 0) = 0"
  by (induction k) auto

text \<open>The padded digits of a chunk.\<close>

definition hlist :: "nat \<Rightarrow> nat \<Rightarrow> nat list" where
  "hlist w n = replicate (w - length (dlist 16 n)) 0 @ dlist 16 n"

lemma hex_hlist: "hex_padded w n = map digit (hlist w n)"
  by (simp add: hex_padded_def hlist_def digits_dlist)

lemma hlist_props: "horner 16 0 (hlist w n) = n" "d \<in> set (hlist w n) \<Longrightarrow> d < 16" "hlist w n \<noteq> []"
  by (auto simp: hlist_def dlist_horner dlist_nonempty dest: dlist_small [rotated])

section \<open>Reading digits\<close>

lemma dec_value_digits:
  "(\<And>d. d \<in> set ds \<Longrightarrow> d < 10) \<Longrightarrow> dec_value v (map digit ds) = horner 10 v ds"
proof (induction ds arbitrary: v)
  case (Cons d ds)
  have "d < 10" using Cons.prems by simp
  then have "code (digit d) - 48 = d" using code_digit [of d] by simp
  then show ?case using Cons by simp
qed simp

lemma strtoul_digits:
  assumes "n < 2 ^ 64" and "\<not> isdigit c"
  shows "strtoul (digits 10 n @ c # rest) = (of_nat n, c # rest)"
proof -
  have d: "\<And>d. d \<in> set (dlist 10 n) \<Longrightarrow> d < 10" using dlist_small [of 10] by simp
  then have "\<forall>x \<in> set (digits 10 n). isdigit x" using digit_class(3) by (force simp: digits_dlist)
  then have "takeWhile isdigit (digits 10 n @ c # rest) = digits 10 n" "dropWhile isdigit (digits 10 n @ c # rest) = c # rest"
    using assms(2) by (simp_all add: takeWhile_append2 dropWhile_append2)
  moreover have "dec_value 0 (digits 10 n) = n" using dec_value_digits [of "dlist 10 n" 0] d dlist_horner [of 10 n] by (simp add: digits_dlist)
  ultimately show ?thesis using assms(1) by (simp add: strtoul_def min_def)
qed

lemma chunk_room: "unat ch < 2 ^ 28 \<Longrightarrow> (ucast (ch :: u32) :: u64) AND NOT (push_bit 28 1 - 1) = 0"
proof -
  assume "unat ch < 2 ^ 28"
  moreover have "unat (ucast ch :: u64) = unat ch"
    using unat_bound [of ch] by (simp add: unsigned_ucast_eq take_bit_nat_eq_self)
  ultimately have "unat (ucast ch :: u64) < 2 ^ 28" by simp
  then have "unat (ucast ch :: u64) mod 2 ^ 28 = unat (ucast ch :: u64)" by simp
  then have "unat ((ucast ch :: u64) AND NOT (mask 28)) = 0" by (simp only: unat_and_not_mask diff_self_eq_0)
  moreover have "(push_bit 28 1 - 1 :: u64) = mask 28" by (simp add: mask_eq_exp_minus_1 push_bit_eq_mult)
  ultimately show ?thesis by (simp only: unat_eq_0)
qed

lemma chunk_shift:
  assumes "16 * unat ch + d < 2 ^ 32" and "d < 16"
  shows "unat (push_bit 4 ch OR of_nat d :: u32) = 16 * unat ch + d"
proof -
  have "n < 4" if "bit d n" for n
  proof -
    have "take_bit 4 d = d" using assms(2) by (simp add: take_bit_nat_eq_self)
    then show ?thesis using that bit_take_bit_iff [of 4 d n] by simp
  qed
  then have "\<not> (4 \<le> n \<and> bit d n)" for n using leD by blast
  then have "push_bit 4 ch AND of_nat d = (0 :: u32)"
    by (intro bit_word_eqI) (auto simp: bit_and_iff bit_push_bit_iff bit_simps)
  then have "push_bit 4 ch OR of_nat d = push_bit 4 ch + (of_nat d :: u32)" by (simp only: disjunctive_add_eq_or)
  also have "\<dots> = of_nat (16 * unat ch + d)" by (simp add: push_bit_eq_mult mult.commute)
  finally have "unat (push_bit 4 ch OR of_nat d :: u32) = (16 * unat ch + d) mod 2 ^ 32" by (simp only: unat_of_nat) simp
  then show ?thesis using assms(1) by simp
qed

lemma chunk_parse:
  assumes "\<And>d. d \<in> set ds \<Longrightarrow> d < 16" and "horner 16 (unat ch) ds < 2 ^ 32" and "t = NUL \<or> t = CHR '',''" and "\<not> isspace c"
  shows "chunk_loop (map digit ds @ t # rest) (length ds + Suc k) c td ch nd =
    Some (Inr (rest, k, t, td + length ds, of_nat (horner 16 (unat ch) ds), nd + length ds))"
  using assms
proof (induction ds arbitrary: c td ch nd)
  case Nil
  then show ?case using separators by auto
next
  case (Cons d ds)
  have d: "d < 16" using Cons.prems(1) by simp
  have b: "16 * unat ch + d < 2 ^ 32" using Cons.prems(2) horner_bound [of 16 "16 * unat ch + d" ds] by simp
  have u: "unat (push_bit 4 ch OR of_nat d :: u32) = 16 * unat ch + d" using b d by (rule chunk_shift)
  have r: "(ucast ch :: u64) AND NOT (push_bit 28 1 - 1) = 0" using b by (intro chunk_room) simp
  show ?case using Cons.IH [of "push_bit 4 ch OR of_nat d" "digit d" "Suc td" "Suc nd"] Cons.prems d u r
    by (simp add: digit_class digit_ne unhex_digit del: push_bit_numeral)
qed

end
