(* ===== verification/Bitmap_Codec.thy ===== *)
theory Bitmap_Codec
  imports Bitmap_Text Bitmap_Ops
begin

text \<open>
  The contract of a text format of bitmaps, with a printing and a parsing routine: the text is a function of the size and
  the set of bits, the printer writes it, and the parser reads it back. Every format that keeps the contract has the
  round trip, and its text determines the set.
\<close>

locale bitmap_codec =
  fixes fits :: "u32 \<Rightarrow> bool"
    and valid :: "nat \<Rightarrow> nat set \<Rightarrow> bool"
    and text_of :: "nat \<Rightarrow> nat set \<Rightarrow> string"
    and print_op :: "string \<Rightarrow> u32 \<Rightarrow> addr \<Rightarrow> nat \<Rightarrow> store \<Rightarrow> (nat \<times> string) option"
    and parse_op :: "string \<Rightarrow> nat \<Rightarrow> addr \<Rightarrow> nat \<Rightarrow> store \<Rightarrow> ((errno + unit) \<times> store) option"
  assumes prints: "valid n (bitset m p n) \<Longrightarrow> has_bits m p n \<Longrightarrow> length (text_of n (bitset m p n)) < unat buflen \<Longrightarrow> fits buflen \<Longrightarrow>
      unat buflen \<le> length buf \<Longrightarrow>
      print_op buf buflen p n m = Some (length (text_of n (bitset m p n)), text_of n (bitset m p n) @ NUL # drop (Suc (length (text_of n (bitset m p n)))) buf)"
    and parses: "valid n A \<Longrightarrow> A \<subseteq> {..<n} \<Longrightarrow> has_bits m q n \<Longrightarrow> length (text_of n A) < len \<Longrightarrow>
      \<exists>m'. parse_op (text_of n A @ NUL # rest) len q n m = Some (Inr (), m') \<and> has_bits m' q n \<and> bitset m' q n = A \<and> (\<forall>x. x \<noteq> q \<longrightarrow> m' x = m x)"
begin

lemma roundtrip:
  assumes "valid n (bitset m p n)" and "has_bits m p n" and "has_bits m q n"
    and "length (text_of n (bitset m p n)) < unat buflen" and "fits buflen" and "unat buflen \<le> length buf"
  shows "\<exists>buf' m'. print_op buf buflen p n m = Some (length (text_of n (bitset m p n)), buf') \<and>
    buf' = text_of n (bitset m p n) @ NUL # drop (Suc (length (text_of n (bitset m p n)))) buf \<and>
    parse_op buf' (unat buflen) q n m = Some (Inr (), m') \<and>
    has_bits m' q n \<and> bitset m' q n = bitset m p n \<and> (\<forall>x. x \<noteq> q \<longrightarrow> m' x = m x)"
proof -
  have "bitset m p n \<subseteq> {..<n}" by (auto simp: bitset_def)
  then show ?thesis using prints [OF assms(1,2,4-6)] parses [OF assms(1) _ assms(3,4)] by blast
qed

lemma text_determines:
  assumes "valid n A" and "valid n B" and "A \<subseteq> {..<n}" and "B \<subseteq> {..<n}" and "text_of n A = text_of n B"
  shows "A = B"
proof -
  have h: "has_bits [0 \<mapsto> replicate n 0] 0 n" by (simp add: has_bits_def)
  obtain m1 where m1: "parse_op (text_of n A @ NUL # []) (Suc (length (text_of n A))) 0 n [0 \<mapsto> replicate n 0] = Some (Inr (), m1)" "bitset m1 0 n = A"
    using parses [OF assms(1,3) h lessI] by blast
  obtain m2 where m2: "parse_op (text_of n B @ NUL # []) (Suc (length (text_of n B))) 0 n [0 \<mapsto> replicate n 0] = Some (Inr (), m2)" "bitset m2 0 n = B"
    using parses [OF assms(2,4) h lessI] by blast
  have "m1 = m2" using m1(1) m2(1) assms(5) by simp
  then show ?thesis using m1(2) m2(2) by simp
qed

end

end
