(* ===== verification/Bitmap_Hex.thy ===== *)
theory Bitmap_Hex
  imports Text_Digits Bitmap_Inline Bitmap_Codec
begin

text \<open>
  The hexadecimal text of a bitmap: what \<^verbatim>\<open>bitmap_snprintf\<close> writes, and that \<^verbatim>\<open>__bitmap_parse\<close> reads it back.
\<close>

section \<open>The text of a set of bits\<close>

text \<open>The 32 bits of a chunk as a number, the chunks below a given one, each after a comma, and the whole text.\<close>

definition chunk_val :: "nat set \<Rightarrow> nat \<Rightarrow> nat" where
  "chunk_val A j = horner_sum of_bool 2 (map (\<lambda>i. 32 * j + i \<in> A) [0..<32])"

primrec hex_tail :: "nat set \<Rightarrow> nat \<Rightarrow> string" where
  "hex_tail A 0 = []"
| "hex_tail A (Suc j) = CHR '','' # hex_padded 8 (chunk_val A j) @ hex_tail A j"

definition chunk_size :: "nat \<Rightarrow> nat" where
  "chunk_size n = (if n mod 32 = 0 then 32 else n mod 32)"

definition hex_text :: "nat \<Rightarrow> nat set \<Rightarrow> string" where
  "hex_text n A = hex_padded ((chunk_size n + 3) div 4) (chunk_val A ((n - 1) div 32)) @ hex_tail A ((n - 1) div 32)"

lemma bit_chunk_val: "bit (chunk_val A j) i \<longleftrightarrow> i < 32 \<and> 32 * j + i \<in> A"
  unfolding chunk_val_def bit_horner_sum_bit_iff by auto

lemma chunk_val_bound: "chunk_val A j < 2 ^ 32"
  using horner_sum_of_bool_2_less [of "map (\<lambda>i. 32 * j + i \<in> A) [0..<32]", where 'a = nat] by (simp add: chunk_val_def)

lemma bit_chunk_word: "bit (of_nat (chunk_val A j) :: u32) i \<longleftrightarrow> i < 32 \<and> 32 * j + i \<in> A"
  by (auto simp: bit_simps bit_chunk_val)

lemma chunk_index: "i < 32 \<Longrightarrow> (32 * j + i) div 64 = 32 * j div 64 \<and> (32 * j + i) mod 64 = 32 * j mod 64 + i" for i j :: nat
proof -
  assume i: "i < 32"
  define q r where "q = j div 2" and "r = 32 * (j mod 2)"
  have "32 * j = 64 * q + r" using mult_div_mod_eq [of 2 j] unfolding q_def r_def by linarith
  moreover have "r + i < 64" using i by (auto simp: r_def mod_2_eq_odd)
  moreover have "64 * q + r + i = (r + i) + q * 64" by simp
  ultimately show ?thesis by (simp only: div_mult_self1 mod_mult_self1 div_less mod_less) simp
qed

lemma last_chunk:
  assumes "0 < n"
  shows "n = 32 * ((n - 1) div 32) + chunk_size n" and "0 < chunk_size n" and "chunk_size n \<le> 32"
proof -
  define q r where "q = (n - 1) div 32" and "r = (n - 1) mod 32"
  have r: "r < 32" by (simp add: r_def)
  have n: "n = 32 * q + Suc r" using assms by (simp add: q_def r_def)
  have "chunk_size n = Suc r" using r unfolding n chunk_size_def by (cases "Suc r = 32") auto
  then show "n = 32 * ((n - 1) div 32) + chunk_size n" and "0 < chunk_size n" and "chunk_size n \<le> 32"
    using n r unfolding q_def [symmetric] by linarith+
qed

section \<open>Printing\<close>

lemma snprintf_fits:
  assumes "length x < sz" and "length x \<le> length r"
  shows "snprintf (length t) sz x (t @ c # r) = Some (length x, t @ x @ NUL # drop (length x) r)"
  using assms by (simp add: snprintf_def Let_def)

lemma room_left: "len \<le> unat buflen \<Longrightarrow> unat (buflen - of_nat len) = unat buflen - len" for buflen :: u32
  by (metis unat_of_nat_le unat_sub word_le_nat_alt)

lemma printed_chunk:
  assumes "m p = Some ws" and "\<And>i. i < 32 \<Longrightarrow> i < sz \<longleftrightarrow> 32 * j + i < n" and "sz \<le> 32"
  shows "unat (drop_bit (32 * j mod 64) (ws ! (32 * j div 64)) AND ucast (ucast (push_bit sz 1 - 1 :: u64) :: u32)) = chunk_val (bitset m p n) j"
proof (rule bit_eqI)
  fix i
  have s: "bit (ucast (ucast (push_bit sz 1 - 1 :: u64) :: u32) :: u64) i \<longleftrightarrow> i < sz"
    using assms(3) by (auto simp: left_mask [unfolded push_bit_of_1] push_bit_of_1 bit_unsigned_iff bit_mask_iff)
  show "bit (unat (drop_bit (32 * j mod 64) (ws ! (32 * j div 64)) AND ucast (ucast (push_bit sz 1 - 1 :: u64) :: u32))) i
      \<longleftrightarrow> bit (chunk_val (bitset m p n) j) i"
    using chunk_index [of i j] assms s by (auto simp: bit_chunk_val bitset_words bit_unsigned_iff bit_and_iff bit_drop_bit_eq)
qed

lemma snprintf_step:
  assumes "m p = Some ws" and "32 * j div 64 < length ws" and "\<And>i. i < 32 \<Longrightarrow> i < sz \<longleftrightarrow> 32 * j + i < n" and "sz \<le> 32"
    and x: "x = sep @ hex_padded ((sz + 3) div 4) (chunk_val (bitset m p n) j)"
    and "length t + length x < unat buflen" and "length x \<le> length r"
  shows "snprintf_loop buflen p m (32 * int j) sz sep (length t) (t @ c # r) =
    snprintf_loop buflen p m (32 * int j - 32) 32 '','' (length (t @ x)) ((t @ x) @ NUL # drop (length x) r)"
proof -
  have i: "nat (32 * int j) = 32 * j" by simp
  have "snprintf (length t) (unat (buflen - of_nat (length t))) x (t @ c # r) = Some (length x, t @ x @ NUL # drop (length x) r)"
    using assms by (intro snprintf_fits) (simp_all add: room_left)
  then show ?thesis
    using assms(2) printed_chunk [of m p ws sz j n] assms(1,3,4) unfolding x
    by (subst snprintf_loop.simps) (simp add: aget_def assms(1) i Let_def)
qed

lemma snprintf_tail:
  assumes "m p = Some ws" and "n \<le> 64 * length ws" and "32 * j \<le> n"
    and "length t + length (hex_tail (bitset m p n) j) < unat buflen" and "length (hex_tail (bitset m p n) j) \<le> length r"
  shows "snprintf_loop buflen p m (32 * int j - 32) 32 '','' (length t) (t @ NUL # r) =
    Some (length (t @ hex_tail (bitset m p n) j), (t @ hex_tail (bitset m p n) j) @ NUL # drop (length (hex_tail (bitset m p n) j)) r)"
  using assms
proof (induction j arbitrary: t r)
  case 0
  then show ?case by (subst snprintf_loop.simps) simp
next
  case (Suc j)
  define x where "x = '','' @ hex_padded ((32 + 3) div 4) (chunk_val (bitset m p n) j)"
  have h: "hex_tail (bitset m p n) (Suc j) = x @ hex_tail (bitset m p n) j" by (simp add: x_def)
  have e: "32 * int (Suc j) - 32 = 32 * int j" by simp
  have "snprintf_loop buflen p m (32 * int j) 32 '','' (length t) (t @ NUL # r) =
      snprintf_loop buflen p m (32 * int j - 32) 32 '','' (length (t @ x)) ((t @ x) @ NUL # drop (length x) r)"
    using Suc.prems unfolding h by (intro snprintf_step [OF _ _ _ _ x_def]) auto
  also have "\<dots> = Some (length ((t @ x) @ hex_tail (bitset m p n) j),
      ((t @ x) @ hex_tail (bitset m p n) j) @ NUL # drop (length (hex_tail (bitset m p n) j)) (drop (length x) r))"
    using Suc.prems unfolding h by (intro Suc.IH) auto
  finally show ?case unfolding h e by (simp add: add.commute)
qed

lemma snprintf_start:
  assumes "0 < n"
  shows "bitmap_snprintf buf buflen p n m = snprintf_loop buflen p m (32 * int ((n - 1) div 32)) (chunk_size n) '''' 0 buf"
proof -
  define j where "j = (n - 1) div 32"
  have "n + 31 = 32 * Suc j + (chunk_size n - 1)" using last_chunk [OF assms(1)] unfolding j_def mult_Suc_right by linarith
  moreover have "chunk_size n - 1 < 32" using last_chunk [OF assms(1)] by linarith
  ultimately have "(n + 31) div 32 = Suc j" by simp
  then have "int ((n + 31) div 32 * 32) - 32 = 32 * int j" by simp
  then show ?thesis unfolding bitmap_snprintf_def chunk_size_def Let_def j_def by simp
qed

lemma snprintf_text:
  assumes "0 < n" and "has_bits m p n" and "length (hex_text n (bitset m p n)) < unat buflen" and "unat buflen \<le> length buf"
  shows "bitmap_snprintf buf buflen p n m = Some (length (hex_text n (bitset m p n)),
    hex_text n (bitset m p n) @ NUL # drop (Suc (length (hex_text n (bitset m p n)))) buf)"
proof -
  obtain ws where ws: "m p = Some ws" "n \<le> 64 * length ws" using assms(2) by (rule has_bitsE)
  define j where "j = (n - 1) div 32"
  define A where "A = bitset m p n"
  define x where "x = '''' @ hex_padded ((chunk_size n + 3) div 4) (chunk_val A j)"
  have t: "hex_text n A = x @ hex_tail A j" by (simp add: hex_text_def x_def j_def)
  obtain c r where b: "buf = c # r" using assms(3,4) by (cases buf) auto
  have sz: "i < 32 \<Longrightarrow> i < chunk_size n \<longleftrightarrow> 32 * j + i < n" for i using last_chunk(1) [OF assms(1)] j_def by linarith
  have jn: "32 * j < n" using last_chunk [OF assms(1)] j_def by linarith
  have "bitmap_snprintf buf buflen p n m = snprintf_loop buflen p m (32 * int j) (chunk_size n) '''' (length ('''' :: string)) ('''' @ c # r)"
    using snprintf_start [OF assms(1)] by (simp add: j_def b)
  also have "\<dots> = snprintf_loop buflen p m (32 * int j - 32) 32 '','' (length ('''' @ x)) (('''' @ x) @ NUL # drop (length x) r)"
    using assms(3,4) ws sz jn t b by (intro snprintf_step [OF _ _ _ _ x_def [unfolded A_def]]) (auto simp: A_def chunk_size_def)
  also have "\<dots> = Some (length (('''' @ x) @ hex_tail A j), (('''' @ x) @ hex_tail A j) @ NUL # drop (length (hex_tail A j)) (drop (length x) r))"
    using assms(3,4) ws jn t b unfolding A_def by (intro snprintf_tail) auto
  finally show ?thesis unfolding A_def [symmetric] t b by (simp add: add.commute)
qed

section \<open>Parsing\<close>

text \<open>
  Between two chunks of the text of a set \<open>A\<close>, with the chunks from \<open>j\<close> on already read: the bitmap holds those chunks,
  shifted down, and the number of bits counted so far leaves room for the rest.
\<close>

definition chunks_read :: "nat set \<Rightarrow> store \<Rightarrow> addr \<Rightarrow> nat \<Rightarrow> nat \<Rightarrow> nat \<Rightarrow> int \<Rightarrow> store \<Rightarrow> bool" where
  "chunks_read A m0 p n j nchunks nbits m \<longleftrightarrow> has_bits m p n \<and> bitset m p n = {i. i + 32 * j \<in> A} \<and> (\<forall>x. x \<noteq> p \<longrightarrow> m x = m0 x) \<and>
     (if nchunks = 0 then nbits = 0 \<and> bitset m p n = {} else nbits + 32 * int j \<le> int n)"

lemma or_first_word:
  assumes "0 < n" and "has_bits m p n"
  obtains w m' where "aget m p 0 = Some w" and "aset m p 0 (w OR ucast (ch :: u32)) = Some m'" and "has_bits m' p n"
    and "bitset m' p n = bitset m p n \<union> {i. i < n \<and> bit ch i}" and "\<forall>x. x \<noteq> p \<longrightarrow> m' x = m x"
proof -
  obtain a where a: "m p = Some a" "n \<le> 64 * length a" using assms(2) by (rule has_bitsE)
  have l: "0 < length a" using a(2) assms(1) by (cases a) auto
  let ?a = "a[0 := a ! 0 OR ucast ch]"
  have "bm ?a i \<longleftrightarrow> bm a i \<or> bit ch i" if "i < n" for i
  proof (cases "i < 64")
    case True
    then show ?thesis using l by (auto simp: bm_def bit_or_iff bit_unsigned_iff dest: bit_imp_le_length)
  next
    case False
    then have "\<not> bit ch i" using bit_imp_le_length [of ch i] by auto
    then show ?thesis using False by (auto simp: bm_def nth_list_update)
  qed
  then have "bitset (m(p \<mapsto> ?a)) p n = bitset m p n \<union> {i. i < n \<and> bit ch i}" using a(1) by (auto simp: bitset_def)
  then show thesis using that [of "a ! 0" "m(p \<mapsto> ?a)"] a l by (simp add: aget_def aset_def has_bits_def)
qed

lemma read_chunk:
  assumes "0 < n" and "A \<subseteq> {..<n}" and inv: "chunks_read A m0 p n (Suc j) nchunks nbits m"
    and ch: "ch = of_nat (chunk_val A j)" and nz: "\<not> (nchunks = 0 \<and> ch = 0)"
  obtains m1 w m2 nbits' where "uu_bitmap_shift_left p p 32 n m = Some m1" and "aget m1 p 0 = Some w"
    and "aset m1 p 0 (w OR ucast (ch :: u32)) = Some m2" and "nbits' = nbits + (if nchunks + 1 = 1 then fls ch else 32)"
    and "chunks_read A m0 p n j (nchunks + 1) nbits' m2" and "nbits' \<le> int n"
proof -
  have b: "has_bits m p n" "bitset m p n = {i. i + 32 * Suc j \<in> A}" using inv by (simp_all add: chunks_read_def)
  obtain m1 where m1: "uu_bitmap_shift_left p p 32 n m = Some m1" "has_bits m1 p n"
      "bitset m1 p n = {i. i < n \<and> 32 \<le> i \<and> i - 32 \<in> bitset m p n}" "\<forall>x. x \<noteq> p \<longrightarrow> m1 x = m x"
    using shift_left_set [OF b(1) b(1), of 32] by auto
  obtain w m2 where m2: "aget m1 p 0 = Some w" "aset m1 p 0 (w OR ucast ch) = Some m2" "has_bits m2 p n"
      "bitset m2 p n = bitset m1 p n \<union> {i. i < n \<and> bit ch i}" "\<forall>x. x \<noteq> p \<longrightarrow> m2 x = m1 x"
    using or_first_word [OF assms(1) m1(2), of ch] by blast
  have "i \<in> bitset m2 p n \<longleftrightarrow> i + 32 * j \<in> A" for i
  proof (cases "i < 32")
    case True
    then show ?thesis using assms(2) by (auto simp: m2(4) m1(3) ch bit_chunk_word add.commute)
  next
    case False
    then have "i - 32 + 32 * Suc j = i + 32 * j" by simp
    then show ?thesis using False assms(2) by (auto simp: m2(4) m1(3) b(2) ch bit_chunk_word)
  qed
  then have s: "bitset m2 p n = {i. i + 32 * j \<in> A}" by blast
  let ?nb = "nbits + (if nchunks + 1 = 1 then fls ch else 32)"
  have nb: "?nb + 32 * int j \<le> int n"
  proof (cases "nchunks = 0")
    case True
    then obtain i where "fls ch = int (Suc i)" "bit ch i" using nz fls_last [of ch] by auto
    moreover have "32 * j + i < n" using \<open>bit ch i\<close> assms(2) by (auto simp: ch bit_chunk_word)
    ultimately show ?thesis using True inv by (simp add: chunks_read_def)
  next
    case False
    then show ?thesis using inv by (simp add: chunks_read_def)
  qed
  have "chunks_read A m0 p n j (nchunks + 1) ?nb m2" using m2(3,5) m1(4) s nb inv by (simp add: chunks_read_def)
  then show thesis using that [OF m1(1) m2(1,2) refl] nb by simp
qed

lemma skip_chunk:
  assumes "chunks_read A m0 p n (Suc j) 0 nbits m" and "(of_nat (chunk_val A j) :: u32) = 0"
  shows "chunks_read A m0 p n j 0 nbits m"
proof -
  have "i + 32 * j \<notin> A" for i
  proof (cases "i < 32")
    case True
    then show ?thesis using bit_chunk_word [of A j i] assms(2) by (simp add: add.commute)
  next
    case False
    then have "i + 32 * j = (i - 32) + 32 * Suc j" by simp
    moreover have "(i - 32) + 32 * Suc j \<notin> A" using assms(1) by (auto simp: chunks_read_def)
    ultimately show ?thesis by simp
  qed
  then show ?thesis using assms(1) by (auto simp: chunks_read_def)
qed

lemma hex_chunk:
  assumes "t = NUL \<or> t = CHR '',''" and "\<not> isspace c" and x: "x = hex_padded w (chunk_val A j)"
  shows "\<exists>td' nd. chunk_loop (x @ t # rest) (length x + Suc k) c td 0 0 =
    Some (Inr (rest, k, t, td', of_nat (chunk_val A j), nd)) \<and> nd \<noteq> 0"
proof -
  define ds where "ds = hlist w (chunk_val A j)"
  have ds: "x = map digit ds" "horner 16 0 ds = chunk_val A j" "ds \<noteq> []" "\<And>d. d \<in> set ds \<Longrightarrow> d < 16"
    using hlist_props unfolding x ds_def hex_hlist by blast+
  have "chunk_loop (map digit ds @ t # rest) (length ds + Suc k) c td 0 0 =
      Some (Inr (rest, k, t, td + length ds, of_nat (horner 16 (unat (0 :: u32)) ds), 0 + length ds))"
    using assms(1,2) ds(2,4) chunk_val_bound [of A j] by (intro chunk_parse) simp_all
  then show ?thesis using ds(1-3) by simp
qed

lemma parse_chunks:
  assumes "0 < n" and "A \<subseteq> {..<n}"
  shows "chunks_read A m0 p n (Suc j) nchunks nbits m \<Longrightarrow> \<not> isspace c \<Longrightarrow> x = hex_padded w (chunk_val A j) \<Longrightarrow>
    \<exists>m' nc nb. parse_loop p n (x @ hex_tail A j @ NUL # rest) (length x + length (hex_tail A j) + Suc k) c td nchunks nbits m = Some (Inr (), m') \<and>
      chunks_read A m0 p n 0 nc nb m'"
proof (induction j arbitrary: m c w x td nchunks nbits)
  case 0
  obtain nd td' where c: "chunk_loop (x @ NUL # rest) (length x + Suc k) c td 0 0 = Some (Inr (rest, k, NUL, td', of_nat (chunk_val A 0), nd))" "nd \<noteq> 0"
    using hex_chunk [of NUL c x w A 0 rest k td] 0 by blast
  show ?case
  proof (cases "nchunks = 0 \<and> (of_nat (chunk_val A 0) :: u32) = 0")
    case True
    then show ?thesis using c skip_chunk [of A m0 p n 0 nbits m] 0 by (subst parse_loop.simps) auto
  next
    case False
    show ?thesis
      by (rule read_chunk [OF assms 0(1) refl False], subst parse_loop.simps) (use c False in \<open>auto simp: Let_def\<close>)
  qed
next
  case (Suc j)
  define y where "y = hex_padded 8 (chunk_val A j)"
  obtain nd td' where c: "chunk_loop (x @ CHR '','' # y @ hex_tail A j @ NUL # rest) (length x + Suc (length y + length (hex_tail A j) + Suc k)) c td 0 0 =
      Some (Inr (y @ hex_tail A j @ NUL # rest, length y + length (hex_tail A j) + Suc k, CHR '','', td', of_nat (chunk_val A (Suc j)), nd))" "nd \<noteq> 0"
    using hex_chunk [of "CHR '',''" c x w A "Suc j" "y @ hex_tail A j @ NUL # rest" "length y + length (hex_tail A j) + Suc k" td] Suc.prems by blast
  have t: "x @ hex_tail A (Suc j) @ NUL # rest = x @ CHR '','' # y @ hex_tail A j @ NUL # rest"
      "length x + length (hex_tail A (Suc j)) + Suc k = length x + Suc (length y + length (hex_tail A j) + Suc k)" by (simp_all add: y_def)
  note IH = Suc.IH [OF _ _ y_def, of _ _ _ "CHR '',''" td', unfolded separators, simplified]
  show ?case
  proof (cases "nchunks = 0 \<and> (of_nat (chunk_val A (Suc j)) :: u32) = 0")
    case True
    then show ?thesis using IH [of 0 nbits m] skip_chunk [of A m0 p n "Suc j" nbits m] Suc.prems(1) c
      unfolding t by (subst parse_loop.simps) auto
  next
    case False
    show ?thesis unfolding t
      by (rule read_chunk [OF assms Suc.prems(1) refl False], drule IH, subst parse_loop.simps) (use c False in \<open>auto simp: Let_def\<close>)
  qed
qed

lemma parse_text:
  assumes "0 < n" and "A \<subseteq> {..<n}" and "has_bits m p n"
  shows "\<exists>m'. uu_bitmap_parse (hex_text n A @ NUL # rest) (length (hex_text n A) + Suc k) p n m = Some (Inr (), m') \<and>
    has_bits m' p n \<and> bitset m' p n = A \<and> (\<forall>x. x \<noteq> p \<longrightarrow> m' x = m x)"
proof -
  define j where "j = (n - 1) div 32"
  obtain m1 where m1: "bitmap_zero False p n m = Some m1" "has_bits m1 p n" "bitset m1 p n = {}" "\<forall>x. x \<noteq> p \<longrightarrow> m1 x = m x"
    using inline_zero [OF assms(1,3), of False] by blast
  have "n \<le> 32 * Suc j" using last_chunk [OF assms(1)] unfolding j_def mult_Suc_right by linarith
  then have "i + 32 * Suc j \<notin> A" for i using assms(2) by auto
  then have "chunks_read A m p n (Suc j) 0 0 m1" using m1 by (auto simp: chunks_read_def)
  then obtain m' nc nb where "parse_loop p n (hex_text n A @ NUL # rest) (length (hex_text n A) + Suc k) NUL 0 0 0 m1 = Some (Inr (), m')"
      "chunks_read A m p n 0 nc nb m'"
    using parse_chunks [OF assms(1,2), of m p j 0 0 m1 NUL] separators unfolding hex_text_def j_def by fastforce
  then show ?thesis using m1(1) by (auto simp: uu_bitmap_parse_def chunks_read_def)
qed

interpretation hex: bitmap_codec "\<lambda>_. True" "\<lambda>n _. 0 < n" hex_text bitmap_snprintf bitmap_parse
proof
  fix n len q rest and A :: "nat set" and m :: store
  assume a: "0 < n" "A \<subseteq> {..<n}" "has_bits m q n" and "length (hex_text n A) < len"
  then have "len = length (hex_text n A) + Suc (len - Suc (length (hex_text n A)))" by simp
  then show "\<exists>m'. bitmap_parse (hex_text n A @ NUL # rest) len q n m = Some (Inr (), m') \<and> has_bits m' q n \<and> bitset m' q n = A \<and> (\<forall>x. x \<noteq> q \<longrightarrow> m' x = m x)"
    using parse_text [OF a] unfolding bitmap_parse_def by metis
qed (rule snprintf_text)

end
