(* ===== verification/Bitmap_List.thy ===== *)
theory Bitmap_List
  imports Text_Digits Bitmap_Bits Bitmap_Codec
begin

text \<open>
  The list text of a bitmap: what \<^verbatim>\<open>bitmap_snlistprintf\<close> writes, and that \<^verbatim>\<open>bitmap_parselist\<close> reads it back.
\<close>

section \<open>The text of a list of ranges\<close>

text \<open>The maximal ranges of an increasing list of numbers, the last of which begins at \<open>r\<close> and has reached \<open>t\<close>.\<close>

fun ranges_from :: "nat \<Rightarrow> nat \<Rightarrow> nat list \<Rightarrow> (nat \<times> nat) list" where
  "ranges_from r t [] = [(r, t)]"
| "ranges_from r t (x # xs) = (if x = Suc t then ranges_from r x xs else (r, t) # ranges_from x x xs)"

fun ranges :: "nat list \<Rightarrow> (nat \<times> nat) list" where
  "ranges [] = []"
| "ranges (x # xs) = ranges_from x x xs"

definition range_text :: "nat \<times> nat \<Rightarrow> string" where
  "range_text r = (case r of (a, b) \<Rightarrow> if a = b then digits 10 a else digits 10 a @ ''-'' @ digits 10 b)"

definition add_range :: "string \<Rightarrow> nat \<times> nat \<Rightarrow> string" where
  "add_range t r = (if t = [] then range_text r else t @ '','' @ range_text r)"

definition list_text :: "(nat \<times> nat) list \<Rightarrow> string" where
  "list_text rs = foldl add_range '''' rs"

lemma range_text_nonempty: "range_text r \<noteq> []"
  by (cases r) (simp add: range_text_def digits_dlist dlist_nonempty)

lemma add_range_props: "add_range t r \<noteq> []" "length t \<le> length (add_range t r)"
  by (simp_all add: add_range_def range_text_nonempty)

lemma foldl_add_range: "length t \<le> length (foldl add_range t rs)"
proof (induction rs arbitrary: t)
  case (Cons r rs)
  then show ?case using add_range_props(2) [of t r] le_trans by fastforce
qed simp

lemma foldl_add_range_tail: "t \<noteq> [] \<Longrightarrow> foldl add_range t rs = t @ concat (map (\<lambda>r. CHR '','' # range_text r) rs)"
  by (induction rs arbitrary: t) (simp_all add: add_range_def)

lemma list_text_Cons: "list_text (r # rs) = range_text r @ concat (map (\<lambda>r. CHR '','' # range_text r) rs)"
  using foldl_add_range_tail [OF range_text_nonempty] by (simp add: list_text_def add_range_def)

lemma ranges_from_nonempty: "ranges_from r t xs \<noteq> []"
  by (induction xs arbitrary: r t) simp_all

lemma ranges_from_covers:
  assumes "sorted_wrt (<) (t # xs)" and "r \<le> t"
  shows "(\<Union>(a, b) \<in> set (ranges_from r t xs). {a..b}) = {r..t} \<union> set xs"
  using assms
proof (induction xs arbitrary: r t)
  case (Cons x xs)
  show ?case
  proof (cases "x = Suc t")
    case True
    have "{r..x} = insert x {r..t}" using True Cons.prems(2) by auto
    then show ?thesis using Cons.IH [of x r] Cons.prems True by simp
  next
    case False
    then show ?thesis using Cons.IH [of x x] Cons.prems by auto
  qed
qed simp

lemma ranges_from_bounded:
  assumes "sorted_wrt (<) (t # xs)" and "\<forall>x \<in> set (t # xs). x < n" and "r \<le> t" and "(a, b) \<in> set (ranges_from r t xs)"
  shows "a \<le> b \<and> b < n"
  using assms
proof (induction xs arbitrary: r t)
  case (Cons x xs)
  then show ?case using Cons.IH [of x r] Cons.IH [of x x] by (auto split: if_splits)
qed simp

section \<open>Printing\<close>

lemma emit_text:
  assumes "int (length (add_range t (a, b))) < buflen" and "buflen < 2 ^ 31" and "length (add_range t (a, b)) \<le> length t + length r"
  shows "bscnl_emit (t @ NUL # r) buflen a b (length t) =
    Some (length (add_range t (a, b)), add_range t (a, b) @ NUL # drop (length (add_range t (a, b)) - length t) r)"
proof -
  have room: "unat (word_of_int (buflen - int l) :: u64) = nat buflen - l" if "int l < buflen" for l
  proof -
    have "buflen - int l = int (nat buflen - l)" using that by simp
    moreover have "nat buflen - l < 2 ^ 64" using assms(2) by simp
    ultimately show ?thesis by (simp only: of_int_of_nat_eq unat_of_nat) simp
  qed
  have f: "snprintf (length t) sz x (t @ c # r) = Some (length x, t @ x @ NUL # drop (length x) r)" if "length x < sz" "length x \<le> length r" for t sz x c r
    using that by (simp add: snprintf_def Let_def)
  show ?thesis
  proof (cases "t = []")
    case True
    then show ?thesis using assms room [of 0] f [of "range_text (a, b)" "nat buflen" r "[]" NUL]
      by (simp add: bscnl_emit_def add_range_def range_text_def)
  next
    case False
    have "snprintf (length t) (nat buflen - length t) '','' (t @ NUL # r) = Some (1, (t @ '','') @ NUL # drop 1 r)"
      using f [of "'',''" "nat buflen - length t" r t NUL] assms False range_text_nonempty [of "(a, b)"] by (simp add: add_range_def)
    moreover have "snprintf (length (t @ '','')) (nat buflen - length (t @ '','')) (range_text (a, b)) ((t @ '','') @ NUL # drop 1 r) =
        Some (length (range_text (a, b)), (t @ '','') @ range_text (a, b) @ NUL # drop (length (range_text (a, b))) (drop 1 r))"
      using assms False by (intro f) (auto simp: add_range_def)
    ultimately show ?thesis using assms False room [of "length t"] room [of "Suc (length t)"]
      by (simp add: bscnl_emit_def add_range_def range_text_def)
  qed
qed

lemma snlist_loop_text:
  assumes "m p = Some ws" and "n \<le> 64 * length ws" and "n < 2 ^ 31" and "buflen < 2 ^ 31"
  shows "unat cur < n \<Longrightarrow> T = foldl add_range t (ranges_from (unat rbot) (unat cur) (filter (bm ws) [Suc (unat cur)..<n])) \<Longrightarrow>
    int (length T) < buflen \<Longrightarrow> length T \<le> length t + length r \<Longrightarrow>
    snlist_loop buflen p n m cur rbot (length t) (t @ NUL # r) = Some (length T, T @ NUL # drop (length T - length t) r)"
proof (induction "n - unat cur" arbitrary: cur rbot t r rule: less_induct)
  case less
  obtain R where R: "find_next_bit p (of_nat n) (cur + 1) m = Some R" "is_next (bm ws) n (Suc (unat cur)) (unat R)"
    using assms(1-3) less.prems(1) by (rule next_set_bit)
  note f = filter_next [OF R(2)]
  have lt: "unat R < n \<Longrightarrow> n - unat R < n - unat cur" using R(2) less.prems(1) by (auto simp: is_next_def)
  show ?case
  proof (cases "unat R = Suc (unat cur) \<and> unat R < n")
    case True
    then have "snlist_loop buflen p n m R rbot (length t) (t @ NUL # r) = Some (length T, T @ NUL # drop (length T - length t) r)"
      using less.prems(2-4) f by (intro less.hyps [OF lt]) auto
    then show ?thesis using True less.prems(1) R(1) by (subst snlist_loop.simps) simp
  next
    case False
    let ?t = "add_range t (unat rbot, unat cur)"
    let ?r = "drop (length ?t - length t) r"
    have tl: "T = foldl add_range ?t (if unat R < n then ranges_from (unat R) (unat R) (filter (bm ws) [Suc (unat R)..<n]) else [])"
      using less.prems(2) False f by auto
    have le: "length ?t \<le> length T" "length t \<le> length ?t" using foldl_add_range tl add_range_props by (metis, metis)
    have e: "bscnl_emit (t @ NUL # r) buflen (unat rbot) (unat cur) (length t) = Some (length ?t, ?t @ NUL # ?r)"
      using less.prems le assms(4) by (intro emit_text) linarith+
    have g: "unat R \<ge> n \<or> unat R > unat cur + 1" using False R(2) by (auto simp: is_next_def)
    have d: "drop (length T - length ?t) ?r = drop (length T - length t) r" using le by simp
    show ?thesis
    proof (cases "unat R < n")
      case True
      then have "snlist_loop buflen p n m R R (length ?t) (?t @ NUL # ?r) = Some (length T, T @ NUL # drop (length T - length ?t) ?r)"
        using less.prems(3,4) tl le by (intro less.hyps [OF lt]) auto
      then show ?thesis unfolding d using less.prems(1) R(1) e g by (subst snlist_loop.simps) simp
    next
      case F: False
      then have "snlist_loop buflen p n m R R (length ?t) (?t @ NUL # ?r) = Some (length ?t, ?t @ NUL # ?r)" by (subst snlist_loop.simps) simp
      moreover have "T = ?t" using tl F by simp
      ultimately show ?thesis using less.prems(1) R(1) e g by (subst snlist_loop.simps) simp
    qed
  qed
qed

lemma snlist_text:
  assumes "has_bits m p n" and "n < 2 ^ 31" and T: "T = list_text (ranges (sorted_list_of_set (bitset m p n)))"
    and "length T < unat buflen" and "unat buflen < 2 ^ 31" and "unat buflen \<le> length buf"
  shows "bitmap_snlistprintf buf buflen p n m = Some (length T, T @ NUL # drop (Suc (length T)) buf)"
proof -
  obtain ws where ws: "m p = Some ws" "n \<le> 64 * length ws" using assms(1) by (rule has_bitsE)
  have n: "unat (of_nat n :: u64) = n" using assms(2) by (simp add: unat_of_nat)
  obtain R where R: "find_first_bit p (of_nat n) m = Some R" "is_next (bm ws) n 0 (unat R)"
    using find_first_bit_spec [of m p ws "of_nat n"] ws n by auto
  have "sorted_list_of_set (bitset m p n) = filter (bm ws) [0..<n]" using ws(1) by (rule elems_filter)
  then have xs: "sorted_list_of_set (bitset m p n) = (if unat R < n then unat R # filter (bm ws) [Suc (unat R)..<n] else [])"
    using filter_next [OF R(2)] by simp
  obtain c r where b: "buf = c # r" using assms(4,6) by (cases buf) auto
  have s: "sint buflen = int (unat buflen)"
  proof -
    have "int (unat buflen) < int (2 ^ 31)" using assms(5) by (simp only: of_nat_less_iff)
    then have "uint buflen < 2 ^ 31" by simp
    moreover have "- (2 ^ 31) \<le> uint buflen" by (rule order_trans [OF _ uint_ge_0]) simp
    ultimately show ?thesis by (simp add: sint_uint signed_take_bit_int_eq_self)
  qed
  have "int (unat buflen) < int (2 ^ 31)" "int (length T) < int (unat buflen)" using assms(4,5) by (simp_all only: of_nat_less_iff)
  then have l: "sint buflen < 2 ^ 31" "int (length T) < sint buflen" using s by simp_all
  have z: "buflen \<noteq> 0" using assms(4) by auto
  show ?thesis
  proof (cases "unat R < n")
    case True
    have "snlist_loop (sint buflen) p n m R R (length ('''' :: string)) ('''' @ NUL # r) = Some (length T, T @ NUL # drop (length T - length ('''' :: string)) r)"
    proof (intro snlist_loop_text)
      show "T = foldl add_range '''' (ranges_from (unat R) (unat R) (filter (bm ws) [Suc (unat R)..<n]))"
        using T True xs by (simp add: list_text_def)
    qed (use assms(2,4,6) ws True b l in simp_all)
    then show ?thesis using R(1) z b by (simp add: bitmap_snlistprintf_def)
  next
    case False
    then show ?thesis using R(1) z b T xs by (subst bitmap_snlistprintf_def, simp, subst snlist_loop.simps) (simp add: list_text_def)
  qed
qed

section \<open>Parsing\<close>

lemma set_range:
  assumes "has_bits m p n" and "a \<le> b" and "b < n"
  shows "\<exists>m'. for_up a (b + 1) (\<lambda>i m. set_bit (int i) p m) m = Some m' \<and> has_bits m' p n \<and>
    bitset m' p n = bitset m p n \<union> {a..b} \<and> (\<forall>x. x \<noteq> p \<longrightarrow> m' x = m x)"
proof -
  let ?P = "\<lambda>k m'. has_bits m' p n \<and> bitset m' p n = bitset m p n \<union> {a..<k} \<and> (\<forall>x. x \<noteq> p \<longrightarrow> m' x = m x)"
  have "\<exists>m'. for_up a (b + 1) (\<lambda>i m. set_bit (int i) p m) m = Some m' \<and> ?P (b + 1) m'"
  proof (rule for_up_inv)
    fix k m1 assume k: "a \<le> k" "k < b + 1" "?P k m1"
    have "{a..<Suc k} = insert k {a..<k}" using k(1) by auto
    then show "\<exists>m2. set_bit (int k) p m1 = Some m2 \<and> ?P (Suc k) m2" using set_bit_set [of m1 p n k] k assms(3) by force
  qed (use assms in auto)
  moreover have "{a..<b + 1} = {a..b}" by auto
  ultimately show ?thesis by simp
qed

lemma digits_head: "\<exists>c cs. digits 10 a = c # cs \<and> isdigit c"
proof -
  obtain d ds where d: "dlist 10 a = d # ds" using dlist_nonempty [of 10 a] by (cases "dlist 10 a") auto
  have "d < 10" using dlist_small [of 10 d a] d by simp
  then show ?thesis using d digit_class(3) [of d] by (simp add: digits_dlist)
qed

lemma range_text_head: "\<exists>c cs. range_text r = c # cs \<and> isdigit c"
  using digits_head [of "fst r"] by (cases r) (auto simp: range_text_def)

lemma parse_range_text:
  assumes "a \<le> b" and "b < 2 ^ 31" and "\<not> isdigit c" and "c \<noteq> CHR ''-''"
  shows "parse_range (range_text (a, b) @ c # rest) = Some (Inr (of_nat a, of_nat b, c # rest))"
proof -
  have u: "(ucast (of_nat x :: u64) :: u32) = of_nat x" if "x < 2 ^ 31" for x
    using that by (intro word_of_unat) (simp add: unsigned_ucast_eq unat_of_nat take_bit_nat_eq_self)
  have ab: "a < 2 ^ 31" "a < 2 ^ 64" "b < 2 ^ 64" using assms(1,2) by simp_all
  obtain x xs where x: "digits 10 a = x # xs" "isdigit x" using digits_head by blast
  obtain y ys where y: "digits 10 b = y # ys" "isdigit y" using digits_head by blast
  have ea: "strtoul ((x # xs) @ d # t) = (of_nat a, d # t)" if "\<not> isdigit d" for d t using strtoul_digits [OF ab(2) that] x(1) by simp
  have eb: "strtoul ((y # ys) @ d # t) = (of_nat b, d # t)" if "\<not> isdigit d" for d t using strtoul_digits [OF ab(3) that] y(1) by simp
  show ?thesis
  proof (cases "a = b")
    case True
    then show ?thesis using x ea [OF assms(3)] assms(4) u [OF ab(1)] by (simp add: parse_range_def range_text_def Let_def)
  next
    case False
    then show ?thesis using x y ea [of "CHR ''-''"] eb [OF assms(3)] separators u [OF ab(1)] u [OF assms(2)]
      by (simp add: parse_range_def range_text_def Let_def)
  qed
qed

lemma parselist_ranges:
  assumes "n < 2 ^ 31"
  shows "has_bits m p n \<Longrightarrow> \<forall>(a, b) \<in> set (r # rs). a \<le> b \<and> b < n \<Longrightarrow>
    \<exists>m'. parselist_loop p n (range_text r @ concat (map (\<lambda>r. CHR '','' # range_text r) rs) @ NUL # rest) m = Some (Inr (), m') \<and>
      has_bits m' p n \<and> bitset m' p n = bitset m p n \<union> (\<Union>(a, b) \<in> set (r # rs). {a..b}) \<and> (\<forall>x. x \<noteq> p \<longrightarrow> m' x = m x)"
proof (induction rs arbitrary: r m)
  case Nil
  obtain a b where r: "r = (a, b)" "a \<le> b" "b < n" using Nil.prems(2) by (cases r) auto
  obtain m' where m': "for_up a (b + 1) (\<lambda>i m. set_bit (int i) p m) m = Some m'" "has_bits m' p n"
      "bitset m' p n = bitset m p n \<union> {a..b}" "\<forall>x. x \<noteq> p \<longrightarrow> m' x = m x" using set_range [OF Nil.prems(1) r(2,3)] by blast
  have "parse_range (range_text (a, b) @ NUL # rest) = Some (Inr (of_nat a, of_nat b, NUL # rest))"
    using r assms separators by (intro parse_range_text) simp_all
  moreover have "unat (of_nat a :: u32) = a" "unat (of_nat b :: u32) = b" "unat (of_nat n :: u32) = n" using r assms by (simp_all add: unat_of_nat)
  ultimately show ?case using m' r by (subst parselist_loop.simps) (simp add: word_le_nat_alt)
next
  case (Cons r' rs)
  obtain a b where r: "r = (a, b)" "a \<le> b" "b < n" using Cons.prems(2) by (cases r) auto
  obtain m1 where m1: "for_up a (b + 1) (\<lambda>i m. set_bit (int i) p m) m = Some m1" "has_bits m1 p n"
      "bitset m1 p n = bitset m p n \<union> {a..b}" "\<forall>x. x \<noteq> p \<longrightarrow> m1 x = m x" using set_range [OF Cons.prems(1) r(2,3)] by blast
  let ?t = "range_text r' @ concat (map (\<lambda>r. CHR '','' # range_text r) rs) @ NUL # rest"
  obtain m2 where m2: "parselist_loop p n ?t m1 = Some (Inr (), m2)" "has_bits m2 p n"
      "bitset m2 p n = bitset m1 p n \<union> (\<Union>(a, b) \<in> set (r' # rs). {a..b})" "\<forall>x. x \<noteq> p \<longrightarrow> m2 x = m1 x"
    using Cons.IH [OF m1(2), of r'] Cons.prems(2) by auto
  obtain c cs where c: "?t = c # cs" "isdigit c"
    using range_text_head [of r'] by auto
  have "parse_range (range_text (a, b) @ CHR '','' # ?t) = Some (Inr (of_nat a, of_nat b, CHR '','' # ?t))"
    using r assms separators by (intro parse_range_text) simp_all
  moreover have "unat (of_nat a :: u32) = a" "unat (of_nat b :: u32) = b" "unat (of_nat n :: u32) = n" using r assms by (simp_all add: unat_of_nat)
  moreover have "c \<noteq> NUL" "c \<noteq> CHR 0x0A" using c(2) by (auto simp: isdigit_def code_def)
  ultimately have "parselist_loop p n (range_text r @ CHR '','' # ?t) m = Some (Inr (), m2)"
    using m1(1) m2(1) r c(1) by (subst parselist_loop.simps) (simp add: word_le_nat_alt)
  then show ?case using m1(3,4) m2(2-4) r by auto
qed

lemma parselist_text:
  assumes "0 < n" and "n < 2 ^ 31" and "A \<subseteq> {..<n}" and "A \<noteq> {}" and "has_bits m p n"
  shows "\<exists>m'. bitmap_parselist (list_text (ranges (sorted_list_of_set A)) @ NUL # rest) p n m = Some (Inr (), m') \<and>
    has_bits m' p n \<and> bitset m' p n = A \<and> (\<forall>x. x \<noteq> p \<longrightarrow> m' x = m x)"
proof -
  have fin: "finite A" using assms(3) finite_subset by blast
  obtain x xs where x: "sorted_list_of_set A = x # xs" using assms(4) fin by (cases "sorted_list_of_set A") auto
  have s: "sorted_wrt (<) (x # xs)" "set (x # xs) = A" using fin by (simp_all flip: x)
  obtain r rs where r: "ranges_from x x xs = r # rs" using ranges_from_nonempty by (cases "ranges_from x x xs") auto
  have b: "\<forall>(a, b) \<in> set (r # rs). a \<le> b \<and> b < n"
  proof (clarify)
    fix a b assume "(a, b) \<in> set (r # rs)"
    moreover have "\<forall>x \<in> set (x # xs). x < n" using s(2) assms(3) by blast
    ultimately show "a \<le> b \<and> b < n" using ranges_from_bounded [OF s(1), of n x a b] unfolding r by simp
  qed
  have cov: "(\<Union>(a, b) \<in> set (r # rs). {a..b}) = A" using ranges_from_covers [OF s(1), of x] s(2) by (simp add: r)
  obtain m1 where m1: "bitmap_zero False p n m = Some m1" "has_bits m1 p n" "bitset m1 p n = {}" "\<forall>x. x \<noteq> p \<longrightarrow> m1 x = m x"
    using inline_zero [OF assms(1,5), of False] by blast
  obtain m' where "parselist_loop p n (list_text (r # rs) @ NUL # rest) m1 = Some (Inr (), m')" "has_bits m' p n"
      "bitset m' p n = A" "\<forall>x. x \<noteq> p \<longrightarrow> m' x = m1 x"
    using parselist_ranges [OF assms(2) m1(2) b, of rest] cov m1(3) by (auto simp: list_text_Cons)
  then show ?thesis using m1 r x by (auto simp: bitmap_parselist_def)
qed

interpretation lst: bitmap_codec "\<lambda>buflen. unat buflen < 2 ^ 31" "\<lambda>n A. n < 2 ^ 31 \<and> A \<noteq> {}"
  "\<lambda>_ A. list_text (ranges (sorted_list_of_set A))" bitmap_snlistprintf "\<lambda>bp _. bitmap_parselist bp"
proof
  fix n len q rest and A :: "nat set" and m :: store
  assume a: "n < 2 ^ 31 \<and> A \<noteq> {}" "A \<subseteq> {..<n}" "has_bits m q n"
  then show "\<exists>m'. bitmap_parselist (list_text (ranges (sorted_list_of_set A)) @ NUL # rest) q n m = Some (Inr (), m') \<and>
      has_bits m' q n \<and> bitset m' q n = A \<and> (\<forall>x. x \<noteq> q \<longrightarrow> m' x = m x)"
    by (intro parselist_text) auto
qed (rule snlist_text, auto)

end
