(* ===== verification/Bitmap_Text_Props.thy ===== *)
theory Bitmap_Text_Props
  imports Bitmap_Hex Bitmap_List
begin

text \<open>
  The properties of the printing and parsing functions: round trips of both formats, safety of the parsers on arbitrary
  input, and what the printers do when the buffer is too small.
\<close>

section \<open>Arbitrary input\<close>

lemma chunk_loop_safe:
  assumes "buflen \<le> length buf"
  shows "\<exists>r. chunk_loop buf buflen c td ch nd = Some r \<and>
    (case r of Inl e \<Rightarrow> e = EINVAL \<or> e = EOVERFLOW | Inr (buf', buflen', _) \<Rightarrow> buflen' \<le> length buf')"
  using assms by (induction buf buflen c td ch nd rule: chunk_loop.induct) auto

lemma append_chunk_safe:
  assumes "0 < n" and "has_bits m p n"
  obtains m1 w m2 where "uu_bitmap_shift_left p p 32 n m = Some m1" and "aget m1 p 0 = Some w"
    and "aset m1 p 0 (w OR ucast (ch :: u32)) = Some m2" and "has_bits m2 p n" and "\<forall>x. x \<noteq> p \<longrightarrow> m2 x = m x"
proof -
  have "32 div 64 \<le> BITS_TO_LONGS n" by simp
  then obtain m1 where m1: "uu_bitmap_shift_left p p 32 n m = Some m1" "has_bits m1 p n" "\<forall>x. x \<noteq> p \<longrightarrow> m1 x = m x"
    using shift_left_set [OF assms(2) assms(2), of 32] by blast
  obtain w m2 where m2: "aget m1 p 0 = Some w" "aset m1 p 0 (w OR ucast ch) = Some m2" "has_bits m2 p n" "\<forall>x. x \<noteq> p \<longrightarrow> m2 x = m1 x"
    by (rule or_first_word [OF assms(1) m1(2), of ch])
  show thesis using that [OF m1(1) m2(1,2,3)] m1(3) m2(4) by simp
qed

definition parse_result :: "errno set \<Rightarrow> addr \<Rightarrow> nat \<Rightarrow> store \<Rightarrow> ((errno + unit) \<times> store) option \<Rightarrow> bool" where
  "parse_result es p n m0 res \<longleftrightarrow> (case res of None \<Rightarrow> False | Some (r, m) \<Rightarrow>
     (case r of Inl e \<Rightarrow> e \<in> es | Inr _ \<Rightarrow> True) \<and> has_bits m p n \<and> (\<forall>x. x \<noteq> p \<longrightarrow> m x = m0 x))"

lemma parse_loop_safe:
  assumes "0 < n"
  shows "buflen \<le> length buf \<Longrightarrow> has_bits m p n \<Longrightarrow> (\<forall>x. x \<noteq> p \<longrightarrow> m x = m0 x) \<Longrightarrow>
    parse_result {EINVAL, EOVERFLOW} p n m0 (parse_loop p n buf buflen c td nchunks nbits m)"
proof (induction buflen arbitrary: buf c td nchunks nbits m rule: less_induct)
  case (less buflen)
  obtain r where r: "chunk_loop buf buflen c td 0 0 = Some r"
      "case r of Inl e \<Rightarrow> e = EINVAL \<or> e = EOVERFLOW | Inr (buf', buflen', _) \<Rightarrow> buflen' \<le> length buf'"
    using chunk_loop_safe [OF less.prems(1)] by blast
  show ?case
  proof (cases r)
    case (Inl e)
    then show ?thesis using r less.prems by (subst parse_loop.simps) (auto simp: parse_result_def)
  next
    case (Inr q)
    obtain buf' buflen' c' td' ch nd where q: "q = (buf', buflen', c', td', ch, nd)" by (cases q)
    have l: "buflen' \<le> length buf'" "buflen' \<noteq> 0 \<Longrightarrow> buflen' < buflen"
      using r chunk_loop_shorter [of buf buflen c td 0 0 buf' buflen'] by (simp_all add: Inr q)
    obtain m1 w m2 where m2: "uu_bitmap_shift_left p p 32 n m = Some m1" "aget m1 p 0 = Some w"
        "aset m1 p 0 (w OR ucast ch) = Some m2" "has_bits m2 p n" "\<forall>x. x \<noteq> p \<longrightarrow> m2 x = m x"
      using append_chunk_safe [OF assms less.prems(2), of ch] by blast
    have f: "\<forall>x. x \<noteq> p \<longrightarrow> m2 x = m0 x" using m2(5) less.prems(3) by simp
    note IH = less.IH [OF l(2) l(1)]
    show ?thesis
      by (subst parse_loop.simps) (use r(1) Inr q m2(1-4) f less.prems IH in \<open>simp add: parse_result_def Let_def\<close>)
  qed
qed

text \<open>Of a string that is terminated, every rest left by reading a range is terminated and shorter.\<close>

lemma parse_range_safe:
  assumes "NUL \<in> set bp"
  shows "\<exists>r. parse_range bp = Some r \<and>
    (case r of Inl e \<Rightarrow> e = EINVAL | Inr (_, _, bp') \<Rightarrow> NUL \<in> set bp' \<and> length bp' < length bp)"
proof -
  have d: "NUL \<in> set (dropWhile isdigit xs) \<and> length (dropWhile isdigit xs) \<le> length xs" if "NUL \<in> set xs" for xs
    using that separators(3) by (induction xs) auto
  have s: "NUL \<in> set (dropWhile isdigit xs) \<and> length (dropWhile isdigit xs) < length xs" if "NUL \<in> set xs" "isdigit (hd xs)" for xs
    using that d [of "tl xs"] separators(3) by (cases xs) auto
  show ?thesis
  proof (cases "isdigit (hd bp)")
    case True
    obtain x xs where bp: "bp = x # xs" using assms by (cases bp) auto
    obtain y ys where y: "dropWhile isdigit bp = y # ys" using s [OF assms True] by (cases "dropWhile isdigit bp") auto
    have yl: "NUL \<in> set (y # ys)" "length (y # ys) < length bp" using s [OF assms True] y by auto
    show ?thesis
    proof (cases "y = CHR ''-''")
      case y1: True
      then have n: "NUL \<in> set ys" using yl(1) by auto
      then obtain z zs where z: "ys = z # zs" by (cases ys) auto
      show ?thesis using s [OF n] z y y1 yl True bp by (auto simp: parse_range_def strtoul_def Let_def)
    next
      case False
      then show ?thesis using y yl True bp by (auto simp: parse_range_def strtoul_def Let_def)
    qed
  next
    case False
    then show ?thesis using assms by (cases bp) (auto simp: parse_range_def)
  qed
qed

lemma parselist_loop_safe:
  assumes "n < 2 ^ 31"
  shows "NUL \<in> set bp \<Longrightarrow> has_bits m p n \<Longrightarrow> (\<forall>x. x \<noteq> p \<longrightarrow> m x = m0 x) \<Longrightarrow>
    parse_result {EINVAL, ERANGE} p n m0 (parselist_loop p n bp m)"
proof (induction "length bp" arbitrary: bp m rule: less_induct)
  case less
  obtain r where r: "parse_range bp = Some r"
      "case r of Inl e \<Rightarrow> e = EINVAL | Inr (_, _, bp') \<Rightarrow> NUL \<in> set bp' \<and> length bp' < length bp"
    using parse_range_safe [OF less.prems(1)] by blast
  show ?case
  proof (cases r)
    case (Inl e)
    then show ?thesis using r less.prems by (subst parselist_loop.simps) (auto simp: parse_result_def)
  next
    case (Inr q)
    obtain a b bp' where q: "q = (a, b, bp')" by (cases q)
    have l: "NUL \<in> set bp'" "length bp' < length bp" using r(2) Inr q by auto
    obtain c rest where c: "bp' = c # rest" using l(1) by (cases bp') auto
    have n: "unat (of_nat n :: u32) = n" using assms by (simp add: unat_of_nat)
    show ?thesis
    proof (cases "a \<le> b \<and> b < of_nat n")
      case True
      then have ab: "unat a \<le> unat b" "unat b < n" using n by (simp_all add: word_le_nat_alt word_less_nat_alt)
      obtain m1 where m1: "for_up (unat a) (unat b + 1) (\<lambda>i m. set_bit (int i) p m) m = Some m1" "has_bits m1 p n" "\<forall>x. x \<noteq> p \<longrightarrow> m1 x = m x"
        using set_range [OF less.prems(2) ab] by blast
      have f: "\<forall>x. x \<noteq> p \<longrightarrow> m1 x = m0 x" using m1(3) less.prems(3) by simp
      define bp2 where "bp2 = (if c = CHR '','' then rest else bp')"
      have b2: "NUL \<in> set bp2" "length bp2 < length bp" using l c by (auto simp: bp2_def)
      obtain d rest2 where d: "bp2 = d # rest2" using b2(1) by (cases bp2) auto
      have IH: "parse_result {EINVAL, ERANGE} p n m0 (parselist_loop p n bp2 m1)" using less.hyps [OF b2(2,1) m1(2) f] .
      have "parselist_loop p n bp m = (if d \<noteq> NUL \<and> d \<noteq> CHR 0x0A then parselist_loop p n bp2 m1 else Some (Inr (), m1))"
        using r(1) Inr q True m1(1) c d bp2_def by (subst parselist_loop.simps) (auto simp: not_le split: if_splits)
      then show ?thesis using IH m1(2) f by (simp add: parse_result_def)
    next
      case False
      then show ?thesis using r(1) Inr q less.prems by (subst parselist_loop.simps) (auto simp: parse_result_def not_less)
    qed
  qed
qed

lemma parse_result_some: "parse_result es p n m0 res \<Longrightarrow> \<exists>r m. res = Some (r, m) \<and> (r \<in> Inl ` es \<or> r = Inr ()) \<and> has_bits m p n \<and> (\<forall>x. x \<noteq> p \<longrightarrow> m x = m0 x)"
  by (auto simp: parse_result_def split: option.splits sum.splits)

section \<open>The length of the hexadecimal text\<close>

definition hex_size :: "nat \<Rightarrow> nat" where
  "hex_size n = (chunk_size n + 3) div 4 + 9 * ((n - 1) div 32)"

lemma hex_padded_length: "v < 16 ^ w \<Longrightarrow> 0 < w \<Longrightarrow> length (hex_padded w v) = w"
  using dlist_length [of 16 v "w - 1"] by (simp add: hex_padded_def digits_dlist)

lemma hex_tail_length: "length (hex_tail A j) = 9 * j"
proof (induction j)
  case (Suc j)
  have "length (hex_padded 8 (chunk_val A j)) = 8" using chunk_val_bound [of A j] by (intro hex_padded_length) simp_all
  then show ?case using Suc by simp
qed simp

lemma last_chunk_length:
  assumes "0 < n" and "A \<subseteq> {..<n}"
  shows "length (hex_padded ((chunk_size n + 3) div 4) (chunk_val A ((n - 1) div 32))) = (chunk_size n + 3) div 4"
proof -
  note lc = last_chunk [OF assms(1)]
  let ?v = "chunk_val A ((n - 1) div 32)"
  have "take_bit (chunk_size n) ?v = ?v"
    using assms(2) lc(1) by (intro bit_eqI) (auto simp: bit_take_bit_iff bit_chunk_val)
  then have "?v < 2 ^ chunk_size n" by (metis take_bit_nat_less_exp)
  also have "(2 :: nat) ^ chunk_size n \<le> 2 ^ (4 * ((chunk_size n + 3) div 4))" by (intro power_increasing) auto
  also have "\<dots> = 16 ^ ((chunk_size n + 3) div 4)" by (simp add: power_mult)
  finally show ?thesis using lc(2) by (intro hex_padded_length) auto
qed

lemma hex_text_length: "0 < n \<Longrightarrow> A \<subseteq> {..<n} \<Longrightarrow> length (hex_text n A) = hex_size n"
  unfolding hex_text_def hex_size_def length_append hex_tail_length by (simp only: last_chunk_length)

lemma bitset_below: "bitset m p n \<subseteq> {..<n}"
  by (auto simp: bitset_def)

section \<open>Round trips\<close>

definition ex_texts :: store where
  "ex_texts = [64 \<mapsto> [5, 5], 128 \<mapsto> [0, 0]]"

lemma ex_texts_bits: "n \<le> 128 \<Longrightarrow> has_bits ex_texts 64 n" "n \<le> 128 \<Longrightarrow> has_bits ex_texts 128 n"
  by (simp_all add: ex_texts_def has_bits_def)

text \<open>
  C28: bitmap_snprintf writes exactly nmaskbits bits in hexadecimal, in comma-separated groups of eight digits with the
  leading group cut to the size of the bitmap, terminated, and returns the length of that text, when the buffer has room
  for it; bitmap_parse of the buffer into any bitmap of the same size, the printed one included, succeeds with the same
  set of bits and changes no other array.
\<close>

theorem bitmap_hex_roundtrip:
  assumes "0 < n" and "has_bits m p n" and "has_bits m q n" and "hex_size n < unat buflen" and "unat buflen \<le> length buf"
  shows "\<exists>buf' m'. bitmap_snprintf buf buflen p n m = Some (hex_size n, buf') \<and>
    buf' = hex_text n (bitset m p n) @ NUL # drop (Suc (hex_size n)) buf \<and>
    bitmap_parse buf' (unat buflen) q n m = Some (Inr (), m') \<and>
    has_bits m' q n \<and> bitset m' q n = bitset m p n \<and> (\<forall>x. x \<noteq> q \<longrightarrow> m' x = m x)"
proof -
  have l: "length (hex_text n (bitset m p n)) = hex_size n" using assms(1) bitset_below by (rule hex_text_length)
  show ?thesis using hex.roundtrip [OF assms(1-3), of buflen buf] assms(4,5) unfolding l by simp
qed

theorem bitmap_hex_roundtrip_witness:
  "\<exists>buf' m'. bitmap_snprintf (replicate 24 NUL) 24 64 67 ex_texts = Some (19, buf') \<and>
    bitmap_parse buf' 24 128 67 ex_texts = Some (Inr (), m') \<and> bitset m' 128 67 = bitset ex_texts 64 67"
  using bitmap_hex_roundtrip [of 67 ex_texts 64 128 24 "replicate 24 NUL"] by (auto simp: ex_texts_bits hex_size_def chunk_size_def)

text \<open>
  C29: bitmap_snlistprintf writes the maximal runs of set bits as decimal numbers and ranges separated by commas, and
  returns the length of that text, when the buffer has room for it; bitmap_parselist of the buffer gives the same set of
  bits, for every bitmap that is not empty.
\<close>

theorem bitmap_list_roundtrip:
  assumes "n < 2 ^ 31" and "has_bits m p n" and "has_bits m q n" and "bitset m p n \<noteq> {}"
    and "T = list_text (ranges (sorted_list_of_set (bitset m p n)))"
    and "length T < unat buflen" and "unat buflen < 2 ^ 31" and "unat buflen \<le> length buf"
  shows "\<exists>buf' m'. bitmap_snlistprintf buf buflen p n m = Some (length T, buf') \<and>
    buf' = T @ NUL # drop (Suc (length T)) buf \<and> bitmap_parselist buf' q n m = Some (Inr (), m') \<and>
    has_bits m' q n \<and> bitset m' q n = bitset m p n \<and> (\<forall>x. x \<noteq> q \<longrightarrow> m' x = m x)"
  using lst.roundtrip [of n m p q buflen buf] assms by blast

lemma bitset_filter: "bitset m p n = set (filter (bm (the (m p))) [0..<n])"
  by (auto simp: bitset_def)

lemma ex_texts_set: "bitset ex_texts 64 5 = {0, 2}" "bitset ex_texts 128 5 = {}"
  by (simp_all add: bitset_filter ex_texts_def bm_def upt_rec) auto

lemma digits_ex: "digits 10 0 = ''0''" "digits 10 2 = ''2''"
  by code_simp+

lemma ex_texts_list: "list_text (ranges (sorted_list_of_set (bitset ex_texts 64 5))) = ''0,2''"
  unfolding ex_texts_set by (simp add: list_text_def add_range_def range_text_def digits_ex)

theorem bitmap_list_roundtrip_witness:
  "\<exists>buf' m'. bitmap_snlistprintf (replicate 8 NUL) 8 64 5 ex_texts = Some (3, buf') \<and>
    bitmap_parselist buf' 128 5 ex_texts = Some (Inr (), m') \<and> bitset m' 128 5 = bitset ex_texts 64 5"
proof -
  have "length ''0,2'' = 3" by simp
  then show ?thesis
    using bitmap_list_roundtrip [of 5 ex_texts 64 128 "''0,2''" 8 "replicate 8 NUL"]
    unfolding ex_texts_list by (simp add: ex_texts_bits ex_texts_set) blast
qed

text \<open>
  the list text of the empty bitmap is the empty string, which bitmap_parselist rejects: the output of
  bitmap_snlistprintf is not always accepted as its input.
\<close>

theorem bitmap_list_empty_rejected:
  assumes "0 < n" and "n < 2 ^ 31" and "has_bits m p n" and "bitset m p n = {}" and "0 < unat buflen" and "unat buflen < 2 ^ 31" and "unat buflen \<le> length buf"
  shows "\<exists>buf' m'. bitmap_snlistprintf buf buflen p n m = Some (0, buf') \<and> bitmap_parselist buf' p n m = Some (Inl EINVAL, m')"
proof -
  have "bitmap_snlistprintf buf buflen p n m = Some (0, NUL # drop 1 buf)"
    using snlist_text [OF assms(3,2) refl, of buflen buf] assms(4-7) by (simp add: list_text_def)
  moreover obtain m1 where "bitmap_zero False p n m = Some m1" using inline_zero [OF assms(1,3), of False] by blast
  moreover have "parse_range (NUL # drop 1 buf) = Some (Inl EINVAL)" using separators by (simp add: parse_range_def)
  ultimately show ?thesis by (auto simp: bitmap_parselist_def parselist_loop.simps)
qed

theorem bitmap_list_empty_rejected_witness:
  "\<exists>buf' m'. bitmap_snlistprintf (replicate 8 NUL) 8 128 5 ex_texts = Some (0, buf') \<and> bitmap_parselist buf' 128 5 ex_texts = Some (Inl EINVAL, m')"
  using bitmap_list_empty_rejected [of 5 ex_texts 128 8 "replicate 8 NUL"]
  by (simp add: ex_texts_bits ex_texts_set)

text \<open>
  C31: on arbitrary input of the stated length, or terminated for the list format, the parsers return: with success, with
  EINVAL, with EOVERFLOW for bitmap_parse or with ERANGE for bitmap_parselist; they read only the buffer and write only
  the words of the destination.
\<close>

theorem bitmap_parse_safe:
  assumes "0 < n" and "n < 2 ^ 31" and "has_bits m p n" and "buflen \<le> length buf" and "NUL \<in> set bp"
  shows "(\<exists>r m'. bitmap_parse buf buflen p n m = Some (r, m') \<and> (r \<in> Inl ` {EINVAL, EOVERFLOW} \<or> r = Inr ()) \<and>
      has_bits m' p n \<and> (\<forall>x. x \<noteq> p \<longrightarrow> m' x = m x)) \<and>
    (\<exists>r m'. bitmap_parselist bp p n m = Some (r, m') \<and> (r \<in> Inl ` {EINVAL, ERANGE} \<or> r = Inr ()) \<and>
      has_bits m' p n \<and> (\<forall>x. x \<noteq> p \<longrightarrow> m' x = m x))"
proof -
  obtain m1 where m1: "bitmap_zero False p n m = Some m1" "has_bits m1 p n" "\<forall>x. x \<noteq> p \<longrightarrow> m1 x = m x"
    using inline_zero [OF assms(1,3), of False] by blast
  have "parse_result {EINVAL, EOVERFLOW} p n m (bitmap_parse buf buflen p n m)"
    using parse_loop_safe [OF assms(1,4) m1(2,3)] m1(1) by (simp add: bitmap_parse_def uu_bitmap_parse_def)
  moreover have "parse_result {EINVAL, ERANGE} p n m (bitmap_parselist bp p n m)"
    using parselist_loop_safe [OF assms(2,5) m1(2,3)] m1(1) by (simp add: bitmap_parselist_def)
  ultimately show ?thesis using parse_result_some by blast
qed

theorem bitmap_parse_safe_witness:
  "\<exists>r m'. bitmap_parse ''1,,5'' 4 128 67 ex_texts = Some (r, m') \<and> has_bits m' 128 67"
  using bitmap_parse_safe [of 67 ex_texts 128 4 "''1,,5''" "[NUL]"] by (auto simp: ex_texts_bits)

text \<open>
  each text format determines the bitmap: two sets of bits with the same text are the same.
\<close>

theorem bitmap_texts_determine:
  assumes "0 < n" and "n < 2 ^ 31" and "A \<subseteq> {..<n}" and "B \<subseteq> {..<n}"
  shows "(hex_text n A = hex_text n B \<longleftrightarrow> A = B) \<and>
    (A \<noteq> {} \<longrightarrow> B \<noteq> {} \<longrightarrow> list_text (ranges (sorted_list_of_set A)) = list_text (ranges (sorted_list_of_set B)) \<longrightarrow> A = B)"
  using hex.text_determines [of n A B] lst.text_determines [of n A B] assms by blast

theorem bitmap_texts_determine_witness: "hex_text 8 {1} \<noteq> hex_text 8 {2}"
  using bitmap_texts_determine [of 8 "{1}" "{2}"] by simp

section \<open>Buffers that are too small\<close>

text \<open>
  when the leading group alone does not fit the buffer and another group follows, the remaining size is computed as a
  negative number that wraps around to a huge one, and bitmap_snprintf writes behind the end of the buffer.
\<close>

theorem bitmap_snprintf_overflow:
  assumes "32 < n" and "has_bits m p n" and "unat buflen < (chunk_size n + 3) div 4" and "length buf = unat buflen"
  shows "bitmap_snprintf buf buflen p n m = None"
proof -
  obtain ws where ws: "m p = Some ws" "n \<le> 64 * length ws" using assms(2) by (rule has_bitsE)
  define j where "j = (n - 1) div 32"
  define w where "w = (chunk_size n + 3) div 4"
  define x where "x = hex_padded w (chunk_val (bitset m p n) j)"
  define b1 where "b1 = (if buflen = 0 then buf else take (unat buflen - 1) x @ [NUL])"
  have n: "n = 32 * j + chunk_size n" "chunk_size n \<le> 32" "0 < j" using last_chunk [of n] assms(1) unfolding j_def by auto
  have lx: "length x = w" using last_chunk_length [of n "bitset m p n"] assms(1) bitset_below unfolding x_def w_def j_def by simp
  have w: "unat buflen < w" using assms(3) by (simp add: w_def)
  then have "w \<le> 8" "buflen \<noteq> of_nat w" using n(2) unat_of_nat [of w, where 'a = 32] by (auto simp: w_def)
  then have "unat (buflen - of_nat w) \<noteq> 0" by (simp add: unat_eq_0)
  then have s2: "snprintf w (unat (buflen - of_nat w)) y b1 = None" for y
    using w assms(4) lx by (auto simp: snprintf_def b1_def Let_def)
  have s1: "snprintf 0 (unat buflen) x buf = Some (w, b1)"
  proof (cases "buflen = 0")
    case False
    then have "0 < unat buflen" by (metis neq0_conv unat_eq_0)
    then show ?thesis using False w assms(4) lx by (simp add: snprintf_def b1_def Let_def)
  qed (use lx in \<open>simp add: snprintf_def b1_def\<close>)
  have "j div 2 < length ws" "(j - 1) div 2 < length ws" using n last_chunk(2) [of n] assms(1) ws(2) by auto
  then have g: "aget m p (32 * j div 64) = Some (ws ! (32 * j div 64))" "aget m p (nat (32 * int j - 32) div 64) = Some (ws ! (nat (32 * int j - 32) div 64))"
    using ws(1) n(3) by (auto simp: aget_def)
  have v: "unat (drop_bit (32 * j mod 64) (ws ! (32 * j div 64)) AND ucast (ucast (push_bit (chunk_size n) 1 - 1 :: u64) :: u32)) = chunk_val (bitset m p n) j"
    using n by (intro printed_chunk ws(1)) auto
  have e: "nat (32 * int j) = 32 * j" by simp
  have "bitmap_snprintf buf buflen p n m = snprintf_loop buflen p m (32 * int j) (chunk_size n) '''' 0 buf"
    using snprintf_start [of n] assms(1) by (simp add: j_def)
  also have "\<dots> = snprintf_loop buflen p m (32 * int j - 32) 32 '','' w b1"
    using s1 g(1) v by (subst snprintf_loop.simps) (simp add: e Let_def x_def w_def)
  also have "\<dots> = None" using s2 g(2) n(3) by (subst snprintf_loop.simps) (simp add: Let_def)
  finally show ?thesis .
qed

theorem bitmap_snprintf_overflow_witness:
  "bitmap_snprintf (replicate 4 NUL) 4 64 64 ex_texts = None"
  by (rule bitmap_snprintf_overflow) (simp_all add: ex_texts_bits chunk_size_def)

end
