(* ===== verification/Log2.thy ===== *)
theory Log2
  imports Bit_Search
begin

text \<open>
  \<^verbatim>\<open>include/log2.h\<close> at the type \<^verbatim>\<open>unsigned long\<close>. The flag \<open>cst\<close> is \<^verbatim>\<open>__builtin_constant_p(n)\<close>: constants go
  through the chain of ternaries, other arguments through \<^verbatim>\<open>fls64\<close>. The undefined function
  \<^verbatim>\<open>____ilog2_NaN\<close> and a shift by the width of the word or more are \<^const>\<open>None\<close>.
\<close>

section \<open>Definitions\<close>

definition shift_one :: "nat \<Rightarrow> u64 option" where
  "shift_one k = (if k < 64 then Some (push_bit k 1) else None)"

definition uu_ilog2_u32 :: "u32 \<Rightarrow> int" where
  "uu_ilog2_u32 n = fls n - 1"

definition uu_ilog2_u64 :: "u64 \<Rightarrow> int" where
  "uu_ilog2_u64 n = fls64 n - 1"

definition is_power_of_2 :: "u64 \<Rightarrow> bool" where
  "is_power_of_2 n \<longleftrightarrow> n \<noteq> 0 \<and> n AND (n - 1) = 0"

definition uu_roundup_pow_of_two :: "u64 \<Rightarrow> u64 option" where
  "uu_roundup_pow_of_two n = shift_one (unat (fls_long (n - 1)))"

definition uu_rounddown_pow_of_two :: "u64 \<Rightarrow> u64 option" where
  "uu_rounddown_pow_of_two n = shift_one (unat (fls_long n - 1))"

text \<open>The chain \<^verbatim>\<open>(n) & (1ULL << 63) ? 63 : (n) & (1ULL << 62) ? 62 : ...\<close>, from bit \<open>k - 1\<close> down.\<close>

fun ilog2_chain :: "nat \<Rightarrow> u64 \<Rightarrow> int option" where
  "ilog2_chain 0 n = None"
| "ilog2_chain (Suc k) n = (if n AND push_bit k 1 \<noteq> 0 then Some (int k) else ilog2_chain k n)"

definition ilog2 :: "bool \<Rightarrow> u64 \<Rightarrow> int option" where
  "ilog2 cst n = (if cst then (if n < 1 then None else ilog2_chain 64 n) else Some (uu_ilog2_u64 n))"

definition roundup_pow_of_two :: "bool \<Rightarrow> u64 \<Rightarrow> u64 option" where
  "roundup_pow_of_two cst n =
     (if cst then (if n = 1 then Some 1 else do { l \<leftarrow> ilog2 True (n - 1); shift_one (nat (l + 1)) })
      else uu_roundup_pow_of_two n)"

definition rounddown_pow_of_two :: "bool \<Rightarrow> u64 \<Rightarrow> u64 option" where
  "rounddown_pow_of_two cst n =
     (if cst then (if n = 1 then Some 0 else do { l \<leftarrow> ilog2 True n; shift_one (nat l) })
      else uu_rounddown_pow_of_two n)"

definition order_base_2 :: "bool \<Rightarrow> u64 \<Rightarrow> int option" where
  "order_base_2 cst n = do { r \<leftarrow> roundup_pow_of_two cst n; ilog2 cst r }"

section \<open>The chain finds the last set bit\<close>

lemma chain_last:
  assumes "\<forall>i \<ge> k. \<not> bit n i" and "n \<noteq> 0"
  obtains j where "ilog2_chain k n = Some (int j)" and "bit n j" and "\<forall>i > j. \<not> bit n i"
  using assms
proof (induction k arbitrary: thesis)
  case 0
  then show ?case by (simp add: word_neq0_bit)
next
  case (Suc k)
  show ?case
  proof (cases "bit n k")
    case True
    then have "n AND push_bit k 1 \<noteq> 0" by (auto simp: word_neq0_bit bit_and_iff dest: bit_imp_le_length)
    then show ?thesis using Suc.prems(1) [of k] Suc.prems(2) True by (simp add: Suc_le_eq)
  next
    case False
    then have "n AND push_bit k 1 = 0" by (auto intro!: bit_word_eqI simp: bit_and_iff bit_push_bit_iff)
    moreover have "\<forall>i \<ge> k. \<not> bit n i" using False Suc.prems(2) by (metis Suc_leI le_neq_implies_less)
    ultimately show ?thesis by (metis Suc.IH Suc.prems(1,3) ilog2_chain.simps(2))
  qed
qed

lemma last_bit_bounds:
  fixes n :: u64
  assumes "bit n j" and "\<forall>i > j. \<not> bit n i"
  shows "2 ^ j \<le> unat n" and "unat n < 2 ^ Suc j"
proof -
  have j: "j < 64" using bit_imp_le_length [OF assms(1)] by simp
  have "bit (unat n) j" using assms(1) j by (simp add: bit_unsigned_iff)
  then show "2 ^ j \<le> unat n"
    by (metis bit_iff_odd div_less even_zero not_le)
  have "take_bit (Suc j) (unat n) = unat n"
    by (rule bit_eqI) (use assms(2) in \<open>auto simp: bit_take_bit_iff bit_unsigned_iff not_less_eq [symmetric]\<close>)
  then show "unat n < 2 ^ Suc j" by (metis take_bit_nat_less_exp)
qed

lemma ilog2_const:
  assumes "n \<noteq> 0"
  obtains j where "ilog2 True n = Some (int j)" and "j < 64" and "2 ^ j \<le> unat n" and "unat n < 2 ^ Suc j"
    and "bit n j" and "\<forall>i > j. \<not> bit n i"
proof -
  have "\<forall>i \<ge> 64. \<not> bit n i" by (auto dest: bit_imp_le_length)
  with assms obtain j where j: "ilog2_chain 64 n = Some (int j)" "bit n j" "\<forall>i > j. \<not> bit n i"
    using chain_last by blast
  have "ilog2 True n = Some (int j)" unfolding ilog2_def using assms j(1) by (simp add: word_less_1)
  then show ?thesis using that [of j] j last_bit_bounds [OF j(2,3)] bit_imp_le_length [OF j(2)] by simp
qed

section \<open>Powers of two\<close>

lemma top_bit_set:
  fixes n :: u64
  assumes "2 ^ j \<le> unat n" and "unat n < 2 ^ Suc j" and "j < 64"
  shows "bit n j"
proof -
  have "unat n div 2 ^ j = 1" by (rule div_nat_eqI) (use assms in simp_all)
  then have "bit (unat n) j" by (simp add: bit_iff_odd)
  then show ?thesis by (simp add: bit_unsigned_iff)
qed

lemma unat_two_power:
  assumes "k < 64"
  shows "unat (2 ^ k :: u64) = 2 ^ k"
proof -
  have "(2 :: nat) ^ k < 2 ^ 64" using assms by (rule power_strict_increasing) simp
  then have "unat (of_nat (2 ^ k) :: u64) = 2 ^ k" by (subst unat_of_nat) simp
  then show ?thesis by simp
qed

lemma power_of_2_iff: "is_power_of_2 n \<longleftrightarrow> (\<exists>k < 64. n = 2 ^ k)"
proof
  assume p: "is_power_of_2 n"
  then have "n \<noteq> 0" by (simp add: is_power_of_2_def)
  then obtain j where j: "j < 64" "2 ^ j \<le> unat n" "unat n < 2 ^ Suc j" "bit n j" using ilog2_const by metis
  have "n = 2 ^ j"
  proof (rule ccontr)
    assume "n \<noteq> 2 ^ j"
    then have "unat n \<noteq> 2 ^ j" by (metis j(1) unat_two_power unsigned_word_eqI)
    moreover have "unat (n - 1) = unat n - 1" using \<open>n \<noteq> 0\<close> by (rule unat_minus_one)
    ultimately have "bit (n - 1) j" using j by (intro top_bit_set) auto
    then have "bit (n AND (n - 1)) j" using j(4) by (simp add: bit_and_iff)
    then show False using p by (simp add: is_power_of_2_def)
  qed
  then show "\<exists>k < 64. n = 2 ^ k" using j(1) by blast
next
  assume "\<exists>k < 64. n = 2 ^ k"
  then obtain k where k: "k < 64" "n = 2 ^ k" by blast
  have "n AND (n - 1) = 0" unfolding k(2)
    by (rule bit_word_eqI) (auto simp: bit_and_iff mask_eq_exp_minus_1 [symmetric] bit_mask_iff bit_exp_iff)
  moreover have "n \<noteq> 0" using k by (metis unat_two_power unat_0 power_not_zero zero_neq_numeral)
  ultimately show "is_power_of_2 n" by (simp add: is_power_of_2_def)
qed

section \<open>Properties\<close>

text \<open>
  C39: for constants, ilog2 is the position of the last set bit, roundup_pow_of_two the least
  power of two that is not smaller (where one fits), rounddown_pow_of_two the greatest that is not
  greater, except that it is 0 for 1; is_power_of_2 is exact.
\<close>

theorem log2_constant:
  assumes "n \<noteq> 0"
  shows "(\<exists>j. ilog2 True n = Some (int j) \<and> 2 ^ j \<le> unat n \<and> unat n < 2 ^ Suc j) \<and>
    (unat n \<le> 2 ^ 63 \<longrightarrow> (\<exists>k. roundup_pow_of_two True n = Some (2 ^ k) \<and> k < 64 \<and> unat n \<le> 2 ^ k \<and> 2 ^ k < 2 * unat n)) \<and>
    (n \<noteq> 1 \<longrightarrow> (\<exists>k. rounddown_pow_of_two True n = Some (2 ^ k) \<and> k < 64 \<and> 2 ^ k \<le> unat n \<and> unat n < 2 * 2 ^ k)) \<and>
    rounddown_pow_of_two True 1 = Some 0 \<and> (is_power_of_2 n \<longleftrightarrow> (\<exists>k < 64. n = 2 ^ k))"
proof (intro conjI impI)
  obtain j where j: "ilog2 True n = Some (int j)" "j < 64" "2 ^ j \<le> unat n" "unat n < 2 ^ Suc j"
    using assms by (rule ilog2_const)
  then show "\<exists>j. ilog2 True n = Some (int j) \<and> 2 ^ j \<le> unat n \<and> unat n < 2 ^ Suc j" by blast
  show "\<exists>k. rounddown_pow_of_two True n = Some (2 ^ k) \<and> k < 64 \<and> 2 ^ k \<le> unat n \<and> unat n < 2 * 2 ^ k" if "n \<noteq> 1"
    using j that by (intro exI [of _ j]) (simp add: rounddown_pow_of_two_def shift_one_def)
  show "\<exists>k. roundup_pow_of_two True n = Some (2 ^ k) \<and> k < 64 \<and> unat n \<le> 2 ^ k \<and> 2 ^ k < 2 * unat n"
    if le: "unat n \<le> 2 ^ 63"
  proof (cases "n = 1")
    case True
    then show ?thesis by (intro exI [of _ 0]) (simp add: roundup_pow_of_two_def)
  next
    case False
    then have "n - 1 \<noteq> 0" by simp
    then obtain i where i: "ilog2 True (n - 1) = Some (int i)" "2 ^ i \<le> unat (n - 1)" "unat (n - 1) < 2 ^ Suc i"
      using ilog2_const by metis
    have m: "unat (n - 1) = unat n - 1" using assms by (rule unat_minus_one)
    have "(2 :: nat) ^ i < 2 ^ 63" using i(2) m le assms by (metis diff_less le_less_trans less_le_trans unat_gt_0 zero_less_one)
    then have lt: "Suc i < 64" using power_less_imp_less_exp [of 2 i 63] by simp
    then have "roundup_pow_of_two True n = Some (2 ^ Suc i)" using False i(1)
      by (simp add: roundup_pow_of_two_def shift_one_def nat_add_distrib)
    moreover have "unat n \<le> 2 ^ Suc i" "2 ^ Suc i < 2 * unat n" using i(2,3) m by auto
    ultimately show ?thesis using lt by blast
  qed
  show "rounddown_pow_of_two True 1 = Some 0" by (simp add: rounddown_pow_of_two_def)
  show "is_power_of_2 n \<longleftrightarrow> (\<exists>k < 64. n = 2 ^ k)" by (rule power_of_2_iff)
qed

theorem log2_constant_witness:
  "\<exists>k. roundup_pow_of_two True 100 = Some (2 ^ k) \<and> k < 64 \<and> 100 \<le> (2 :: nat) ^ k \<and> (2 :: nat) ^ k < 200"
  using log2_constant [of 100] by simp

text \<open>
  for run-time values ilog2 goes through fls64 and gives the FIRST set bit: it agrees with
  the constant evaluation of the same macro exactly on the powers of two.
\<close>

theorem ilog2_runtime_agrees:
  assumes "n \<noteq> 0"
  shows "ilog2 False n = ilog2 True n \<longleftrightarrow> is_power_of_2 n"
proof -
  obtain j where j: "ilog2 True n = Some (int j)" "j < 64" "bit n j" "\<forall>i > j. \<not> bit n i"
    using assms by (rule ilog2_const)
  obtain k where k: "fls64 n = int (Suc k)" "bit n k" "\<forall>i < k. \<not> bit n i" using assms by (rule fls64_first)
  have "ilog2 False n = Some (int k)" using k(1) by (simp add: ilog2_def uu_ilog2_u64_def)
  then have "ilog2 False n = ilog2 True n \<longleftrightarrow> k = j" using j(1) by simp
  also have "\<dots> \<longleftrightarrow> n = 2 ^ j"
  proof
    assume "k = j"
    then have "bit n i \<longleftrightarrow> i = j" for i using j(3,4) k(3) by (metis linorder_neqE_nat)
    then show "n = 2 ^ j" using j(2) by (intro bit_word_eqI) simp
  next
    assume "n = 2 ^ j"
    then show "k = j" using k(2) j(2) by simp
  qed
  also have "\<dots> \<longleftrightarrow> is_power_of_2 n"
  proof
    assume "is_power_of_2 n"
    then obtain i where "i < 64" "n = 2 ^ i" using power_of_2_iff by blast
    then show "n = 2 ^ j" using j(3) by simp
  qed (use j(2) power_of_2_iff in blast)
  finally show ?thesis .
qed

theorem ilog2_runtime_agrees_witness: "ilog2 False 6 = ilog2 True 6 \<longleftrightarrow> is_power_of_2 6"
  by (rule ilog2_runtime_agrees) simp

end
