(* ===== verification/Hash.thy ===== *)
theory Hash
  imports Bitops
begin

text \<open>
  \<^verbatim>\<open>include/hash.h\<close> and \<^verbatim>\<open>include/jhash.h\<close>. Keys are lists of bytes or of words, and a read past the end of
  the key is \<^const>\<open>None\<close>; \<^verbatim>\<open>hash_internal\<close>, whose bounds are addresses, reads bytes from a memory.
\<close>

section \<open>Multiplicative hashing\<close>

definition GOLDEN_RATIO_PRIME_32 :: u64 where "GOLDEN_RATIO_PRIME_32 = 0x9e370001"

definition GOLDEN_RATIO_PRIME_64 :: u64 where "GOLDEN_RATIO_PRIME_64 = 0x9e37fffffffc0001"

definition hash_64 :: "u64 \<Rightarrow> u32 \<Rightarrow> u64 option" where
  "hash_64 val bits =
     (let hash = val; n = hash;
          n = push_bit 18 n; hash = hash - n;
          n = push_bit 33 n; hash = hash - n;
          n = push_bit 3 n; hash = hash + n;
          n = push_bit 3 n; hash = hash - n;
          n = push_bit 4 n; hash = hash + n;
          n = push_bit 2 n; hash = hash + n
      in if unat (64 - bits) < 64 then Some (drop_bit (unat (64 - bits)) hash) else None)"

text \<open>The constant is an \<^verbatim>\<open>unsigned long\<close>: the product is computed in 64 bits and truncated.\<close>

definition hash_32 :: "u32 \<Rightarrow> u32 \<Rightarrow> u32 option" where
  "hash_32 val bits = (let hash = ucast (ucast val * GOLDEN_RATIO_PRIME_32) :: u32
     in if unat (32 - bits) < 32 then Some (drop_bit (unat (32 - bits)) hash) else None)"

definition hash_long :: "u64 \<Rightarrow> u32 \<Rightarrow> u64 option" where
  "hash_long val bits = hash_64 val bits"

definition hash_ptr :: "addr \<Rightarrow> u32 \<Rightarrow> u64 option" where
  "hash_ptr ptr bits = hash_long ptr bits"

text \<open>
  \<^verbatim>\<open>hash_internal\<close> computes its end pointer as \<^verbatim>\<open>*p + len\<close>, the first byte of the data plus the length, in
  the type \<^verbatim>\<open>unsigned int\<close>.
\<close>

function hash_internal_loop :: "(addr \<rightharpoonup> u8) \<Rightarrow> addr \<Rightarrow> addr \<Rightarrow> u32 \<Rightarrow> u32 option" where
  "hash_internal_loop mem p e h =
     (if p < e then (case mem p of None \<Rightarrow> None
        | Some b \<Rightarrow> hash_internal_loop mem (p + 1) e ((h XOR ucast b) * 0x9e3779b9))
      else Some h)"
  by pat_completeness auto
termination
proof (relation "measure (\<lambda>(mem, p, e, h). unat e - unat p)")
  fix p e :: addr
  assume lt: "p < e"
  then have "unat p < unat e" by (simp add: word_less_nat_alt)
  moreover then have "unat (p + 1) = Suc (unat p)" by (rule unat_Suc)
  ultimately show "((mem', p + 1, e, h'), (mem, p, e, h)) \<in> measure (\<lambda>(mem, p, e, h). unat e - unat p)" for mem mem' :: "addr \<rightharpoonup> u8" and h h' :: u32
    by simp
qed simp

declare hash_internal_loop.simps [simp del]

definition hash_internal :: "(addr \<rightharpoonup> u8) \<Rightarrow> addr \<Rightarrow> u32 \<Rightarrow> u64 option" where
  "hash_internal mem data len = do {
     b \<leftarrow> mem data;
     h \<leftarrow> hash_internal_loop mem data (ucast ((ucast b :: u32) + len)) 0xfeedbeef;
     Some (ucast h) }"

section \<open>Jenkins hashing\<close>

text \<open>
  The value of \<^const>\<open>rol32\<close> for the constant amounts used here, for which it is defined.
\<close>

definition rol :: "u32 \<Rightarrow> nat \<Rightarrow> u32" where
  "rol w k = push_bit k w OR drop_bit (32 - k) w"

lemma rol32_rol:
  assumes "0 < k" and "k < 32"
  shows "rol32 w (of_nat k) = Some (rol w k)"
proof -
  have k: "unat (of_nat k :: u32) = k" using assms by (simp add: unat_of_nat)
  then have "unat (32 - of_nat k :: u32) = 32 - k" using assms by (subst unat_sub) (simp_all add: word_le_nat_alt)
  then show ?thesis using assms k by (simp add: rol32_def rol_def word_less_nat_alt)
qed

type_synonym mix_state = "u32 \<times> u32 \<times> u32"

definition jhash_size :: "nat \<Rightarrow> u32 option" where
  "jhash_size n = (if n < 32 then Some (push_bit n 1) else None)"

definition jhash_mask :: "nat \<Rightarrow> u32 option" where
  "jhash_mask n = do { s \<leftarrow> jhash_size n; Some (s - 1) }"

definition uu_jhash_mix :: "mix_state \<Rightarrow> mix_state" where
  "uu_jhash_mix = (\<lambda>(a, b, c).
     let a = a - c; a = a XOR rol c 4; c = c + b;
         b = b - a; b = b XOR rol a 6; a = a + c;
         c = c - b; c = c XOR rol b 8; b = b + a;
         a = a - c; a = a XOR rol c 16; c = c + b;
         b = b - a; b = b XOR rol a 19; a = a + c;
         c = c - b; c = c XOR rol b 4; b = b + a
     in (a, b, c))"

definition uu_jhash_final :: "mix_state \<Rightarrow> mix_state" where
  "uu_jhash_final = (\<lambda>(a, b, c).
     let c = c XOR b; c = c - rol b 14;
         a = a XOR c; a = a - rol c 11;
         b = b XOR a; b = b - rol a 25;
         c = c XOR b; c = c - rol b 16;
         a = a XOR c; a = a - rol c 4;
         b = b XOR a; b = b - rol a 14;
         c = c XOR b; c = c - rol b 24
     in (a, b, c))"

definition JHASH_INITVAL :: u32 where "JHASH_INITVAL = 0xdeadbeef"

definition byte_at :: "u8 list \<Rightarrow> nat \<Rightarrow> nat \<Rightarrow> u32" where
  "byte_at k i sh = push_bit sh (ucast (k ! i))"

definition word_at :: "u8 list \<Rightarrow> nat \<Rightarrow> u32" where
  "word_at k i = ucast (k ! i) + push_bit 8 (ucast (k ! (i + 1))) + push_bit 16 (ucast (k ! (i + 2))) +
     push_bit 24 (ucast (k ! (i + 3)))"

function jhash_loop :: "u8 list \<Rightarrow> u32 \<Rightarrow> mix_state \<Rightarrow> (u8 list \<times> u32 \<times> mix_state) option" where
  "jhash_loop k len st =
     (if len > 12 then
        (if length k < 12 then None
         else case st of (a, b, c) \<Rightarrow>
           jhash_loop (drop 12 k) (len - 12) (uu_jhash_mix (a + word_at k 0, b + word_at k 4, c + word_at k 8)))
      else Some (k, len, st))"
  by pat_completeness auto
termination by (relation "measure (\<lambda>(k, len, st). length k)") auto

declare jhash_loop.simps [simp del]

text \<open>
  The \<^verbatim>\<open>switch\<close> on the remaining length: the cases fall through, so the case of \<open>n\<close> runs for every
  length from \<open>n\<close> to 12.
\<close>

definition jhash_tail :: "u8 list \<Rightarrow> nat \<Rightarrow> mix_state \<Rightarrow> mix_state" where
  "jhash_tail k n = (\<lambda>(a, b, c).
     let c = (if n \<ge> 12 then c + byte_at k 11 24 else c);
         c = (if n \<ge> 11 then c + byte_at k 10 16 else c);
         c = (if n \<ge> 10 then c + byte_at k 9 8 else c);
         c = (if n \<ge> 9 then c + byte_at k 8 0 else c);
         b = (if n \<ge> 8 then b + byte_at k 7 24 else b);
         b = (if n \<ge> 7 then b + byte_at k 6 16 else b);
         b = (if n \<ge> 6 then b + byte_at k 5 8 else b);
         b = (if n \<ge> 5 then b + byte_at k 4 0 else b);
         a = (if n \<ge> 4 then a + byte_at k 3 24 else a);
         a = (if n \<ge> 3 then a + byte_at k 2 16 else a);
         a = (if n \<ge> 2 then a + byte_at k 1 8 else a);
         a = (if n \<ge> 1 then a + byte_at k 0 0 else a)
     in if n \<ge> 1 then uu_jhash_final (a, b, c) else (a, b, c))"

definition jhash :: "u8 list \<Rightarrow> u32 \<Rightarrow> u32 \<Rightarrow> u32 option" where
  "jhash key len initval = (let i = JHASH_INITVAL + len + initval in do {
     (k, n, st) \<leftarrow> jhash_loop key len (i, i, i);
     if length k < unat n then None
     else Some (snd (snd (jhash_tail k (unat n) st))) })"

function jhash2_loop :: "u32 list \<Rightarrow> u32 \<Rightarrow> mix_state \<Rightarrow> (u32 list \<times> u32 \<times> mix_state) option" where
  "jhash2_loop k len st =
     (if len > 3 then
        (if length k < 3 then None
         else case st of (a, b, c) \<Rightarrow>
           jhash2_loop (drop 3 k) (len - 3) (uu_jhash_mix (a + k ! 0, b + k ! 1, c + k ! 2)))
      else Some (k, len, st))"
  by pat_completeness auto
termination by (relation "measure (\<lambda>(k, len, st). length k)") auto

declare jhash2_loop.simps [simp del]

definition jhash2_tail :: "u32 list \<Rightarrow> nat \<Rightarrow> mix_state \<Rightarrow> mix_state" where
  "jhash2_tail k n = (\<lambda>(a, b, c).
     let c = (if n \<ge> 3 then c + k ! 2 else c);
         b = (if n \<ge> 2 then b + k ! 1 else b);
         a = (if n \<ge> 1 then a + k ! 0 else a)
     in if n \<ge> 1 then uu_jhash_final (a, b, c) else (a, b, c))"

definition jhash2 :: "u32 list \<Rightarrow> u32 \<Rightarrow> u32 \<Rightarrow> u32 option" where
  "jhash2 k len initval = (let i = JHASH_INITVAL + push_bit 2 len + initval in do {
     (k, n, st) \<leftarrow> jhash2_loop k len (i, i, i);
     if length k < unat n then None
     else Some (snd (snd (jhash2_tail k (unat n) st))) })"

definition jhash_3words :: "u32 \<Rightarrow> u32 \<Rightarrow> u32 \<Rightarrow> u32 \<Rightarrow> u32" where
  "jhash_3words a b c initval = snd (snd (uu_jhash_final (a + JHASH_INITVAL, b + JHASH_INITVAL, c + initval)))"

definition jhash_2words :: "u32 \<Rightarrow> u32 \<Rightarrow> u32 \<Rightarrow> u32" where
  "jhash_2words a b initval = jhash_3words a b 0 initval"

definition jhash_1word :: "u32 \<Rightarrow> u32 \<Rightarrow> u32" where
  "jhash_1word a initval = jhash_3words a 0 0 initval"

end
