(* ===== verification/Hash_Props.thy ===== *)
theory Hash_Props
  imports Hash
begin

text \<open>
  What the hash functions promise: the Jenkins mixing steps are permutations of the state, hashing
  words is hashing their bytes in little-endian order, multiplicative hashing multiplies by the
  prime of its comment; and what \<^verbatim>\<open>hash_internal\<close> computes.
\<close>

section \<open>Mixing\<close>

text \<open>
  The macros repeat one step on the rotated state; each step has an inverse.
\<close>

definition mix_step :: "nat \<Rightarrow> mix_state \<Rightarrow> mix_state" where
  "mix_step k = (\<lambda>(a, b, c). (b, c + b, (a - c) XOR rol c k))"

definition unmix_step :: "nat \<Rightarrow> mix_state \<Rightarrow> mix_state" where
  "unmix_step k = (\<lambda>(b, c, a). let c = c - b in ((a XOR rol c k) + c, b, c))"

definition final_step :: "nat \<Rightarrow> mix_state \<Rightarrow> mix_state" where
  "final_step k = (\<lambda>(x, y, z). (z, (x XOR y) - rol y k, y))"

definition unfinal_step :: "nat \<Rightarrow> mix_state \<Rightarrow> mix_state" where
  "unfinal_step k = (\<lambda>(z, x, y). ((x + rol y k) XOR y, y, z))"

lemma mix_step_bij: "bij (mix_step k)"
  by (rule o_bij [where g = "unmix_step k"]) (auto simp: fun_eq_iff mix_step_def unmix_step_def Let_def xor.assoc)

lemma final_step_bij: "bij (final_step k)"
  by (rule o_bij [where g = "unfinal_step k"]) (auto simp: fun_eq_iff final_step_def unfinal_step_def xor.assoc)

lemma mix_steps: "uu_jhash_mix = mix_step 4 \<circ> mix_step 19 \<circ> mix_step 16 \<circ> mix_step 8 \<circ> mix_step 6 \<circ> mix_step 4"
  by (simp add: fun_eq_iff uu_jhash_mix_def mix_step_def Let_def)

definition swap_in :: "mix_state \<Rightarrow> mix_state" where
  "swap_in = (\<lambda>(a, b, c). (c, b, a))"

definition swap_out :: "mix_state \<Rightarrow> mix_state" where
  "swap_out = (\<lambda>(a, c, b). (a, b, c))"

lemma swap_bij: "bij swap_in" "bij swap_out"
  by (rule o_bij [where g = swap_in], auto simp: fun_eq_iff swap_in_def)
    (rule o_bij [where g = swap_out], auto simp: fun_eq_iff swap_out_def)

lemma final_steps: "uu_jhash_final = swap_out \<circ> final_step 24 \<circ> final_step 14 \<circ> final_step 4 \<circ> final_step 16 \<circ>
    final_step 25 \<circ> final_step 11 \<circ> final_step 14 \<circ> swap_in"
  by (simp add: fun_eq_iff uu_jhash_final_def final_step_def swap_in_def swap_out_def Let_def)

text \<open>
  __jhash_mix mixes its three values reversibly, as its comment says, and so does
  __jhash_final: both are bijections of the state, so no two states collide in a mixing step.
\<close>

theorem jhash_mix_reversible: "bij uu_jhash_mix \<and> bij uu_jhash_final"
  unfolding mix_steps final_steps by (intro conjI bij_comp mix_step_bij final_step_bij swap_bij)

section \<open>Words and bytes\<close>

definition bytes_of :: "u32 \<Rightarrow> u8 list" where
  "bytes_of w = [ucast w, ucast (drop_bit 8 w), ucast (drop_bit 16 w), ucast (drop_bit 24 w)]"

definition bytes :: "u32 list \<Rightarrow> u8 list" where
  "bytes ws = concat (map bytes_of ws)"

lemma bytes_simps [simp]: "bytes [] = []" "bytes (w # ws) = bytes_of w @ bytes ws"
  by (simp_all add: bytes_def)

lemma length_bytes [simp]: "length (bytes_of w) = 4" "length (bytes ws) = 4 * length ws"
  by (simp add: bytes_of_def) (induction ws; simp add: bytes_of_def)

lemma ucast_byte: "ucast (ucast x :: u8) = (take_bit 8 x :: u32)"
  by (rule bit_word_eqI) (simp add: bit_take_bit_iff bit_ucast_iff conj_commute)

lemma byte_split: "w = push_bit 8 (drop_bit 8 w) + take_bit 8 w" for w :: u32
  by (simp add: bits_ident)

lemma bytes_join:
  "ucast (ucast w :: u8) + push_bit 8 (ucast (ucast (drop_bit 8 w) :: u8)) + push_bit 16 (ucast (ucast (drop_bit 16 w) :: u8)) +
     push_bit 24 (ucast (ucast (drop_bit 24 w) :: u8)) = (w :: u32)"
proof -
  have top: "take_bit 8 (drop_bit 24 w) = drop_bit 24 w"
    by (rule bit_word_eqI) (auto simp: bit_take_bit_iff bit_drop_bit_eq dest: bit_imp_le_length)
  have "drop_bit 16 w = push_bit 8 (drop_bit 24 w) + take_bit 8 (drop_bit 16 w)"
    using byte_split [of "drop_bit 16 w"] by simp
  moreover have "drop_bit 8 w = push_bit 8 (drop_bit 16 w) + take_bit 8 (drop_bit 8 w)"
    using byte_split [of "drop_bit 8 w"] by simp
  ultimately have "w = push_bit 8 (push_bit 8 (push_bit 8 (take_bit 8 (drop_bit 24 w)) + take_bit 8 (drop_bit 16 w)) +
      take_bit 8 (drop_bit 8 w)) + take_bit 8 w"
    unfolding top using byte_split [of w] by metis
  then show ?thesis unfolding ucast_byte by (simp add: push_bit_add add_ac)
qed

lemma drop_bytes: "drop 12 (bytes ws) = bytes (drop 3 ws)"
proof (cases "length ws \<ge> 3")
  case True
  then obtain x y z vs where "ws = x # y # z # vs" by (metis Suc_le_length_iff numeral_3_eq_3)
  then show ?thesis by (simp add: bytes_of_def)
qed simp

lemma word_at_bytes:
  assumes "i < length ws"
  shows "word_at (bytes ws) (4 * i) = ws ! i"
  using assms
proof (induction ws arbitrary: i)
  case (Cons w ws)
  show ?case
  proof (cases i)
    case 0
    then show ?thesis using bytes_join [of w] by (simp add: word_at_def bytes_of_def)
  next
    case (Suc j)
    then have "word_at (bytes (w # ws)) (4 * i) = word_at (bytes ws) (4 * j)"
      by (simp add: word_at_def nth_append add.commute)
    then show ?thesis using Cons Suc by simp
  qed
qed simp

lemma four_times:
  assumes "4 * unat len < 2 ^ 32"
  shows "unat (push_bit 2 len :: u32) = 4 * unat len"
proof -
  have "push_bit 2 len = len * 4" by (simp add: push_bit_eq_mult)
  then show ?thesis using assms unat_mult_lem [of len 4] by simp
qed

lemma jhash_loop_words:
  assumes "unat len = length ws" and "4 * length ws < 2 ^ 32"
  shows "jhash_loop (bytes ws) (push_bit 2 len) st =
    map_option (\<lambda>(k, n, st). (bytes k, push_bit 2 n, st)) (jhash2_loop ws len st)"
  using assms
proof (induction ws len st rule: jhash2_loop.induct)
  case (1 ws len st)
  obtain a b c where st: "st = (a, b, c)" by (cases st) auto
  have four: "unat (push_bit 2 len) = 4 * unat len" using 1(2,3) by (intro four_times) simp
  have gt: "push_bit 2 len > 12 \<longleftrightarrow> len > 3" unfolding word_less_nat_alt four by auto
  show ?case
  proof (cases "len > 3")
    case True
    then have l: "3 < length ws" using 1(2) by (simp add: word_less_nat_alt)
    have "unat (len - 3) = unat len - 3" using True by (subst unat_sub) (simp_all add: less_imp_le)
    then have "unat (len - 3) = length (drop 3 ws)" using 1(2) by simp
    moreover have "push_bit 2 (len - 3) = push_bit 2 len - 12"
      by (simp add: push_bit_eq_mult left_diff_distrib)
    moreover have "word_at (bytes ws) 0 = ws ! 0" "word_at (bytes ws) 4 = ws ! 1" "word_at (bytes ws) 8 = ws ! 2"
      using word_at_bytes [of 0 ws] word_at_bytes [of 1 ws] word_at_bytes [of 2 ws] l by fastforce+
    ultimately show ?thesis using 1(1) [OF True, of a "(b, c)" b c] 1(3) True gt l st
      by (subst jhash_loop.simps, subst jhash2_loop.simps) (simp add: drop_bytes)
  next
    case False
    then show ?thesis using gt by (subst jhash_loop.simps, subst jhash2_loop.simps) simp
  qed
qed

lemma jhash2_loop_rest:
  assumes "unat len = length ws"
  shows "\<exists>k n st'. jhash2_loop ws len st = Some (k, n, st') \<and> unat n = length k \<and> length k \<le> 3"
  using assms
proof (induction ws len st rule: jhash2_loop.induct)
  case (1 ws len st)
  obtain a b c where st: "st = (a, b, c)" by (cases st) auto
  show ?case
  proof (cases "len > 3")
    case True
    then have l: "3 < length ws" using 1(2) by (simp add: word_less_nat_alt)
    have "unat (len - 3) = unat len - 3" using True by (subst unat_sub) (simp_all add: less_imp_le)
    then have "unat (len - 3) = length (drop 3 ws)" using 1(2) by simp
    then show ?thesis using 1(1) [OF True, of a "(b, c)" b c] True l st by (subst jhash2_loop.simps) simp
  next
    case False
    then have "length ws \<le> 3" using 1(2) by (simp add: word_less_nat_alt)
    then show ?thesis using False 1(2) st by (subst jhash2_loop.simps) simp
  qed
qed

lemma jhash_total:
  assumes "unat n \<le> length k"
  shows "\<exists>h. jhash k n i = Some h"
proof -
  have "\<exists>k' n' st'. jhash_loop k n st = Some (k', n', st') \<and> unat n' \<le> length k'" for st
    using assms
  proof (induction k n st rule: jhash_loop.induct)
    case (1 k n st)
    obtain a b c where st: "st = (a, b, c)" by (cases st) auto
    show ?case
    proof (cases "n > 12")
      case True
      then have l: "12 < length k" using 1(2) by (simp add: word_less_nat_alt)
      have "unat (n - 12) = unat n - 12" using True by (subst unat_sub) (simp_all add: less_imp_le)
      then have "unat (n - 12) \<le> length (drop 12 k)" using 1(2) by simp
      then show ?thesis using 1(1) [OF True, of a "(b, c)" b c] True l st by (subst jhash_loop.simps) simp
    next
      case False
      then show ?thesis using 1(2) st by (subst jhash_loop.simps) simp
    qed
  qed
  then obtain k' n' st' where "jhash_loop k n (JHASH_INITVAL + n + i, JHASH_INITVAL + n + i, JHASH_INITVAL + n + i) =
      Some (k', n', st')" "unat n' \<le> length k'" by blast
  then show ?thesis by (simp add: jhash_def)
qed

lemma tail_words:
  assumes "length k \<le> 3"
  shows "jhash_tail (bytes k) (4 * length k) st = jhash2_tail k (length k) st"
proof -
  have sum: "x + push_bit 24 (ucast (ucast (drop_bit 24 w) :: u8)) + push_bit 16 (ucast (ucast (drop_bit 16 w) :: u8)) +
      push_bit 8 (ucast (ucast (drop_bit 8 w) :: u8)) + ucast (ucast w :: u8) = x + w" for x w :: u32
    using bytes_join [of w] by (simp add: add_ac)
  have "k = [] \<or> (\<exists>x. k = [x]) \<or> (\<exists>x y. k = [x, y]) \<or> (\<exists>x y z. k = [x, y, z])"
    using assms by (auto simp: numeral_3_eq_3 length_Suc_conv le_Suc_eq)
  then show ?thesis
    by (elim disjE exE) (auto simp: jhash_tail_def jhash2_tail_def bytes_of_def byte_at_def sum Let_def)
qed

text \<open>
  C38: jhash2 on an array of words is jhash on its bytes in little-endian order, and both
  return for every key of the given length.
\<close>

theorem jhash2_is_jhash:
  assumes "unat len = length ws" and "4 * length ws < 2 ^ 32"
  shows "jhash2 ws len initval = jhash (bytes ws) (push_bit 2 len) initval \<and> jhash2 ws len initval \<noteq> None"
proof -
  let ?i = "JHASH_INITVAL + push_bit 2 len + initval"
  obtain k n st where k: "jhash2_loop ws len (?i, ?i, ?i) = Some (k, n, st)" "unat n = length k" "length k \<le> 3"
    using jhash2_loop_rest [OF assms(1)] by blast
  have "unat (push_bit 2 n) = 4 * length k" using k(2,3) four_times [of n] by simp
  then have "jhash (bytes ws) (push_bit 2 len) initval = Some (snd (snd (jhash_tail (bytes k) (4 * length k) st)))"
    unfolding jhash_def Let_def jhash_loop_words [OF assms] k(1) by simp
  moreover have "jhash2 ws len initval = Some (snd (snd (jhash2_tail k (length k) st)))"
    unfolding jhash2_def Let_def k(1) using k(2) by simp
  ultimately show ?thesis using tail_words [OF k(3)] by simp
qed

theorem jhash2_is_jhash_witness:
  "jhash2 [1, 2, 3, 4, 5] 5 7 = jhash (bytes [1, 2, 3, 4, 5]) 20 7"
  using jhash2_is_jhash [of 5 "[1, 2, 3, 4, 5]" 7] by simp

section \<open>Multiplicative hashing\<close>

lemma hash_64_value:
  assumes "0 < b" and "b \<le> 64"
  shows "hash_64 val (of_nat b) = Some (drop_bit (64 - b) (val * GOLDEN_RATIO_PRIME_64))"
proof -
  have b: "unat (of_nat b :: u32) = b" using assms by (simp add: unat_of_nat)
  then have "unat (64 - of_nat b :: u32) = 64 - b" using assms by (subst unat_sub) (simp_all add: word_le_nat_alt)
  moreover have "(let hash = val; n = hash; n = push_bit 18 n; hash = hash - n; n = push_bit 33 n; hash = hash - n;
      n = push_bit 3 n; hash = hash + n; n = push_bit 3 n; hash = hash - n; n = push_bit 4 n; hash = hash + n;
      n = push_bit 2 n; hash = hash + n in hash) = val * GOLDEN_RATIO_PRIME_64"
    by (simp add: Let_def push_bit_eq_mult GOLDEN_RATIO_PRIME_64_def algebra_simps)
  ultimately show ?thesis using assms by (simp add: hash_64_def Let_def)
qed

text \<open>
  hash_64 multiplies by the golden-ratio prime of its comment with shifts and additions
  and keeps the requested number of high bits, so its result is an index below two to that number.
\<close>

theorem hash_64_golden:
  assumes "0 < b" and "b \<le> 64"
  shows "hash_64 val (of_nat b) = Some (drop_bit (64 - b) (val * GOLDEN_RATIO_PRIME_64)) \<and>
    hash_ptr val (of_nat b) = hash_64 val (of_nat b) \<and>
    unat (drop_bit (64 - b) (val * GOLDEN_RATIO_PRIME_64)) < 2 ^ b"
proof (intro conjI)
  show "unat (drop_bit (64 - b) (val * GOLDEN_RATIO_PRIME_64)) < 2 ^ b"
  proof -
    have "unat (val * GOLDEN_RATIO_PRIME_64) < 2 ^ b * 2 ^ (64 - b)"
      using unat_bound [of "val * GOLDEN_RATIO_PRIME_64"] assms by (simp flip: power_add)
    then have "unat (val * GOLDEN_RATIO_PRIME_64) div 2 ^ (64 - b) < 2 ^ b" by (rule less_mult_imp_div_less)
    then show ?thesis by (simp only: unat_drop_bit_eq drop_bit_eq_div [where 'a = nat])
  qed
qed (use hash_64_value [OF assms] in \<open>simp_all add: hash_ptr_def hash_long_def\<close>)

theorem hash_64_golden_witness:
  "hash_64 12345 (of_nat 10) = Some (drop_bit 54 (12345 * GOLDEN_RATIO_PRIME_64))"
  using hash_64_golden [of 10 12345] by simp

text \<open>
  hash_internal takes the first byte plus the length for the end of its data: for data at
  an address of 2^32 or above the loop never runs, and the hash of every key is 0xfeedbeef.
\<close>

theorem hash_internal_constant:
  assumes "mem data = Some b" and "2 ^ 32 \<le> unat data"
  shows "hash_internal mem data len = Some 0xfeedbeef"
proof -
  have "unat (ucast ((ucast b :: u32) + len) :: addr) < 2 ^ 32"
    using unat_bound [of "(ucast b :: u32) + len"] by (simp add: unsigned_ucast_eq take_bit_nat_eq_self)
  then have "\<not> data < ucast ((ucast b :: u32) + len)" using assms(2) by (simp add: word_less_nat_alt)
  then show ?thesis using assms(1) by (simp add: hash_internal_def hash_internal_loop.simps)
qed

theorem hash_internal_constant_witness:
  "hash_internal [0x7f0000000000 \<mapsto> 65, 0x7f0000000001 \<mapsto> 66] 0x7f0000000000 2 = Some 0xfeedbeef"
  by (rule hash_internal_constant [where b = 65]) simp_all

end
