(* ===== verification/Hlist.thy ===== *)
theory Hlist
  imports Linked_Seq
begin

text \<open>
  \<^verbatim>\<open>include/hlist.h\<close>: the list with a one-pointer head, for hash tables. \<^verbatim>\<open>first\<close> of a head and \<^verbatim>\<open>next\<close> of a
  node are the first members of their structs, so \<^verbatim>\<open>&h->first\<close> and \<^verbatim>\<open>&n->next\<close> are the addresses of the
  structs: one heap \<open>hl_ptr\<close> holds these pointers, and \<^verbatim>\<open>*pprev = v\<close> is a write to it. \<open>hl_pprev\<close> holds the
  \<^verbatim>\<open>pprev\<close> members of the nodes. A heap represents a sequence of nodes under a head (\<open>hlist\<close>), and every
  operation is shown to act on that sequence.
\<close>

section \<open>Operations\<close>

record hlist_mem =
  hl_ptr :: "addr heap"
  hl_pprev :: "addr heap"

definition ptr_get :: "addr \<Rightarrow> hlist_mem \<Rightarrow> addr option" where
  "ptr_get p s = deref (hl_ptr s) p"

definition ptr_set :: "addr \<Rightarrow> addr \<Rightarrow> hlist_mem \<Rightarrow> hlist_mem option" where
  "ptr_set p v s = map_option (\<lambda>h. s\<lparr>hl_ptr := h\<rparr>) (modf (\<lambda>_. v) p (hl_ptr s))"

definition pprev_get :: "addr \<Rightarrow> hlist_mem \<Rightarrow> addr option" where
  "pprev_get p s = deref (hl_pprev s) p"

definition pprev_set :: "addr \<Rightarrow> addr \<Rightarrow> hlist_mem \<Rightarrow> hlist_mem option" where
  "pprev_set p v s = map_option (\<lambda>h. s\<lparr>hl_pprev := h\<rparr>) (modf (\<lambda>_. v) p (hl_pprev s))"

text \<open>The initialiser \<^verbatim>\<open>HLIST_HEAD_INIT\<close> is the value of the one member of a head; a declaration puts it into new memory.\<close>

definition HLIST_HEAD_INIT :: addr where
  "HLIST_HEAD_INIT = NULL"

definition HLIST_HEAD :: "addr \<Rightarrow> hlist_mem \<Rightarrow> hlist_mem" where
  "HLIST_HEAD name s = s\<lparr>hl_ptr := (hl_ptr s)(name \<mapsto> HLIST_HEAD_INIT)\<rparr>"

definition INIT_HLIST_HEAD :: "addr \<Rightarrow> hlist_mem \<Rightarrow> hlist_mem option" where
  "INIT_HLIST_HEAD ptr s = ptr_set ptr NULL s"

definition INIT_HLIST_NODE :: "addr \<Rightarrow> hlist_mem \<Rightarrow> hlist_mem option" where
  "INIT_HLIST_NODE h s = do { s \<leftarrow> ptr_set h NULL s; pprev_set h NULL s }"

definition hlist_unhashed :: "addr \<Rightarrow> hlist_mem \<Rightarrow> bool option" where
  "hlist_unhashed h s = do { p \<leftarrow> pprev_get h s; Some (p = NULL) }"

definition hlist_empty :: "addr \<Rightarrow> hlist_mem \<Rightarrow> bool option" where
  "hlist_empty h s = do { f \<leftarrow> ptr_get h s; Some (f = NULL) }"

definition uu_hlist_del :: "addr \<Rightarrow> hlist_mem \<Rightarrow> hlist_mem option" where
  "uu_hlist_del n s = do {
     nxt \<leftarrow> ptr_get n s;
     pprev \<leftarrow> pprev_get n s;
     s \<leftarrow> ptr_set pprev nxt s;
     if nxt \<noteq> NULL then pprev_set nxt pprev s else Some s }"

definition hlist_del :: "addr \<Rightarrow> hlist_mem \<Rightarrow> hlist_mem option" where
  "hlist_del n s = do {
     s \<leftarrow> uu_hlist_del n s;
     s \<leftarrow> ptr_set n NULL s;
     pprev_set n NULL s }"

definition hlist_del_init :: "addr \<Rightarrow> hlist_mem \<Rightarrow> hlist_mem option" where
  "hlist_del_init n s = do {
     u \<leftarrow> hlist_unhashed n s;
     if \<not> u then do { s \<leftarrow> uu_hlist_del n s; INIT_HLIST_NODE n s } else Some s }"

definition hlist_add_head :: "addr \<Rightarrow> addr \<Rightarrow> hlist_mem \<Rightarrow> hlist_mem option" where
  "hlist_add_head n h s = do {
     first \<leftarrow> ptr_get h s;
     s \<leftarrow> ptr_set n first s;
     s \<leftarrow> (if first \<noteq> NULL then pprev_set first n s else Some s);
     s \<leftarrow> ptr_set h n s;
     pprev_set n h s }"

definition hlist_add_before :: "addr \<Rightarrow> addr \<Rightarrow> hlist_mem \<Rightarrow> hlist_mem option" where
  "hlist_add_before n nxt s = do {
     pp \<leftarrow> pprev_get nxt s;
     s \<leftarrow> pprev_set n pp s;
     s \<leftarrow> ptr_set n nxt s;
     s \<leftarrow> pprev_set nxt n s;
     pp \<leftarrow> pprev_get n s;
     ptr_set pp n s }"

definition hlist_add_after :: "addr \<Rightarrow> addr \<Rightarrow> hlist_mem \<Rightarrow> hlist_mem option" where
  "hlist_add_after n nxt s = do {
     nn \<leftarrow> ptr_get n s;
     s \<leftarrow> ptr_set nxt nn s;
     s \<leftarrow> ptr_set n nxt s;
     s \<leftarrow> pprev_set nxt n s;
     nn \<leftarrow> ptr_get nxt s;
     if nn \<noteq> NULL then pprev_set nn nxt s else Some s }"

definition hlist_move_list :: "addr \<Rightarrow> addr \<Rightarrow> hlist_mem \<Rightarrow> hlist_mem option" where
  "hlist_move_list old new s = do {
     f \<leftarrow> ptr_get old s;
     s \<leftarrow> ptr_set new f s;
     f \<leftarrow> ptr_get new s;
     s \<leftarrow> (if f \<noteq> NULL then pprev_set f new s else Some s);
     ptr_set old NULL s }"

definition hlist_entry :: "addr \<Rightarrow> u64 \<Rightarrow> addr" where
  "hlist_entry ptr off = ptr - off"

definition hlist_next_entry :: "addr \<Rightarrow> u64 \<Rightarrow> hlist_mem \<Rightarrow> addr option" where
  "hlist_next_entry node off s = do { n \<leftarrow> ptr_get (node + off) s; Some (hlist_entry n off) }"

section \<open>Iteration\<close>

text \<open>
  The body gets the cursor and may change the lists and the caller's data. The plain loops read the
  successor after the body, the safe ones before it.
\<close>

type_synonym 'd hlist_body = "addr \<Rightarrow> hlist_mem \<times> 'd \<Rightarrow> (hlist_mem \<times> 'd) option"

partial_function (option) hlist_loop :: "'d hlist_body \<Rightarrow> addr \<Rightarrow> hlist_mem \<times> 'd \<Rightarrow> (hlist_mem \<times> 'd) option" where
  "hlist_loop body pos st =
     (if pos \<noteq> NULL then do {
        st \<leftarrow> body pos st;
        n \<leftarrow> ptr_get pos (fst st);
        hlist_loop body n st }
      else Some st)"

partial_function (option) hlist_safe_loop :: "'d hlist_body \<Rightarrow> addr \<Rightarrow> hlist_mem \<times> 'd \<Rightarrow> (hlist_mem \<times> 'd) option" where
  "hlist_safe_loop body pos st =
     (if pos \<noteq> NULL then do {
        n \<leftarrow> ptr_get pos (fst st);
        st \<leftarrow> body pos st;
        hlist_safe_loop body n st }
      else Some st)"

definition hlist_for_each :: "'d hlist_body \<Rightarrow> addr \<Rightarrow> hlist_mem \<times> 'd \<Rightarrow> (hlist_mem \<times> 'd) option" where
  "hlist_for_each body head st = do { f \<leftarrow> ptr_get head (fst st); hlist_loop body f st }"

definition hlist_for_each_safe :: "'d hlist_body \<Rightarrow> addr \<Rightarrow> hlist_mem \<times> 'd \<Rightarrow> (hlist_mem \<times> 'd) option" where
  "hlist_for_each_safe body head st = do { f \<leftarrow> ptr_get head (fst st); hlist_safe_loop body f st }"

definition hlist_for_each_entry :: "u64 \<Rightarrow> 'd hlist_body \<Rightarrow> addr \<Rightarrow> hlist_mem \<times> 'd \<Rightarrow> (hlist_mem \<times> 'd) option" where
  "hlist_for_each_entry off body head st = do {
     f \<leftarrow> ptr_get head (fst st);
     hlist_loop (\<lambda>pos. body (hlist_entry pos off)) f st }"

definition hlist_for_each_entry_continue :: "u64 \<Rightarrow> 'd hlist_body \<Rightarrow> addr \<Rightarrow> hlist_mem \<times> 'd \<Rightarrow> (hlist_mem \<times> 'd) option" where
  "hlist_for_each_entry_continue off body pos st = do {
     n \<leftarrow> ptr_get pos (fst st);
     hlist_loop (\<lambda>pos. body (hlist_entry pos off)) n st }"

definition hlist_for_each_entry_from :: "u64 \<Rightarrow> 'd hlist_body \<Rightarrow> addr \<Rightarrow> hlist_mem \<times> 'd \<Rightarrow> (hlist_mem \<times> 'd) option" where
  "hlist_for_each_entry_from off body pos st = hlist_loop (\<lambda>pos. body (hlist_entry pos off)) pos st"

definition hlist_for_each_entry_safe :: "u64 \<Rightarrow> 'd hlist_body \<Rightarrow> addr \<Rightarrow> hlist_mem \<times> 'd \<Rightarrow> (hlist_mem \<times> 'd) option" where
  "hlist_for_each_entry_safe off body head st = do {
     f \<leftarrow> ptr_get head (fst st);
     hlist_safe_loop (\<lambda>pos. body (hlist_entry pos off)) f st }"

section \<open>Represented sequences\<close>

definition hlist :: "hlist_mem \<Rightarrow> addr \<Rightarrow> addr list \<Rightarrow> bool" where
  "hlist s p xs \<longleftrightarrow> distinct (p # xs) \<and> NULL \<notin> set (p # xs) \<and> links (hl_ptr s) (hl_pprev s) (p # xs) \<and>
     hl_ptr s (last (p # xs)) = Some NULL"

lemma HLIST_HEAD_empty: "p \<noteq> NULL \<Longrightarrow> hlist (HLIST_HEAD p s) p []"
  by (simp add: hlist_def HLIST_HEAD_def HLIST_HEAD_INIT_def)

definition hnode :: "hlist_mem \<Rightarrow> addr \<Rightarrow> bool" where
  "hnode s n \<longleftrightarrow> n \<noteq> NULL \<and> n \<in> dom (hl_ptr s) \<and> n \<in> dom (hl_pprev s)"

lemma ptr_simps [heap_simps]:
  "p \<noteq> NULL \<Longrightarrow> ptr_get p s = hl_ptr s p"
  "p \<noteq> NULL \<Longrightarrow> p \<in> dom (hl_ptr s) \<Longrightarrow> ptr_set p v s = Some (s\<lparr>hl_ptr := (hl_ptr s)(p \<mapsto> v)\<rparr>)"
  "p \<noteq> NULL \<Longrightarrow> pprev_get p s = hl_pprev s p"
  "p \<noteq> NULL \<Longrightarrow> p \<in> dom (hl_pprev s) \<Longrightarrow> pprev_set p v s = Some (s\<lparr>hl_pprev := (hl_pprev s)(p \<mapsto> v)\<rparr>)"
  by (auto simp: ptr_get_def ptr_set_def pprev_get_def pprev_set_def deref_def modf_def)

lemma links_step: "links f g (us @ a # zs) \<Longrightarrow> f (last (us @ a # zs)) = Some e \<Longrightarrow>
    f a = Some (case zs of [] \<Rightarrow> e | z # _ \<Rightarrow> z)"
proof (cases zs)
  case (Cons z zs')
  assume "links f g (us @ a # zs)"
  then have "links f g (a # zs)" by (subst (asm) links_append) simp
  then show ?thesis using Cons by simp
qed simp

lemma hlist_ptr:
  assumes "hlist s p xs" and "p # xs = us @ a # zs"
  shows "hl_ptr s a = Some (first_of zs)" and "a \<noteq> NULL"
proof -
  have "links (hl_ptr s) (hl_pprev s) (us @ a # zs)" "hl_ptr s (last (us @ a # zs)) = Some NULL" "NULL \<notin> set (us @ a # zs)"
    using assms(1) unfolding hlist_def assms(2) by simp_all
  then show "hl_ptr s a = Some (first_of zs)" and "a \<noteq> NULL" using links_step by (auto simp: first_of_def)
qed

lemma hlist_pprev:
  assumes "hlist s p xs" and "p # xs = us @ a # x # zs"
  shows "hl_pprev s x = Some a"
proof -
  have "links (hl_ptr s) (hl_pprev s) (us @ a # x # zs)" using assms(1) unfolding hlist_def assms(2) by simp
  then show ?thesis by (subst (asm) links_append) simp
qed

lemma hlist_node:
  assumes "hlist s p xs" and "x \<in> set xs"
  shows "hnode s x"
proof -
  obtain ys zs where xs: "xs = ys @ x # zs" using assms(2) by (meson split_list)
  have e: "p # xs = butlast (p # ys) @ last (p # ys) # x # zs" using xs by (simp add: append_butlast_last_id [symmetric] del: last.simps butlast.simps)
  have "hl_pprev s x = Some (last (p # ys))" using hlist_pprev [OF assms(1) e] .
  moreover have "hl_ptr s x = Some (first_of zs)" "x \<noteq> NULL"
    using hlist_ptr [OF assms(1), of "p # ys" x zs] xs by simp_all
  ultimately show ?thesis by (auto simp: hnode_def)
qed

text \<open>One insertion and one removal cover all operations that link or unlink a node.\<close>

lemma hlist_insert:
  assumes h: "hlist s p xs" and e: "p # xs = us @ a # zs" and n: "n \<notin> set (p # xs)" "n \<noteq> NULL"
    and s': "hl_ptr s' = (hl_ptr s)(n \<mapsto> first_of zs, a \<mapsto> n)"
      "hl_pprev s' = (if zs = [] then hl_pprev s else (hl_pprev s)(first_of zs \<mapsto> n))(n \<mapsto> a)"
    and e': "p # xs' = us @ a # n # zs"
  shows "hlist s' p xs'"
proof -
  have d: "distinct (us @ a # zs)" "NULL \<notin> set (us @ a # zs)" "links (hl_ptr s) (hl_pprev s) (us @ a # zs)"
      "hl_ptr s (last (us @ a # zs)) = Some NULL" "n \<notin> set (us @ a # zs)"
    using h n unfolding hlist_def e by simp_all
  have l: "links (hl_ptr s) (hl_pprev s) (us @ [a])" "links (hl_ptr s) (hl_pprev s) (a # zs)"
    using d(3) by (subst (asm) links_append; simp)+
  have "links (hl_ptr s') (hl_pprev s') (us @ a # n # zs) \<and> hl_ptr s' (last (us @ a # n # zs)) = Some NULL"
  proof (cases zs)
    case Nil
    have "n \<notin> set (butlast (us @ [a, n]))" using d(5) by (simp add: butlast_append)
    moreover have "links ((hl_ptr s)(a \<mapsto> n)) ((hl_pprev s)(n \<mapsto> a)) (us @ [a, n])"
      using links_join [OF l(1), of n "[]"] d(1,5) Nil by (auto simp: notin_tl)
    ultimately have "links (hl_ptr s') (hl_pprev s') (us @ [a, n])" unfolding s' Nil
      using d(5) by (simp add: links_upd_succ fun_upd_twist)
    then show ?thesis using Nil d(5) s'(1) by auto
  next
    case (Cons b vs)
    have "links (hl_ptr s') (hl_pprev s') (us @ a # n # b # vs)"
      unfolding s' Cons using links_insert [OF l(1), of b vs n] l(2) d(1,5) Cons by (auto simp: notin_tl notin_butlast)
    moreover have "last zs \<in> set zs" "a \<notin> set zs" "n \<notin> set zs" using d(1,5) Cons by simp_all
    ultimately show ?thesis using d(4) Cons s'(1) by auto
  qed
  then show ?thesis using d(1,2,5) n(2) unfolding hlist_def e' by auto
qed

lemma hlist_remove:
  assumes h: "hlist s p xs" and e: "p # xs = us @ a # x # zs"
    and s': "\<And>y. y \<noteq> x \<Longrightarrow> hl_ptr s' y = ((hl_ptr s)(a \<mapsto> first_of zs)) y"
      "\<And>y. y \<noteq> x \<Longrightarrow> hl_pprev s' y = (if zs = [] then hl_pprev s else (hl_pprev s)(first_of zs \<mapsto> a)) y"
    and e': "p # xs' = us @ a # zs"
  shows "hlist s' p xs'"
proof -
  have d: "distinct (us @ a # x # zs)" "NULL \<notin> set (us @ a # x # zs)" "links (hl_ptr s) (hl_pprev s) (us @ a # x # zs)"
      "hl_ptr s (last (us @ a # x # zs)) = Some NULL"
    using h unfolding hlist_def e by simp_all
  have l: "links (hl_ptr s) (hl_pprev s) (us @ [a])" "links (hl_ptr s) (hl_pprev s) (a # x # zs)"
    using d(3) by (subst (asm) links_append; simp)+
  let ?f = "(hl_ptr s)(a \<mapsto> first_of zs)" and ?g = "if zs = [] then hl_pprev s else (hl_pprev s)(first_of zs \<mapsto> a)"
  have "links ?f ?g (us @ a # zs) \<and> ?f (last (us @ a # zs)) = Some NULL"
  proof (cases zs)
    case Nil
    then show ?thesis using l(1) d(1) by (simp add: links_upd_succ)
  next
    case (Cons b vs)
    have "links ?f ?g (us @ a # b # vs)" unfolding Cons
      using links_join [OF l(1), of b vs] l(2) d(1) Cons by (auto simp: notin_tl notin_butlast)
    moreover have "last zs \<in> set zs" "a \<notin> set zs" using d(1) Cons by simp_all
    ultimately show ?thesis using d(4) Cons by auto
  qed
  moreover have "x \<notin> set (us @ a # zs)" using d(1) by auto
  ultimately have "links (hl_ptr s') (hl_pprev s') (us @ a # zs) \<and> hl_ptr s' (last (us @ a # zs)) = Some NULL"
    using links_cong [of "us @ a # zs" "hl_ptr s'" ?f "hl_pprev s'" ?g] s'
    by (metis in_set_butlastD in_set_conv_decomp last_in_set list.set_sel(2) append_is_Nil_conv list.distinct(1) tl_Nil)
  then show ?thesis using d(1,2) unfolding hlist_def e' by auto
qed

section \<open>The operations on sequences\<close>

definition frame :: "addr set \<Rightarrow> hlist_mem \<Rightarrow> hlist_mem \<Rightarrow> bool" where
  "frame A s s' \<longleftrightarrow> dom (hl_ptr s') = dom (hl_ptr s) \<and> dom (hl_pprev s') = dom (hl_pprev s) \<and>
     (\<forall>y. y \<notin> A \<longrightarrow> hl_ptr s' y = hl_ptr s y \<and> hl_pprev s' y = hl_pprev s y)"

lemma frame_hnode: "frame A s s' \<Longrightarrow> hnode s' n = hnode s n"
  by (simp add: frame_def hnode_def)

lemma hlist_apart:
  assumes "hlist s q ws" and "frame A s s'" and "set (q # ws) \<inter> A = {}"
  shows "hlist s' q ws"
proof -
  have same: "hl_ptr s' y = hl_ptr s y" "hl_pprev s' y = hl_pprev s y" if "y \<in> set (q # ws)" for y
    using assms(2,3) that by (auto simp: frame_def)
  have "links (hl_ptr s') (hl_pprev s') (q # ws) = links (hl_ptr s) (hl_pprev s) (q # ws)"
    by (rule links_cong) (use same in \<open>auto dest: in_set_butlastD simp del: butlast.simps\<close>)
  moreover have "hl_ptr s' (last (q # ws)) = hl_ptr s (last (q # ws))" by (rule same) (rule last_in_set, simp)
  ultimately show ?thesis using assms(1) by (simp add: hlist_def)
qed

lemma hlist_split:
  assumes "xs = ys @ x # zs"
  shows "p # xs = butlast (p # ys) @ last (p # ys) # x # zs"
  using assms by (simp add: append_butlast_last_id [symmetric] del: last.simps butlast.simps)

lemma hlist_dom:
  assumes "hlist s p xs"
  shows "p \<noteq> NULL" and "p \<in> dom (hl_ptr s)" and "x \<in> set xs \<Longrightarrow> x \<noteq> NULL \<and> x \<in> dom (hl_ptr s) \<and> x \<in> dom (hl_pprev s)"
  using hlist_ptr [OF assms, of "[]" p xs] hlist_node [OF assms, of x] by (auto simp: hnode_def)

lemma add_head_repr:
  assumes h: "hlist s p xs" and n: "hnode s n" "n \<notin> set (p # xs)"
  shows "\<exists>s'. hlist_add_head n p s = Some s' \<and> hlist s' p (n # xs) \<and> frame (insert n (set (p # xs))) s s'"
proof -
  let ?s = "s\<lparr>hl_ptr := (hl_ptr s)(n \<mapsto> first_of xs, p \<mapsto> n),
    hl_pprev := (if xs = [] then hl_pprev s else (hl_pprev s)(first_of xs \<mapsto> n))(n \<mapsto> p)\<rparr>"
  have "hl_ptr s p = Some (first_of xs)" using hlist_ptr(1) [OF h, of "[]"] by simp
  then have "hlist_add_head n p s = Some ?s"
    using hlist_dom [OF h] n by (cases xs) (auto simp: hlist_add_head_def heap_simps hnode_def)
  moreover have "hlist ?s p (n # xs)"
    by (rule hlist_insert [OF h, of "[]" p xs]) (use n in \<open>auto simp: hnode_def\<close>)
  moreover have "frame (insert n (set (p # xs))) s ?s"
    using hlist_dom [OF h] n by (cases xs) (auto simp: frame_def hnode_def)
  ultimately show ?thesis by blast
qed

lemma uu_del_eval:
  assumes h: "hlist s p xs" and e: "p # xs = us @ a # x # zs"
  shows "uu_hlist_del x s = Some (s\<lparr>hl_ptr := (hl_ptr s)(a \<mapsto> first_of zs),
    hl_pprev := if zs = [] then hl_pprev s else (hl_pprev s)(first_of zs \<mapsto> a)\<rparr>)"
proof -
  have x: "hl_ptr s x = Some (first_of zs)" "x \<noteq> NULL" using hlist_ptr [OF h, of "us @ [a]" x zs] e by simp_all
  have a: "a \<noteq> NULL" "a \<in> dom (hl_ptr s)" using hlist_ptr [OF h e] by auto
  have "set zs \<subseteq> set xs" using e by (cases us) auto
  then show ?thesis using x a hlist_pprev [OF h e] hlist_dom(3) [OF h]
    by (cases zs) (auto simp: uu_hlist_del_def heap_simps)
qed

lemma del_init_repr:
  assumes h: "hlist s p (ys @ x # zs)"
  shows "\<exists>s'. hlist_del_init x s = Some s' \<and> hlist_del x s = Some s' \<and> hlist s' p (ys @ zs) \<and>
    hlist_unhashed x s' = Some True \<and> frame (set (p # ys @ x # zs)) s s'"
proof -
  define us a where "us = butlast (p # ys)" and "a = last (p # ys)"
  have e: "p # ys @ x # zs = us @ a # x # zs" unfolding us_def a_def by (rule hlist_split) simp
  have e': "p # ys @ zs = us @ a # zs" unfolding us_def a_def
    by (simp add: append_butlast_last_id [symmetric] del: last.simps butlast.simps)
  let ?s1 = "s\<lparr>hl_ptr := (hl_ptr s)(a \<mapsto> first_of zs),
    hl_pprev := if zs = [] then hl_pprev s else (hl_pprev s)(first_of zs \<mapsto> a)\<rparr>"
  let ?s = "?s1\<lparr>hl_ptr := (hl_ptr ?s1)(x \<mapsto> NULL), hl_pprev := (hl_pprev ?s1)(x \<mapsto> NULL)\<rparr>"
  note dom = hlist_dom(3) [OF h]
  have a: "a \<noteq> NULL" "a \<in> dom (hl_ptr s)" "hl_pprev s x = Some a" using hlist_ptr [OF h e] hlist_pprev [OF h e] by auto
  have "hlist_del x s = Some ?s" unfolding hlist_del_def uu_del_eval [OF h e]
    using dom [of x] by (auto simp: heap_simps)
  moreover have "hlist_del_init x s = Some ?s"
    unfolding hlist_del_init_def hlist_unhashed_def INIT_HLIST_NODE_def uu_del_eval [OF h e]
    using dom [of x] a by (auto simp: heap_simps)
  moreover have "hlist ?s p (ys @ zs)" by (rule hlist_remove [OF h e _ _ e']) auto
  moreover have "hlist_unhashed x ?s = Some True" using dom [of x] by (simp add: hlist_unhashed_def heap_simps)
  moreover have "frame (set (p # ys @ x # zs)) s ?s" unfolding e
    using dom a e by (cases zs) (auto simp: frame_def)
  ultimately show ?thesis by blast
qed

lemma hlist_tl: "hlist s p (x # xs) \<Longrightarrow> hlist s x xs"
  by (auto simp: hlist_def)

lemma hlist_first: "hlist s p xs \<Longrightarrow> hl_ptr s p = Some (first_of xs)"
  using hlist_ptr(1) [of s p xs "[]" p xs] by simp

lemma hlist_unique: "hlist s p xs \<Longrightarrow> hlist s p ys \<Longrightarrow> xs = ys"
proof (induction xs arbitrary: p ys)
  case Nil
  then show ?case using hlist_first [OF Nil(1)] hlist_first [OF Nil(2)] hlist_dom(3) [OF Nil(2)]
    by (cases ys) auto
next
  case (Cons x xs)
  then obtain y zs where ys: "ys = y # zs"
    using hlist_first [OF Cons(2)] hlist_first [OF Cons(3)] hlist_dom(3) [OF Cons(2)] by (cases ys) auto
  have "x = y" using hlist_first [OF Cons(2)] hlist_first [OF Cons(3)] ys by simp
  then show ?case using Cons.IH [of x zs] hlist_tl [OF Cons(2)] hlist_tl [of s p y zs] Cons(3) ys by simp
qed

interpretation hl: linked_seq hlist hnode hlist_add_head hlist_del_init hlist_empty
proof (unfold_locales, goal_cases)
  case (1 h p xs n)
  then show ?case using add_head_repr [OF 1] frame_hnode hlist_apart by blast
next
  case (2 h p ys x zs)
  then show ?case using del_init_repr [OF 2] frame_hnode hlist_apart by blast
next
  case (3 h p xs)
  have "hl_ptr h p = Some (first_of xs)" using hlist_ptr(1) [OF 3, of "[]"] by simp
  then show ?case using hlist_dom [OF 3] by (cases xs) (auto simp: hlist_empty_def heap_simps)
next
  case (4 h p xs ys)
  then show ?case by (rule hlist_unique)
qed

lemma add_before_repr:
  assumes h: "hlist s p (ys @ x # zs)" and n: "hnode s n" "n \<notin> set (p # ys @ x # zs)"
  shows "\<exists>s'. hlist_add_before n x s = Some s' \<and> hlist s' p (ys @ n # x # zs) \<and> frame (insert n (set (p # ys @ x # zs))) s s'"
proof -
  define us a where "us = butlast (p # ys)" and "a = last (p # ys)"
  have e: "p # ys @ x # zs = us @ a # x # zs" unfolding us_def a_def by (rule hlist_split) simp
  have e': "p # ys @ n # x # zs = us @ a # n # x # zs" unfolding us_def a_def by (rule hlist_split) simp
  let ?s = "s\<lparr>hl_ptr := (hl_ptr s)(n \<mapsto> x, a \<mapsto> n), hl_pprev := (hl_pprev s)(n \<mapsto> a, x \<mapsto> n)\<rparr>"
  have a: "a \<noteq> NULL" "a \<in> dom (hl_ptr s)" "hl_pprev s x = Some a" using hlist_ptr [OF h e] hlist_pprev [OF h e] by auto
  have x: "x \<noteq> NULL" "x \<in> dom (hl_pprev s)" "x \<noteq> n" using hlist_dom(3) [OF h, of x] n(2) by auto
  have "hlist_add_before n x s = Some ?s" using a x n(1)
    by (auto simp: hlist_add_before_def heap_simps hnode_def)
  moreover have "hlist ?s p (ys @ n # x # zs)"
    by (rule hlist_insert [OF h e n(2) _ _ _ e']) (use n(1) x in \<open>auto simp: hnode_def fun_upd_twist\<close>)
  moreover have "frame (insert n (set (p # ys @ x # zs))) s ?s" unfolding e
    using a x n(1) by (auto simp: frame_def hnode_def)
  ultimately show ?thesis by blast
qed

lemma add_after_repr:
  assumes h: "hlist s p (ys @ x # zs)" and n: "hnode s n" "n \<notin> set (p # ys @ x # zs)"
  shows "\<exists>s'. hlist_add_after x n s = Some s' \<and> hlist s' p (ys @ x # n # zs) \<and> frame (insert n (set (p # ys @ x # zs))) s s'"
proof -
  have e: "p # ys @ x # zs = (p # ys) @ x # zs" by simp
  let ?s = "s\<lparr>hl_ptr := (hl_ptr s)(n \<mapsto> first_of zs, x \<mapsto> n),
    hl_pprev := (if zs = [] then hl_pprev s else (hl_pprev s)(first_of zs \<mapsto> n))(n \<mapsto> x)\<rparr>"
  note x = hlist_ptr [OF h e]
  have z: "z \<noteq> NULL \<and> z \<in> dom (hl_pprev s) \<and> z \<noteq> n \<and> z \<noteq> x" if "z \<in> set zs" for z
    using hlist_dom(3) [OF h, of z] that n(2) h by (auto simp: hlist_def)
  have "hlist_add_after x n s = Some ?s" using x n z [of "hd zs"]
    by (cases zs) (auto simp: hlist_add_after_def heap_simps hnode_def fun_upd_twist domIff)
  moreover have "hlist ?s p (ys @ x # n # zs)"
    by (rule hlist_insert [OF h e n(2)]) (use n(1) in \<open>auto simp: hnode_def\<close>)
  moreover have "frame (insert n (set (p # ys @ x # zs))) s ?s"
    using x n(1) z by (cases zs) (auto simp: frame_def hnode_def)
  ultimately show ?thesis by blast
qed

lemma move_list_repr:
  assumes h: "hlist s p xs" and q: "q \<noteq> NULL" "q \<in> dom (hl_ptr s)" "q \<notin> set (p # xs)"
  shows "\<exists>s'. hlist_move_list p q s = Some s' \<and> hlist s' q xs \<and> hlist s' p [] \<and> frame (insert q (set (p # xs))) s s'"
proof -
  let ?s = "s\<lparr>hl_ptr := (hl_ptr s)(q \<mapsto> first_of xs, p \<mapsto> NULL),
    hl_pprev := if xs = [] then hl_pprev s else (hl_pprev s)(first_of xs \<mapsto> q)\<rparr>"
  note dom = hlist_dom [OF h] and first = hlist_first [OF h]
  have ev: "hlist_move_list p q s = Some ?s" using dom first q
    by (cases xs) (auto simp: hlist_move_list_def heap_simps)
  have "hlist ?s q xs"
  proof (cases xs)
    case Nil
    then show ?thesis using q by (simp add: hlist_def)
  next
    case (Cons x zs)
    have d: "distinct (p # x # zs)" "NULL \<notin> set (p # x # zs)" "links (hl_ptr s) (hl_pprev s) (x # zs)"
        "hl_ptr s (last (x # zs)) = Some NULL"
      using h Cons by (auto simp: hlist_def)
    have "links (hl_ptr ?s) (hl_pprev ?s) (x # zs) = links (hl_ptr s) (hl_pprev s) (x # zs)"
      by (rule links_cong) (use d(1) q Cons in \<open>auto dest: in_set_butlastD simp del: butlast.simps\<close>)
    moreover have "last (x # zs) \<in> set (x # zs)" by (rule last_in_set) simp
    ultimately show ?thesis using d q Cons by (auto simp: hlist_def)
  qed
  moreover have "hlist ?s p []" using dom by (simp add: hlist_def)
  moreover have "frame (insert q (set (p # xs))) s ?s" using dom q by (cases xs) (auto simp: frame_def)
  ultimately show ?thesis using ev by blast
qed

section \<open>Iteration visits the sequence\<close>

lemma hlist_loop_visits:
  assumes "hlist s p xs" and "\<And>x d. x \<in> set xs \<Longrightarrow> body x (s, d) = Some (s, f x d)"
  shows "hlist_loop body (first_of xs) (s, d) = Some (s, fold f xs d)"
  using assms
proof (induction xs arbitrary: p d)
  case Nil
  then show ?case by (simp add: hlist_loop.simps)
next
  case (Cons x xs)
  have "x \<noteq> NULL" "hl_ptr s x = Some (first_of xs)" using hlist_dom(3) [OF Cons(2)] hlist_first [OF hlist_tl [OF Cons(2)]] by auto
  then show ?case using Cons.IH [OF hlist_tl [OF Cons(2)]] Cons(3)
    by (subst hlist_loop.simps) (simp add: heap_simps)
qed

lemma hlist_safe_drain:
  assumes "hlist s p xs" and "\<And>x s d. body x (s, d) = map_option (\<lambda>s. (s, f x d)) (hlist_del x s)"
  shows "\<exists>s'. hlist_safe_loop body (first_of xs) (s, d) = Some (s', fold f xs d) \<and> hlist s' p []"
  using assms(1)
proof (induction xs arbitrary: s d)
  case Nil
  then show ?case by (simp add: hlist_safe_loop.simps)
next
  case (Cons x xs)
  have x: "x \<noteq> NULL" "hl_ptr s x = Some (first_of xs)" using hlist_dom(3) [OF Cons(2)] hlist_first [OF hlist_tl [OF Cons(2)]] by auto
  obtain s1 where s1: "hlist_del x s = Some s1" "hlist s1 p xs" using del_init_repr [of s p "[]" x xs] Cons(2) by auto
  then show ?case using Cons.IH [OF s1(2)] x assms(2) by (subst hlist_safe_loop.simps) (simp add: heap_simps)
qed

end
