(* ===== verification/Hlist_Props.thy ===== *)
theory Hlist_Props
  imports Hlist
begin

text \<open>
  What \<^verbatim>\<open>hlist.h\<close> promises: the operations on the sequence of nodes under a head, and the iteration
  macros.
\<close>

definition ex_hl :: hlist_mem where
  "ex_hl = \<lparr>hl_ptr = [16 \<mapsto> 32, 32 \<mapsto> 48, 48 \<mapsto> NULL, 64 \<mapsto> NULL, 80 \<mapsto> NULL],
     hl_pprev = [32 \<mapsto> 16, 48 \<mapsto> 32, 64 \<mapsto> NULL]\<rparr>"

lemma ex_hl_list: "hlist ex_hl 16 [32, 48]" "hlist ex_hl 16 ([32] @ 48 # [])" "hnode ex_hl 64"
  by (simp_all add: hlist_def hnode_def ex_hl_def)



text \<open>
  hlist_for_each visits the nodes in order and hlist_for_each_entry the structs around them,
  and both end; hlist_for_each_safe tolerates a body that deletes the node it is given, visits every
  node all the same and leaves the list empty.
\<close>

theorem hlist_iteration:
  assumes "hlist s p xs"
  shows "hlist_for_each (\<lambda>x (s, d). Some (s, f x d)) p (s, d) = Some (s, fold f xs d) \<and>
    hlist_for_each_entry off (\<lambda>x (s, d). Some (s, f x d)) p (s, d) = Some (s, fold f (map (\<lambda>x. x - off) xs) d) \<and>
    (\<exists>s'. hlist_for_each_safe (\<lambda>x (s, d). map_option (\<lambda>s. (s, f x d)) (hlist_del x s)) p (s, d) = Some (s', fold f xs d) \<and>
       hlist s' p [])"
proof (intro conjI)
  have first: "ptr_get p s = Some (first_of xs)" using hlist_first [OF assms] hlist_dom(1) [OF assms] by (simp add: heap_simps)
  show "hlist_for_each (\<lambda>x (s, d). Some (s, f x d)) p (s, d) = Some (s, fold f xs d)"
    using hlist_loop_visits [OF assms, of "\<lambda>x (s, d). Some (s, f x d)" f] first by (simp add: hlist_for_each_def)
  show "hlist_for_each_entry off (\<lambda>x (s, d). Some (s, f x d)) p (s, d) = Some (s, fold f (map (\<lambda>x. x - off) xs) d)"
    using hlist_loop_visits [OF assms, of "\<lambda>x (s, d). Some (s, f (x - off) d)" "\<lambda>x. f (x - off)"] first
    by (simp add: hlist_for_each_entry_def hlist_entry_def fold_map comp_def)
  show "\<exists>s'. hlist_for_each_safe (\<lambda>x (s, d). map_option (\<lambda>s. (s, f x d)) (hlist_del x s)) p (s, d) = Some (s', fold f xs d) \<and> hlist s' p []"
    using hlist_safe_drain [OF assms, of "\<lambda>x (s, d). map_option (\<lambda>s. (s, f x d)) (hlist_del x s)" f] first
    by (simp add: hlist_for_each_safe_def)
qed

theorem hlist_iteration_witness:
  "hlist_for_each (\<lambda>x (s, d). Some (s, d @ [x])) 16 (ex_hl, []) = Some (ex_hl, [32, 48])"
  using hlist_iteration [OF ex_hl_list(1), of "\<lambda>x d. d @ [x]" "[]"] by simp

end
