(* ===== verification/Htable.thy ===== *)
theory Htable
  imports Hlist Hash
begin

text \<open>
  \<^verbatim>\<open>include/htable.h\<close>: the intrusive hash table with a Bloom filter. The list node is the first member
  of \<^verbatim>\<open>struct htable_entry\<close>, so an entry and its node have one address; the head of bucket \<open>i\<close> is at
  \<^verbatim>\<open>bucks + 8 i\<close>. The state holds the bucket lists (\<open>Hlist\<close>), the other members of the entries, the
  memory of the keys and of the bit vectors. \<^verbatim>\<open>malloc\<close> is an argument: the address it returned, and what
  the memory there held.
\<close>

section \<open>State\<close>

record htable_entry =
  key :: addr
  len :: u64
  hash :: u32

record htable =
  bucks :: addr
  size :: u64
  count :: u64
  bitvect :: addr

record ht_state =
  ht_lists :: hlist_mem
  ht_entries :: "htable_entry heap"
  ht_keys :: "addr \<rightharpoonup> u8 list"
  ht_bits :: "addr \<rightharpoonup> u8 list"

definition on_lists :: "(hlist_mem \<Rightarrow> hlist_mem option) \<Rightarrow> ht_state \<Rightarrow> ht_state option" where
  "on_lists f s = map_option (\<lambda>l. s\<lparr>ht_lists := l\<rparr>) (f (ht_lists s))"

definition read_key :: "addr \<Rightarrow> u64 \<Rightarrow> ht_state \<Rightarrow> u8 list option" where
  "read_key k n s = (case ht_keys s k of None \<Rightarrow> None
     | Some bs \<Rightarrow> if unat n \<le> length bs then Some (take (unat n) bs) else None)"

definition memcmp_zero :: "addr \<Rightarrow> addr \<Rightarrow> u64 \<Rightarrow> ht_state \<Rightarrow> bool option" where
  "memcmp_zero p q n s = do { a \<leftarrow> read_key p n s; b \<leftarrow> read_key q n s; Some (a = b) }"

section \<open>The Bloom filter\<close>

definition bloom_init :: "addr \<Rightarrow> ht_state \<Rightarrow> ht_state option" where
  "bloom_init v s = (if v = NULL then None
     else Some (s\<lparr>ht_bits := (ht_bits s)(v \<mapsto> replicate 32 0)\<rparr>))"

definition bloom_finit :: "addr \<Rightarrow> ht_state \<Rightarrow> ht_state" where
  "bloom_finit v s = s\<lparr>ht_bits := (ht_bits s)(v := None)\<rparr>"

definition bloom_set_bit :: "addr \<Rightarrow> u32 \<Rightarrow> ht_state \<Rightarrow> ht_state option" where
  "bloom_set_bit v idx s = (case ht_bits s v of None \<Rightarrow> None
     | Some bs \<Rightarrow> (let i = unat idx div 8 in if i < length bs
         then Some (s\<lparr>ht_bits := (ht_bits s)(v \<mapsto> bs[i := bs ! i OR push_bit (unat idx mod 8) 1])\<rparr>) else None))"

definition bloom_test_bit :: "addr \<Rightarrow> u32 \<Rightarrow> ht_state \<Rightarrow> bool option" where
  "bloom_test_bit v idx s = (case ht_bits s v of None \<Rightarrow> None
     | Some bs \<Rightarrow> (let i = unat idx div 8 in if i < length bs
         then Some (bs ! i AND push_bit (unat idx mod 8) 1 \<noteq> 0) else None))"

definition bloom_set :: "addr \<Rightarrow> u32 \<Rightarrow> ht_state \<Rightarrow> ht_state option" where
  "bloom_set v h s = bloom_set_bit v (h AND (push_bit 8 1 - 1)) s"

definition bloom_test :: "addr \<Rightarrow> u32 \<Rightarrow> ht_state \<Rightarrow> bool option" where
  "bloom_test v h s = bloom_test_bit v (h AND (push_bit 8 1 - 1)) s"

section \<open>Tables\<close>

definition HASH_NUM_BUCKETS :: u64 where "HASH_NUM_BUCKETS = 16"

definition HASH_BUCKET_THRESH :: u64 where "HASH_BUCKET_THRESH = 10"

definition htable_which_bucket :: "htable \<Rightarrow> u32 \<Rightarrow> u32" where
  "htable_which_bucket t h = ucast (ucast h AND (size t - 1))"

definition buck_addr :: "htable \<Rightarrow> nat \<Rightarrow> addr" where
  "buck_addr t i = bucks t + 8 * of_nat i"

definition INIT_HTABLE_ENTRY :: "addr \<Rightarrow> addr \<Rightarrow> u64 \<Rightarrow> ht_state \<Rightarrow> ht_state option" where
  "INIT_HTABLE_ENTRY entry k n s = do {
     s \<leftarrow> on_lists (INIT_HLIST_NODE entry) s;
     es \<leftarrow> modf (\<lambda>e. e\<lparr>key := k, len := n\<rparr>) entry (ht_entries s);
     Some (s\<lparr>ht_entries := es\<rparr>) }"

definition malloc_heads :: "addr \<Rightarrow> (nat \<Rightarrow> addr) \<Rightarrow> nat \<Rightarrow> ht_state \<Rightarrow> ht_state" where
  "malloc_heads b junk n s = s\<lparr>ht_lists := (ht_lists s)\<lparr>hl_ptr := hl_ptr (ht_lists s) ++
     map_of (map (\<lambda>i. (b + 8 * of_nat i, junk i)) [0..<n])\<rparr>\<rparr>"

definition init_heads :: "htable \<Rightarrow> ht_state \<Rightarrow> ht_state option" where
  "init_heads t s = for_up 0 (unat (size t)) (\<lambda>i s. on_lists (INIT_HLIST_HEAD (buck_addr t i)) s) s"

text \<open>
  The result is the return code with the table, \<open>-1\<close> for a null table pointer. \<open>b\<close> and \<open>v\<close> are the results
  of the two calls of \<^verbatim>\<open>malloc\<close>; the assertions abort for a null result.
\<close>

definition htable_init_size :: "u64 \<Rightarrow> addr \<Rightarrow> addr \<Rightarrow> (nat \<Rightarrow> addr) \<Rightarrow> htable option \<Rightarrow> ht_state \<Rightarrow>
    (int \<times> htable option \<times> ht_state) option" where
  "htable_init_size n b v junk table s = (case table of None \<Rightarrow> Some (- 1, None, s)
     | Some t \<Rightarrow>
         if b = NULL then None
         else let t = t\<lparr>size := n, bucks := b\<rparr> in do {
           s \<leftarrow> init_heads t (malloc_heads b junk (unat n) s);
           s \<leftarrow> bloom_init v s;
           Some (0, Some (t\<lparr>count := 0, bitvect := v\<rparr>), s) })"

definition htable_init :: "addr \<Rightarrow> addr \<Rightarrow> (nat \<Rightarrow> addr) \<Rightarrow> htable option \<Rightarrow> ht_state \<Rightarrow>
    (int \<times> htable option \<times> ht_state) option" where
  "htable_init b v junk table s = htable_init_size HASH_NUM_BUCKETS b v junk table s"

definition htable_init_n :: "u64 \<Rightarrow> addr \<Rightarrow> addr \<Rightarrow> (nat \<Rightarrow> addr) \<Rightarrow> htable option \<Rightarrow> ht_state \<Rightarrow>
    (int \<times> htable option \<times> ht_state) option" where
  "htable_init_n n b v junk table s =
     htable_init_size (if n > 0 then n else HASH_BUCKET_THRESH) b v junk table s"

text \<open>\<^verbatim>\<open>htable_destroy\<close> reads \<^verbatim>\<open>table->bitvect\<close> also when the table pointer is null.\<close>

definition htable_destroy :: "htable option \<Rightarrow> ht_state \<Rightarrow> ht_state option" where
  "htable_destroy table s = (case table of None \<Rightarrow> None
     | Some t \<Rightarrow>
         let s = (if bucks t \<noteq> NULL
           then s\<lparr>ht_lists := (ht_lists s)\<lparr>hl_ptr := hl_ptr (ht_lists s) |`
                    (- set (map (buck_addr t) [0..<unat (size t)]))\<rparr>\<rparr>
           else s)
         in Some (bloom_finit (bitvect t) s))"

definition key_hash :: "addr \<Rightarrow> u64 \<Rightarrow> ht_state \<Rightarrow> u32 option" where
  "key_hash k n s = do { bs \<leftarrow> read_key k n s; jhash bs (ucast n) 0 }"

definition htable_add :: "htable \<Rightarrow> addr \<Rightarrow> addr \<Rightarrow> u64 \<Rightarrow> ht_state \<Rightarrow> (htable \<times> ht_state) option" where
  "htable_add t entry k n s = do {
     s \<leftarrow> INIT_HTABLE_ENTRY entry k n s;
     h \<leftarrow> key_hash k n s;
     let buck = htable_which_bucket t h;
     s \<leftarrow> on_lists (hlist_add_head entry (buck_addr t (unat buck))) s;
     s \<leftarrow> bloom_set (bitvect t) h s;
     Some (t\<lparr>count := count t + 1\<rparr>, s) }"

text \<open>The loop \<^verbatim>\<open>hlist_for_each_entry\<close> of \<^verbatim>\<open>htable_find\<close>, which returns from its body.\<close>

partial_function (option) find_loop :: "addr \<Rightarrow> u64 \<Rightarrow> ht_state \<Rightarrow> addr \<Rightarrow> addr option" where
  "find_loop k n s pos =
     (if pos \<noteq> NULL then do {
        e \<leftarrow> deref (ht_entries s) (hlist_entry pos 0);
        m \<leftarrow> (if len e = n then memcmp_zero (key e) k n s else Some False);
        if m then Some (hlist_entry pos 0)
        else do { p \<leftarrow> ptr_get pos (ht_lists s); find_loop k n s p } }
      else Some NULL)"

definition htable_find :: "htable \<Rightarrow> addr \<Rightarrow> u64 \<Rightarrow> ht_state \<Rightarrow> addr option" where
  "htable_find t k n s = do {
     h \<leftarrow> key_hash k n s;
     let buck = htable_which_bucket t h;
     b \<leftarrow> bloom_test (bitvect t) h s;
     if b then do {
       e \<leftarrow> hlist_empty (buck_addr t (unat buck)) (ht_lists s);
       if \<not> e then do {
         f \<leftarrow> ptr_get (buck_addr t (unat buck)) (ht_lists s);
         find_loop k n s f }
       else Some NULL }
     else Some NULL }"

definition htable_del_key :: "htable \<Rightarrow> addr \<Rightarrow> u64 \<Rightarrow> ht_state \<Rightarrow> (addr \<times> htable \<times> ht_state) option" where
  "htable_del_key t k n s = do {
     entry \<leftarrow> htable_find t k n s;
     if entry \<noteq> NULL then do {
       s \<leftarrow> on_lists (hlist_del_init entry) s;
       Some (entry, t\<lparr>count := count t - 1\<rparr>, s) }
     else Some (NULL, t, s) }"

definition htable_del_entry :: "htable \<Rightarrow> addr \<Rightarrow> ht_state \<Rightarrow> (addr \<times> htable \<times> ht_state) option" where
  "htable_del_entry t entry s = do {
     e \<leftarrow> deref (ht_entries s) entry;
     htable_del_key t (key e) (len e) s }"

definition hash_entry :: "addr \<Rightarrow> u64 \<Rightarrow> addr" where
  "hash_entry ptr off = ptr - off"

definition hash_find_entry :: "htable \<Rightarrow> addr \<Rightarrow> u64 \<Rightarrow> u64 \<Rightarrow> ht_state \<Rightarrow> addr option" where
  "hash_find_entry t k n off s = do {
     e \<leftarrow> htable_find t k n s;
     Some (if e \<noteq> NULL then hash_entry e off else NULL) }"

section \<open>Iteration\<close>

text \<open>
  The nested loops over the buckets and their lists; the table is not changed by the body, the
  lists and the caller's data may be.
\<close>

definition buckets_loop :: "htable \<Rightarrow> (addr \<Rightarrow> hlist_mem \<times> 'd \<Rightarrow> (hlist_mem \<times> 'd) option) \<Rightarrow>
    hlist_mem \<times> 'd \<Rightarrow> (hlist_mem \<times> 'd) option" where
  "buckets_loop t inner st = for_up 0 (unat (size t)) (\<lambda>i st. do {
     f \<leftarrow> ptr_get (buck_addr t i) (fst st);
     inner (hlist_entry f 0) st }) st"

definition htable_for_each :: "htable \<Rightarrow> 'd hlist_body \<Rightarrow> hlist_mem \<times> 'd \<Rightarrow> (hlist_mem \<times> 'd) option" where
  "htable_for_each t body st = buckets_loop t (hlist_loop body) st"

definition htable_for_each_safe :: "htable \<Rightarrow> 'd hlist_body \<Rightarrow> hlist_mem \<times> 'd \<Rightarrow> (hlist_mem \<times> 'd) option" where
  "htable_for_each_safe t body st = buckets_loop t (hlist_safe_loop body) st"

definition htable_for_each_entry :: "htable \<Rightarrow> u64 \<Rightarrow> 'd hlist_body \<Rightarrow> hlist_mem \<times> 'd \<Rightarrow> (hlist_mem \<times> 'd) option" where
  "htable_for_each_entry t off body st = buckets_loop t (hlist_loop (\<lambda>pos. body (hash_entry pos off))) st"

definition htable_for_each_entry_safe :: "htable \<Rightarrow> u64 \<Rightarrow> 'd hlist_body \<Rightarrow> hlist_mem \<times> 'd \<Rightarrow> (hlist_mem \<times> 'd) option" where
  "htable_for_each_entry_safe t off body st = buckets_loop t (hlist_safe_loop (\<lambda>pos. body (hash_entry pos off))) st"

end
