(* ===== verification/Htable_Props.thy ===== *)
theory Htable_Props
  imports Htable Hash_Props
begin

text \<open>
  The hash table as a collection of entries with keys: the invariant of a table, that every operation
  keeps it, and what lookup, insertion and removal do. The bucket lists are used through the contract
  of \<open>Linked_Seq\<close>, interpreted on the lists of \<open>Hlist\<close>.
\<close>

section \<open>Invariant\<close>

definition heads :: "htable \<Rightarrow> addr list" where
  "heads t = map (buck_addr t) [0..<unat (size t)]"

definition key_at :: "ht_state \<Rightarrow> addr \<Rightarrow> u8 list option" where
  "key_at s e = (case ht_entries s e of None \<Rightarrow> None | Some r \<Rightarrow> read_key (key r) (len r) s)"

definition entry_ok :: "htable \<Rightarrow> ht_state \<Rightarrow> nat \<Rightarrow> addr \<Rightarrow> bool" where
  "entry_ok t s i e \<longleftrightarrow> (\<exists>r h. ht_entries s e = Some r \<and> key_hash (key r) (len r) s = Some h \<and>
     unat (htable_which_bucket t h) = i \<and> bloom_test (bitvect t) h s = Some True)"

definition table_inv :: "htable \<Rightarrow> ht_state \<Rightarrow> addr list list \<Rightarrow> bool" where
  "table_inv t s xss \<longleftrightarrow> 0 < size t \<and> hl.repr_all (ht_lists s) (heads t) xss \<and>
     (\<forall>i < length xss. \<forall>e \<in> set (xss ! i). entry_ok t s i e) \<and>
     count t = of_nat (length (concat xss)) \<and> (\<exists>bv. ht_bits s (bitvect t) = Some bv \<and> length bv = 32)"

section \<open>Keys, buckets and the filter\<close>

lemma bucket_lt:
  assumes "0 < size t"
  shows "unat (htable_which_bucket t h) < unat (size t)"
proof -
  have "ucast h AND (size t - 1) \<le> size t - 1" by (rule word_and_le1)
  then have "unat (ucast h AND (size t - 1)) \<le> unat (size t - 1)" by (simp add: word_le_nat_alt)
  also have "unat (size t - 1) < unat (size t)" using assms by (simp add: unat_minus_one word_gt_0 unat_gt_0)
  finally have "unat (ucast h AND (size t - 1)) < unat (size t)" .
  moreover have "unat (htable_which_bucket t h) \<le> unat (ucast h AND (size t - 1) :: u64)"
    unfolding htable_which_bucket_def by (simp add: unsigned_ucast_eq take_bit_nat_less_eq_self)
  ultimately show ?thesis by simp
qed

lemma read_key_len:
  assumes "read_key k n s = Some bs"
  shows "length bs = unat n"
  using assms by (auto simp: read_key_def split: option.splits if_splits)

lemma key_hash_same:
  assumes "read_key k n s = Some bs" and "read_key k' n' s = Some bs"
  shows "n' = n" and "key_hash k' n' s = key_hash k n s"
proof -
  have "unat n' = unat n" using assms [THEN read_key_len] by simp
  then show "n' = n" by (rule unsigned_word_eqI)
  then show "key_hash k' n' s = key_hash k n s" using assms by (simp add: key_hash_def)
qed

lemma key_hash_total:
  assumes "read_key k n s = Some bs"
  obtains h where "key_hash k n s = Some h"
proof -
  have "unat (ucast n :: u32) \<le> length bs" using read_key_len [OF assms]
    by (simp add: unsigned_ucast_eq take_bit_nat_less_eq_self)
  then obtain h where "jhash bs (ucast n) 0 = Some h" using jhash_total by blast
  then show ?thesis using that assms by (simp add: key_hash_def)
qed

lemma bloom_index: "unat (h AND (push_bit 8 1 - 1) :: u32) div 8 < 32"
proof -
  have "h AND (push_bit 8 1 - 1) = h AND mask 8" by (simp add: mask_eq_exp_minus_1)
  then have "unat (h AND (push_bit 8 1 - 1)) = unat h mod 256" by (simp add: unat_and_mask)
  then show ?thesis by (simp add: less_mult_imp_div_less)
qed

lemma bloom_test_total:
  assumes "ht_bits s v = Some bv" and "length bv = 32"
  shows "\<exists>b. bloom_test v h s = Some b"
  using assms bloom_index [of h] by (simp add: bloom_test_def bloom_test_bit_def Let_def)

lemma bloom_set_spec:
  assumes "ht_bits s v = Some bv" and "length bv = 32"
  shows "\<exists>bv'. bloom_set v h s = Some (s\<lparr>ht_bits := (ht_bits s)(v \<mapsto> bv')\<rparr>) \<and> length bv' = 32 \<and>
    bloom_test v h (s\<lparr>ht_bits := (ht_bits s)(v \<mapsto> bv')\<rparr>) = Some True \<and>
    (\<forall>h'. bloom_test v h' s = Some True \<longrightarrow> bloom_test v h' (s\<lparr>ht_bits := (ht_bits s)(v \<mapsto> bv')\<rparr>) = Some True)"
proof -
  let ?j = "unat (h AND (push_bit 8 1 - 1))"
  let ?b = "bv[?j div 8 := bv ! (?j div 8) OR push_bit (?j mod 8) 1]"
  have j: "?j div 8 < length bv" using bloom_index [of h] assms(2) by simp
  have one: "w AND push_bit n 1 \<noteq> 0 \<longleftrightarrow> bit w n" if "n < 8" for w :: u8 and n
    using that by (auto simp: word_neq0_bit bit_and_iff)
  have m: "i mod 8 < 8" for i :: nat by simp
  have nz: "push_bit n 1 \<noteq> (0 :: u8)" if "n < 8" for n using one [of n "push_bit n 1"] that by (simp add: bit_push_bit_iff)
  have "bloom_set v h s = Some (s\<lparr>ht_bits := (ht_bits s)(v \<mapsto> ?b)\<rparr>)"
    using assms(1) j by (simp add: bloom_set_def bloom_set_bit_def Let_def)
  moreover have "bloom_test v h (s\<lparr>ht_bits := (ht_bits s)(v \<mapsto> ?b)\<rparr>) = Some True"
    using j m [of ?j] by (simp add: bloom_test_def bloom_test_bit_def Let_def nz del: push_bit_of_1)
  moreover have "bloom_test v h' (s\<lparr>ht_bits := (ht_bits s)(v \<mapsto> ?b)\<rparr>) = Some True" if "bloom_test v h' s = Some True" for h'
    using that assms j by (auto simp: bloom_test_def bloom_test_bit_def Let_def one bit_or_iff nth_list_update
        simp del: push_bit_of_1 split: if_splits)
  ultimately show ?thesis using assms(2) by (intro exI [of _ ?b]) simp
qed

section \<open>Lookup\<close>

lemma find_loop_spec:
  assumes "hlist (ht_lists s) p xs" and "read_key k n s = Some kb"
    and "\<And>x. x \<in> set xs \<Longrightarrow> key_at s x \<noteq> None"
  shows "find_loop k n s (first_of xs) = Some (first_of (filter (\<lambda>e. key_at s e = Some kb) xs))"
  using assms(1,3)
proof (induction xs arbitrary: p)
  case Nil
  then show ?case by (simp add: find_loop.simps)
next
  case (Cons x xs)
  have x: "x \<noteq> NULL" "hl_ptr (ht_lists s) x = Some (first_of xs)"
    using hlist_dom(3) [OF Cons(2)] hlist_first [OF hlist_tl [OF Cons(2)]] by auto
  obtain r bs where r: "ht_entries s x = Some r" "read_key (key r) (len r) s = Some bs"
    using Cons(3) [of x] by (auto simp: key_at_def split: option.splits)
  have m: "(if len r = n then memcmp_zero (key r) k n s else Some False) = Some (key_at s x = Some kb)"
    using r assms(2) key_hash_same(1) [OF assms(2), of "key r" "len r"] by (auto simp: memcmp_zero_def key_at_def)
  show ?case using Cons.IH [OF hlist_tl [OF Cons(2)]] Cons(3) x r(1) m
    by (subst find_loop.simps) (simp add: deref_def hlist_entry_def heap_simps)
qed

lemma inv_bucket:
  assumes "table_inv t s xss" and "i < unat (size t)"
  shows "hlist (ht_lists s) (buck_addr t i) (xss ! i)" and "length xss = unat (size t)"
  using assms by (auto simp: table_inv_def hl.repr_all_def heads_def)

lemma entry_key:
  assumes "entry_ok t s i e"
  shows "key_at s e \<noteq> None"
  using assms by (auto simp: entry_ok_def key_at_def key_hash_def bind_eq_Some_conv)

lemma entry_match:
  assumes "entry_ok t s i e" and "key_at s e = Some kb" and "read_key k n s = Some kb" and "key_hash k n s = Some h"
  shows "i = unat (htable_which_bucket t h)" and "bloom_test (bitvect t) h s = Some True"
proof -
  obtain r h' where r: "ht_entries s e = Some r" "key_hash (key r) (len r) s = Some h'"
      "unat (htable_which_bucket t h') = i" "bloom_test (bitvect t) h' s = Some True"
    using assms(1) by (auto simp: entry_ok_def)
  have "h' = h" using key_hash_same(2) [OF assms(3), of "key r" "len r"] assms(2,4) r by (simp add: key_at_def)
  then show "i = unat (htable_which_bucket t h)" and "bloom_test (bitvect t) h s = Some True" using r by simp_all
qed

lemma filter_concat_one:
  assumes "i < length xss" and "\<And>j. j < length xss \<Longrightarrow> j \<noteq> i \<Longrightarrow> filter P (xss ! j) = []"
  shows "filter P (concat xss) = filter P (xss ! i)"
proof -
  have "xss = take i xss @ xss ! i # drop (Suc i) xss" using assms(1) by (rule id_take_nth_drop)
  moreover have "filter P ys = []" if "ys \<in> set (take i xss)" for ys
    using that assms by (auto simp: in_set_conv_nth)
  moreover have "filter P ys = []" if ys: "ys \<in> set (drop (Suc i) xss)" for ys
  proof -
    obtain j where "j < length xss - Suc i" "ys = xss ! (Suc i + j)" using ys by (auto simp: in_set_conv_nth)
    then show ?thesis using assms(2) [of "Suc i + j"] by simp
  qed
  ultimately have "xss = take i xss @ xss ! i # drop (Suc i) xss" "filter P (concat (take i xss)) = []"
      "filter P (concat (drop (Suc i) xss)) = []"
    by (auto simp: filter_concat)
  then have "filter P (concat xss) = filter P (concat (take i xss @ xss ! i # drop (Suc i) xss))" by simp
  then show ?thesis using \<open>filter P (concat (take i xss)) = []\<close> \<open>filter P (concat (drop (Suc i) xss)) = []\<close> by simp
qed

lemma matches_in_bucket:
  assumes inv: "table_inv t s xss" and k: "read_key k n s = Some kb" "key_hash k n s = Some h"
  shows "filter (\<lambda>e. key_at s e = Some kb) (concat xss) =
    filter (\<lambda>e. key_at s e = Some kb) (xss ! unat (htable_which_bucket t h))"
proof (rule filter_concat_one)
  have sz: "0 < size t" using inv by (simp add: table_inv_def)
  show "unat (htable_which_bucket t h) < length xss"
    using bucket_lt [OF sz] inv_bucket(2) [OF inv] sz by (metis unat_gt_0 word_gt_0)
next
  fix j assume j: "j < length xss" "j \<noteq> unat (htable_which_bucket t h)"
  have "entry_ok t s j e" if "e \<in> set (xss ! j)" for e using inv j(1) that by (simp add: table_inv_def)
  then show "filter (\<lambda>e. key_at s e = Some kb) (xss ! j) = []"
    using entry_match(1) [OF _ _ k] j(2) by (auto simp: filter_empty_conv)
qed

lemma find_spec:
  assumes inv: "table_inv t s xss" and k: "read_key k n s = Some kb"
  shows "htable_find t k n s = Some (first_of (filter (\<lambda>e. key_at s e = Some kb) (concat xss)))"
proof -
  obtain h where h: "key_hash k n s = Some h" using k by (rule key_hash_total)
  define i where "i = unat (htable_which_bucket t h)"
  have i: "i < unat (size t)" unfolding i_def using inv by (intro bucket_lt) (simp add: table_inv_def)
  note b = inv_bucket [OF inv i]
  have ok: "entry_ok t s i e" if "e \<in> set (xss ! i)" for e using inv i b(2) that by (simp add: table_inv_def)
  obtain bv where "ht_bits s (bitvect t) = Some bv" "length bv = 32" using inv by (auto simp: table_inv_def)
  then obtain bl where bl: "bloom_test (bitvect t) h s = Some bl" using bloom_test_total by blast
  have none: "filter (\<lambda>e. key_at s e = Some kb) (xss ! i) = []" if "\<not> bl"
    using entry_match(2) [OF ok _ k h] bl that by (auto simp: filter_empty_conv)
  have empty: "hlist_empty (buck_addr t i) (ht_lists s) = Some (xss ! i = [])" using b(1) by (rule hl.is_empty_repr)
  have "find_loop k n s (first_of (xss ! i)) = Some (first_of (filter (\<lambda>e. key_at s e = Some kb) (xss ! i)))"
    using b(1) k by (rule find_loop_spec) (use ok entry_key in blast)
  then show ?thesis unfolding matches_in_bucket [OF inv k h] i_def [symmetric] htable_find_def
    using h bl none empty hlist_first [OF b(1)] hlist_dom(1) [OF b(1)]
    by (auto simp: i_def [symmetric] Let_def heap_simps)
qed

section \<open>Insertion\<close>

lemma read_key_cong: "ht_keys s' = ht_keys s \<Longrightarrow> read_key k n s' = read_key k n s"
  and key_hash_cong: "ht_keys s' = ht_keys s \<Longrightarrow> key_hash k n s' = key_hash k n s"
  by (simp_all add: read_key_def key_hash_def)

lemma repr_all_frame:
  assumes "hl.repr_all l ps xss" and "frame {n} l l'" and "\<And>j. j < length ps \<Longrightarrow> n \<notin> set (ps ! j # xss ! j)"
  shows "hl.repr_all l' ps xss"
  using assms hlist_apart [OF _ assms(2)] unfolding hl.repr_all_def by blast

lemma init_node_frame:
  assumes "hnode l n"
  shows "\<exists>l'. INIT_HLIST_NODE n l = Some l' \<and> frame {n} l l'"
  using assms by (auto simp: INIT_HLIST_NODE_def heap_simps hnode_def frame_def)

lemma length_concat_update:
  assumes "i < length xss"
  shows "length (concat (xss[i := ys])) + length (xss ! i) = length (concat xss) + length ys"
proof -
  have "xss = take i xss @ xss ! i # drop (Suc i) xss" using assms by (rule id_take_nth_drop)
  then have "length (concat xss) = length (concat (take i xss @ xss ! i # drop (Suc i) xss))" by simp
  moreover have "xss[i := ys] = take i xss @ ys # drop (Suc i) xss" using assms by (rule upd_conv_take_nth_drop)
  ultimately show ?thesis by simp
qed

lemma table_inv_update:
  assumes inv: "table_inv t s xss" and i: "i < length xss" and l: "hl.repr_all (ht_lists s') (heads t) (xss[i := ys])"
    and new: "\<And>x. x \<in> set ys \<Longrightarrow> entry_ok t s' i x"
    and old: "\<And>j x. j < length xss \<Longrightarrow> j \<noteq> i \<Longrightarrow> x \<in> set (xss ! j) \<Longrightarrow> entry_ok t s' j x"
    and bits: "ht_bits s' (bitvect t) = Some bv" "length bv = 32" and c: "c = of_nat (length (concat (xss[i := ys])))"
  shows "table_inv (t\<lparr>count := c\<rparr>) s' (xss[i := ys])"
proof -
  have ok: "entry_ok (t\<lparr>count := c\<rparr>) s' j x \<longleftrightarrow> entry_ok t s' j x" for j x c by (simp add: entry_ok_def htable_which_bucket_def)
  have "heads (t\<lparr>count := c\<rparr>) = heads t" by (simp add: heads_def buck_addr_def)
  moreover have "entry_ok t s' j x" if "j < length xss" "x \<in> set (xss[i := ys] ! j)" for j x
    using that new old i by (cases "j = i") auto
  ultimately show ?thesis using inv l bits c by (simp add: table_inv_def ok)
qed

lemma add_lists:
  assumes ra: "hl.repr_all l hs xss" and i: "i < length hs" and e: "hnode l e" "e \<notin> set hs" "e \<notin> set (concat xss)"
  obtains l1 l2 where "INIT_HLIST_NODE e l = Some l1" and "hlist_add_head e (hs ! i) l1 = Some l2"
    and "hl.repr_all l2 hs (xss[i := e # xss ! i])"
proof -
  have fresh: "e \<notin> set (hs ! j # xss ! j)" if "j < length hs" for j
    using e(2,3) that ra by (auto simp: in_set_conv_nth hl.repr_all_def) (metis nth_mem)
  obtain l1 where l1: "INIT_HLIST_NODE e l = Some l1" "frame {e} l l1" using init_node_frame [OF e(1)] by blast
  have r1: "hl.repr_all l1 hs xss" using ra l1(2) fresh by (rule repr_all_frame)
  have u1: "hnode l1 e" using e(1) frame_hnode [OF l1(2)] by simp
  show thesis using hl.push_all [OF r1 _ u1 fresh, of i] i l1(1) that by auto
qed

lemma add_spec:
  assumes inv: "table_inv t s xss" and k: "read_key k n s = Some kb"
    and e: "hnode (ht_lists s) e" "e \<in> dom (ht_entries s)" "e \<notin> set (heads t)" "e \<notin> set (concat xss)"
  shows "\<exists>t' s' i. htable_add t e k n s = Some (t', s') \<and> i < length xss \<and>
    table_inv t' s' (xss[i := e # xss ! i]) \<and> ht_keys s' = ht_keys s \<and>
    key_at s' e = Some kb \<and> (\<forall>x. x \<noteq> e \<longrightarrow> key_at s' x = key_at s x)"
proof -
  obtain h where h: "key_hash k n s = Some h" using k by (rule key_hash_total)
  define i where "i = unat (htable_which_bucket t h)"
  have i: "i < unat (size t)" unfolding i_def using inv by (intro bucket_lt) (simp add: table_inv_def)
  have il: "i < length xss" "heads t ! i = buck_addr t i" "i < length (heads t)"
    using inv_bucket(2) [OF inv i] i by (simp_all add: heads_def)
  have ra: "hl.repr_all (ht_lists s) (heads t) xss" using inv by (simp add: table_inv_def)
  obtain l1 l2 where l: "INIT_HLIST_NODE e (ht_lists s) = Some l1" "hlist_add_head e (buck_addr t i) l1 = Some l2"
      "hl.repr_all l2 (heads t) (xss[i := e # xss ! i])"
    using add_lists [OF ra il(3) e(1,3,4)] unfolding il(2) by blast
  obtain r where r: "ht_entries s e = Some r" "e \<noteq> NULL" using e(1,2) by (auto simp: hnode_def)
  define s2 where "s2 = s\<lparr>ht_entries := (ht_entries s)(e \<mapsto> r\<lparr>key := k, len := n\<rparr>), ht_lists := l2\<rparr>"
  obtain bv where bv: "ht_bits s2 (bitvect t) = Some bv" "length bv = 32" using inv by (auto simp: table_inv_def s2_def)
  obtain bv' where b: "bloom_set (bitvect t) h s2 = Some (s2\<lparr>ht_bits := (ht_bits s2)(bitvect t \<mapsto> bv')\<rparr>)" "length bv' = 32"
      "bloom_test (bitvect t) h (s2\<lparr>ht_bits := (ht_bits s2)(bitvect t \<mapsto> bv')\<rparr>) = Some True"
      "\<And>h'. bloom_test (bitvect t) h' s2 = Some True \<Longrightarrow>
         bloom_test (bitvect t) h' (s2\<lparr>ht_bits := (ht_bits s2)(bitvect t \<mapsto> bv')\<rparr>) = Some True"
    using bloom_set_spec [OF bv, of h] by blast
  define s3 where "s3 = s2\<lparr>ht_bits := (ht_bits s2)(bitvect t \<mapsto> bv')\<rparr>"
  have keys: "ht_keys s3 = ht_keys s" by (simp add: s3_def s2_def)
  have "htable_add t e k n s = Some (t\<lparr>count := count t + 1\<rparr>, s3)"
    using l(1,2) r h b(1) key_hash_cong [of "s\<lparr>ht_lists := l1, ht_entries := (ht_entries s)(e \<mapsto> r\<lparr>key := k, len := n\<rparr>)\<rparr>" s]
    by (simp add: htable_add_def INIT_HTABLE_ENTRY_def on_lists_def modf_def deref_def i_def s2_def s3_def)
  moreover have "table_inv (t\<lparr>count := count t + 1\<rparr>) s3 (xss[i := e # xss ! i])"
  proof (rule table_inv_update [OF inv il(1)])
    have bt: "bloom_test (bitvect t) h' s = bloom_test (bitvect t) h' s2" for h'
      by (simp add: bloom_test_def bloom_test_bit_def s2_def)
    have old: "entry_ok t s3 j x" if "j < length xss" "x \<in> set (xss ! j)" for j x
    proof -
      have "entry_ok t s j x" "x \<noteq> e" using that inv e(4) by (auto simp: table_inv_def)
      then show ?thesis using b(4) key_hash_cong [OF keys] bt by (auto simp: entry_ok_def s3_def s2_def)
    qed
    moreover have "entry_ok t s3 i e" using b(3) key_hash_cong [OF keys] h by (simp add: entry_ok_def s3_def s2_def i_def)
    ultimately show "entry_ok t s3 i x" if "x \<in> set (e # xss ! i)" for x using that il(1) by auto
    show "entry_ok t s3 j x" if "j < length xss" "j \<noteq> i" "x \<in> set (xss ! j)" for j x using that old by blast
    show "count t + 1 = of_nat (length (concat (xss[i := e # xss ! i])))"
      using length_concat_update [of i xss "e # xss ! i"] il(1) inv by (simp add: table_inv_def)
  qed (use l(3) b(2) in \<open>simp_all add: s3_def s2_def\<close>)
  moreover have "key_at s3 e = Some kb" using read_key_cong [OF keys] k by (simp add: key_at_def s3_def s2_def)
  moreover have "key_at s3 x = key_at s x" if "x \<noteq> e" for x
    using that read_key_cong [OF keys] by (simp add: key_at_def s3_def s2_def split: option.split)
  ultimately show ?thesis using keys il(1) by blast
qed

lemma filter_concat_update:
  assumes "i < length xss" and "filter P ys = filter P (xss ! i)"
  shows "filter P (concat (xss[i := ys])) = filter P (concat xss)"
proof -
  have "map (filter P) (xss[i := ys]) = map (filter P) xss"
    using assms by (metis list_update_id map_update nth_map)
  then show ?thesis by (simp add: filter_concat)
qed

lemma inv_bucket_filter:
  assumes inv: "table_inv t s xss" and i: "i < length xss" and x: "x \<in> set (xss ! i)" "key_at s x = Some kb"
  shows "filter (\<lambda>e. key_at s e = Some kb) (concat xss) = filter (\<lambda>e. key_at s e = Some kb) (xss ! i)"
proof -
  have ok: "entry_ok t s i x" using inv i x(1) by (simp add: table_inv_def)
  then obtain r h where r: "ht_entries s x = Some r" "key_hash (key r) (len r) s = Some h"
      "unat (htable_which_bucket t h) = i" by (auto simp: entry_ok_def)
  have "read_key (key r) (len r) s = Some kb" using x(2) r(1) by (simp add: key_at_def)
  then show ?thesis using matches_in_bucket [OF inv _ r(2)] r(3) by simp
qed

section \<open>Removal\<close>

lemma key_at_lists [simp]: "key_at (s\<lparr>ht_lists := l\<rparr>) = key_at s"
  by (simp add: fun_eq_iff key_at_def read_key_def split: option.split)

lemma entry_ok_lists [simp]: "entry_ok t (s\<lparr>ht_lists := l\<rparr>) = entry_ok t s"
  by (simp add: fun_eq_iff entry_ok_def key_hash_def read_key_def bloom_test_def bloom_test_bit_def)

lemma del_key_spec:
  assumes inv: "table_inv t s xss" and k: "read_key k n s = Some kb"
    and m: "filter (\<lambda>e. key_at s e = Some kb) (concat xss) = e # es"
  shows "\<exists>t' s' i ys zs. htable_del_key t k n s = Some (e, t', s') \<and> t' = t\<lparr>count := count t - 1\<rparr> \<and>
    i < length xss \<and> xss ! i = ys @ e # zs \<and> table_inv t' s' (xss[i := ys @ zs]) \<and> ht_keys s' = ht_keys s \<and> key_at s' = key_at s \<and>
    filter (\<lambda>e. key_at s e = Some kb) (concat (xss[i := ys @ zs])) = es"
proof -
  have "e \<in> set (filter (\<lambda>e. key_at s e = Some kb) (concat xss))" using m by simp
  then obtain i where i: "i < length xss" "e \<in> set (xss ! i)" "key_at s e = Some kb"
    by (auto simp: in_set_conv_nth [of _ xss])
  have "filter (\<lambda>e. key_at s e = Some kb) (xss ! i) = e # es" using inv_bucket_filter [OF inv i] m by simp
  then obtain ys zs where x: "xss ! i = ys @ e # zs" "\<forall>y \<in> set ys. key_at s y \<noteq> Some kb"
      "es = filter (\<lambda>e. key_at s e = Some kb) zs"
    by (auto simp: filter_eq_Cons_iff)
  have ra: "hl.repr_all (ht_lists s) (heads t) xss" using inv by (simp add: table_inv_def)
  then have len: "length xss = length (heads t)" by (simp add: hl.repr_all_def)
  obtain l' where l': "hlist_del_init e (ht_lists s) = Some l'" "hl.repr_all l' (heads t) (xss[i := ys @ zs])"
    using hl.unlink_all [OF ra _ x(1)] i(1) len by auto
  let ?s = "s\<lparr>ht_lists := l'\<rparr>" and ?t = "t\<lparr>count := count t - 1\<rparr>"
  have "i < unat (size t)" using i(1) len by (simp add: heads_def)
  then have "e \<noteq> NULL" using hlist_dom(3) i(2) inv_bucket(1) [OF inv] by blast
  moreover have "htable_find t k n s = Some e" using find_spec [OF inv k] m by simp
  ultimately have "htable_del_key t k n s = Some (e, ?t, ?s)" using l'(1) by (simp add: htable_del_key_def on_lists_def)
  moreover have inv': "table_inv ?t ?s (xss[i := ys @ zs])"
  proof -
    obtain bv where bv: "ht_bits s (bitvect t) = Some bv" "length bv = 32" using inv by (auto simp: table_inv_def)
    have ok: "entry_ok t s j y" if "j < length xss" "y \<in> set (xss ! j)" for j y using inv that by (simp add: table_inv_def)
    have "length (concat xss) = Suc (length (concat (xss[i := ys @ zs])))"
      using length_concat_update [OF i(1), of "ys @ zs"] x(1) by simp
    then have "count t - 1 = of_nat (length (concat (xss[i := ys @ zs])))" using inv by (simp add: table_inv_def)
    then show ?thesis using ok i(1) x(1) l'(2) bv by (intro table_inv_update [OF inv i(1)]) auto
  qed
  moreover have "filter (\<lambda>e. key_at s e = Some kb) (concat (xss[i := ys @ zs])) = es"
  proof -
    obtain h where h: "key_hash k n s = Some h" using k by (rule key_hash_total)
    have "entry_ok t s i e" using inv i by (simp add: table_inv_def)
    then have "i = unat (htable_which_bucket ?t h)" using entry_match(1) [OF _ i(3) k h] by (simp add: htable_which_bucket_def)
    then show ?thesis
      using matches_in_bucket [OF inv', of k n kb h] k h read_key_cong [of ?s s] key_hash_cong [of ?s s] i(1) x by simp
  qed
  ultimately show ?thesis using i(1) x(1) by (intro exI conjI) (assumption | simp)+
qed

section \<open>Initialisation\<close>



section \<open>Properties\<close>

definition ex_table :: htable where
  "ex_table = \<lparr>bucks = 0x1000, size = 1, count = 0, bitvect = 0x2000\<rparr>"

definition ex_ht :: ht_state where
  "ex_ht = \<lparr>ht_lists = \<lparr>hl_ptr = [0x1000 \<mapsto> NULL, 0x4000 \<mapsto> NULL], hl_pprev = [0x4000 \<mapsto> NULL]\<rparr>,
     ht_entries = [0x4000 \<mapsto> \<lparr>key = NULL, len = 0, hash = 0\<rparr>], ht_keys = [0x3000 \<mapsto> [1, 2, 3]],
     ht_bits = [0x2000 \<mapsto> replicate 32 0]\<rparr>"

lemma ex_table_inv: "table_inv ex_table ex_ht [[]]"
  by (simp add: table_inv_def hl.repr_all_def hlist_def heads_def buck_addr_def ex_table_def ex_ht_def)

lemma ex_key: "read_key 0x3000 3 ex_ht = Some [1, 2, 3]"
  by (simp add: read_key_def ex_ht_def)

lemma ex_entry: "hnode (ht_lists ex_ht) 0x4000" "0x4000 \<in> dom (ht_entries ex_ht)" "0x4000 \<notin> set (heads ex_table)"
  by (simp_all add: hnode_def ex_ht_def ex_table_def heads_def buck_addr_def)

text \<open>
  C32: htable_find returns the first entry of the table whose key has the same length and bytes,
  and NULL exactly when there is none: the Bloom filter and the choice of the bucket never hide an
  entry.
\<close>

theorem htable_find_first:
  assumes "table_inv t s xss" and "read_key k n s = Some kb"
  shows "htable_find t k n s = Some (first_of (filter (\<lambda>e. key_at s e = Some kb) (concat xss))) \<and>
    (htable_find t k n s = Some NULL \<longleftrightarrow> (\<forall>e \<in> set (concat xss). key_at s e \<noteq> Some kb))"
proof
  show f: "htable_find t k n s = Some (first_of (filter (\<lambda>e. key_at s e = Some kb) (concat xss)))"
    using assms by (rule find_spec)
  have nn: "e \<noteq> NULL" if "e \<in> set (concat xss)" for e
  proof -
    obtain i where i: "i < length xss" "e \<in> set (xss ! i)" using \<open>e \<in> set (concat xss)\<close> by (auto simp: in_set_conv_nth [of _ xss])
    moreover have "length xss = unat (size t)" using assms(1) by (simp add: table_inv_def hl.repr_all_def heads_def)
    ultimately show ?thesis using hlist_dom(3) [OF inv_bucket(1) [OF assms(1), of i]] by auto
  qed
  show "htable_find t k n s = Some NULL \<longleftrightarrow> (\<forall>e \<in> set (concat xss). key_at s e \<noteq> Some kb)"
  proof (cases "filter (\<lambda>e. key_at s e = Some kb) (concat xss)")
    case Nil
    then show ?thesis using f by (auto simp: filter_empty_conv)
  next
    case (Cons e es)
    then have "e \<in> set (filter (\<lambda>e. key_at s e = Some kb) (concat xss))" by simp
    then have e: "e \<in> set (concat xss)" "key_at s e = Some kb" by simp_all
    then have "htable_find t k n s \<noteq> Some NULL" using f Cons nn [OF e(1)] by simp
    then show ?thesis using e by blast
  qed
qed

theorem htable_find_first_witness: "htable_find ex_table 0x3000 3 ex_ht = Some NULL"
  using htable_find_first [OF ex_table_inv ex_key] by simp

text \<open>
  C33: htable_add keeps the invariant of the table; a lookup of the added key then returns the
  new entry, and a lookup of any other key returns what it returned before.
\<close>

theorem htable_add_find:
  assumes "table_inv t s xss" and "read_key k n s = Some kb" and "hnode (ht_lists s) e"
    and "e \<in> dom (ht_entries s)" and "e \<notin> set (heads t)" and "e \<notin> set (concat xss)"
  shows "\<exists>t' s' xss'. htable_add t e k n s = Some (t', s') \<and> table_inv t' s' xss' \<and> htable_find t' k n s' = Some e \<and>
    (\<forall>k' n' kb'. read_key k' n' s = Some kb' \<and> kb' \<noteq> kb \<longrightarrow> htable_find t' k' n' s' = htable_find t k' n' s)"
proof -
  obtain t' s' i where a: "htable_add t e k n s = Some (t', s')" "i < length xss" "table_inv t' s' (xss[i := e # xss ! i])"
      "ht_keys s' = ht_keys s" "key_at s' e = Some kb" "\<And>x. x \<noteq> e \<Longrightarrow> key_at s' x = key_at s x"
    using add_spec [OF assms] by blast
  note rk = read_key_cong [OF a(4)]
  have "htable_find t' k n s' = Some e"
    using find_spec [OF a(3), of k n kb] rk assms(2) a(2,5) inv_bucket_filter [OF a(3), of i e kb] by simp
  moreover have "htable_find t' k' n' s' = htable_find t k' n' s" if k': "read_key k' n' s = Some kb'" "kb' \<noteq> kb" for k' n' kb'
  proof -
    have "filter (\<lambda>x. key_at s' x = Some kb') (concat (xss[i := e # xss ! i])) = filter (\<lambda>x. key_at s' x = Some kb') (concat xss)"
      using a(2,5) k'(2) by (intro filter_concat_update) simp_all
    also have "\<dots> = filter (\<lambda>x. key_at s x = Some kb') (concat xss)"
    proof (rule filter_cong)
      fix x assume "x \<in> set (concat xss)"
      then have "x \<noteq> e" using assms(6) by blast
      then show "(key_at s' x = Some kb') = (key_at s x = Some kb')" using a(6) by simp
    qed simp
    finally show ?thesis using find_spec [OF a(3), of k' n' kb'] find_spec [OF assms(1) k'(1)] rk k'(1) by simp
  qed
  ultimately show ?thesis using a(1,3) by blast
qed

theorem htable_add_find_witness:
  "\<exists>t' s' xss'. htable_add ex_table 0x4000 0x3000 3 ex_ht = Some (t', s') \<and> table_inv t' s' xss' \<and>
     htable_find t' 0x3000 3 s' = Some 0x4000"
  using htable_add_find [OF ex_table_inv ex_key ex_entry] by auto

text \<open>
  C34: htable_del_key returns the entry that htable_find returns, takes exactly that entry out of
  the table (so a later lookup finds the next entry with the key), counts it and keeps the invariant;
  without a matching entry it returns NULL and changes nothing.
\<close>

theorem htable_del_key_removes:
  assumes "table_inv t s xss" and "read_key k n s = Some kb"
  shows "case filter (\<lambda>e. key_at s e = Some kb) (concat xss) of
      [] \<Rightarrow> htable_del_key t k n s = Some (NULL, t, s)
    | e # es \<Rightarrow> \<exists>t' s' xss'. htable_del_key t k n s = Some (e, t', s') \<and> table_inv t' s' xss' \<and>
        count t' = count t - 1 \<and> htable_find t' k n s' = Some (first_of es) \<and>
        (\<exists>i ys zs. i < length xss \<and> xss ! i = ys @ e # zs \<and> xss' = xss[i := ys @ zs])"
proof (cases "filter (\<lambda>e. key_at s e = Some kb) (concat xss)")
  case Nil
  then show ?thesis using find_spec [OF assms] by (simp add: htable_del_key_def)
next
  case (Cons e es)
  obtain t' s' i ys zs where d: "htable_del_key t k n s = Some (e, t', s')" "i < length xss" "xss ! i = ys @ e # zs"
      "table_inv t' s' (xss[i := ys @ zs])" "ht_keys s' = ht_keys s" "key_at s' = key_at s"
      "filter (\<lambda>e. key_at s e = Some kb) (concat (xss[i := ys @ zs])) = es"
    using del_key_spec [OF assms Cons] by blast
  have "htable_find t' k n s' = Some (first_of es)"
    using find_spec [OF d(4), of k n kb] d(6,7) read_key_cong [OF d(5)] assms(2) by simp
  moreover have "length (concat xss) = Suc (length (concat (xss[i := ys @ zs])))"
    using length_concat_update [OF d(2), of "ys @ zs"] d(3) by simp
  then have "count t' = count t - 1" using d(4) assms(1) by (simp add: table_inv_def)
  ultimately show ?thesis using d(1-4) Cons by auto
qed

theorem htable_del_key_removes_witness: "htable_del_key ex_table 0x3000 3 ex_ht = Some (NULL, ex_table, ex_ht)"
  using htable_del_key_removes [OF ex_table_inv ex_key] by simp



end
