(* ===== verification/Vec.thy ===== *)
theory Vec
  imports Libkern_Prelude
begin

text \<open>
  \<^verbatim>\<open>include/vec.h\<close>: the growable array. A vector is a null pointer (\<^const>\<open>None\<close>) or a block with the
  capacity \<^verbatim>\<open>m\<close>, the count \<^verbatim>\<open>n\<close> and the elements. \<open>esize\<close> is the size of an element and \<open>junk\<close> the value of
  memory that \<^verbatim>\<open>realloc\<close> has just added; \<^verbatim>\<open>realloc\<close> succeeds (the code asserts it). An access outside the
  block and an overflow of the \<^verbatim>\<open>int\<close> arithmetic are \<^const>\<open>None\<close>.
\<close>

section \<open>Operations\<close>

record 'a vec =
  vec_m :: int
  vec_n :: int
  vec_a :: "'a list"

definition cint :: "int \<Rightarrow> bool" where
  "cint x \<longleftrightarrow> - (2 ^ 31) \<le> x \<and> x < 2 ^ 31"

definition uu_vec_growf :: "nat \<Rightarrow> 'a \<Rightarrow> 'a vec option \<Rightarrow> int \<Rightarrow> 'a vec option" where
  "uu_vec_growf esize junk a incr =
     (let m = (case a of None \<Rightarrow> incr + 1 | Some v \<Rightarrow> 2 * vec_m v + incr)
      in if \<not> cint m \<or> \<not> cint (int esize * m) \<or> m < 0 then None
         else Some (case a of
             None \<Rightarrow> \<lparr>vec_m = m, vec_n = 0, vec_a = replicate (nat m) junk\<rparr>
           | Some v \<Rightarrow> v\<lparr>vec_m := m, vec_a := take (nat m) (vec_a v @ replicate (nat m) junk)\<rparr>))"

definition uu_vec_needgrow :: "'a vec option \<Rightarrow> int \<Rightarrow> bool" where
  "uu_vec_needgrow a n = (case a of None \<Rightarrow> True | Some v \<Rightarrow> vec_n v + n \<ge> vec_m v)"

definition uu_vec_maybegrow :: "nat \<Rightarrow> 'a \<Rightarrow> 'a vec option \<Rightarrow> int \<Rightarrow> 'a vec option" where
  "uu_vec_maybegrow esize junk a n = (if uu_vec_needgrow a n then uu_vec_growf esize junk a n else a)"

definition vec_init :: "nat \<Rightarrow> 'a \<Rightarrow> int \<Rightarrow> 'a vec option" where
  "vec_init esize junk n = uu_vec_growf esize junk None n"

definition vec_destroy :: "'a vec option \<Rightarrow> 'a vec option" where
  "vec_destroy a = None"

definition vec_size :: "'a vec option \<Rightarrow> int" where
  "vec_size a = (case a of None \<Rightarrow> 0 | Some v \<Rightarrow> vec_n v)"

definition elem_get :: "'a vec \<Rightarrow> int \<Rightarrow> 'a option" where
  "elem_get v i = (if 0 \<le> i \<and> i < int (length (vec_a v)) then Some (vec_a v ! nat i) else None)"

definition elem_set :: "'a vec \<Rightarrow> int \<Rightarrow> 'a \<Rightarrow> 'a vec option" where
  "elem_set v i x = (if 0 \<le> i \<and> i < int (length (vec_a v)) then Some (v\<lparr>vec_a := (vec_a v)[nat i := x]\<rparr>) else None)"

text \<open>\<^verbatim>\<open>memmove\<close> of \<open>n\<close> elements from index \<open>s\<close> to index \<open>d\<close>: a negative count is a huge size.\<close>

definition elem_move :: "'a vec \<Rightarrow> int \<Rightarrow> int \<Rightarrow> int \<Rightarrow> 'a vec option" where
  "elem_move v d s n = (if 0 \<le> n \<and> 0 \<le> d \<and> 0 \<le> s \<and> d + n \<le> int (length (vec_a v)) \<and> s + n \<le> int (length (vec_a v))
     then Some (v\<lparr>vec_a := take (nat d) (vec_a v) @ take (nat n) (drop (nat s) (vec_a v)) @ drop (nat (d + n)) (vec_a v)\<rparr>)
     else None)"

definition vec_push :: "nat \<Rightarrow> 'a \<Rightarrow> 'a vec option \<Rightarrow> 'a \<Rightarrow> 'a vec option" where
  "vec_push esize junk a x = do {
     v \<leftarrow> uu_vec_maybegrow esize junk a 1;
     w \<leftarrow> elem_set v (vec_n v) x;
     Some (w\<lparr>vec_n := vec_n v + 1\<rparr>) }"

text \<open>The value of \<^verbatim>\<open>vec_pop\<close> is the count before, not the element.\<close>

definition vec_pop :: "'a vec option \<Rightarrow> int \<times> 'a vec option" where
  "vec_pop a = (case a of None \<Rightarrow> (0, None) | Some v \<Rightarrow> (vec_n v, Some (v\<lparr>vec_n := vec_n v - 1\<rparr>)))"

text \<open>\<^verbatim>\<open>vec_add\<close> returns a pointer to the first new element, given here by its index.\<close>

definition vec_add :: "nat \<Rightarrow> 'a \<Rightarrow> 'a vec option \<Rightarrow> int \<Rightarrow> (int \<times> 'a vec) option" where
  "vec_add esize junk a n = do {
     v \<leftarrow> uu_vec_maybegrow esize junk a n;
     Some (vec_n v + n - n, v\<lparr>vec_n := vec_n v + n\<rparr>) }"

definition vec_first :: "'a vec option \<Rightarrow> 'a option" where
  "vec_first a = do { v \<leftarrow> a; elem_get v 0 }"

definition vec_last :: "'a vec option \<Rightarrow> 'a option" where
  "vec_last a = do { v \<leftarrow> a; elem_get v (vec_n v - 1) }"

definition vec_insert :: "nat \<Rightarrow> 'a \<Rightarrow> 'a vec option \<Rightarrow> int \<Rightarrow> 'a \<Rightarrow> 'a vec option" where
  "vec_insert esize junk a i x = do {
     v \<leftarrow> uu_vec_maybegrow esize junk a 1;
     v \<leftarrow> elem_move v (i + 1) i (vec_n v - i);
     w \<leftarrow> elem_set v (vec_n v) x;
     Some (w\<lparr>vec_n := vec_n v + 1\<rparr>) }"

definition vec_erase :: "'a vec option \<Rightarrow> int \<Rightarrow> 'a vec option option" where
  "vec_erase a i = (case a of None \<Rightarrow> Some None
     | Some v \<Rightarrow> let v = v\<lparr>vec_n := vec_n v - 1\<rparr> in map_option Some (elem_move v i (i + 1) (vec_n v - i)))"

section \<open>Contents\<close>

definition vec_ok :: "'a vec \<Rightarrow> bool" where
  "vec_ok v \<longleftrightarrow> 0 \<le> vec_n v \<and> vec_n v \<le> vec_m v \<and> 0 < vec_m v \<and> vec_m v = int (length (vec_a v))"

definition contents :: "'a vec option \<Rightarrow> 'a list" where
  "contents a = (case a of None \<Rightarrow> [] | Some v \<Rightarrow> take (nat (vec_n v)) (vec_a v))"

definition room :: "nat \<Rightarrow> 'a vec option \<Rightarrow> int \<Rightarrow> bool" where
  "room esize a n \<longleftrightarrow> (let m = (case a of None \<Rightarrow> n + 1 | Some v \<Rightarrow> 2 * vec_m v + n) in cint m \<and> cint (int esize * m))"

lemma maybegrow_spec:
  assumes "\<And>v. a = Some v \<Longrightarrow> vec_ok v" and "0 \<le> n" and "room esize a n"
  obtains v where "uu_vec_maybegrow esize junk a n = Some v" and "vec_ok v" and "vec_n v = vec_size a"
    and "vec_n v + n < vec_m v" and "contents (Some v) = contents a"
proof (cases a)
  case None
  then show ?thesis using that assms
    by (auto simp: uu_vec_maybegrow_def uu_vec_needgrow_def uu_vec_growf_def room_def Let_def vec_ok_def vec_size_def contents_def)
next
  case (Some v)
  then have v: "vec_ok v" using assms(1) by simp
  show ?thesis
  proof (cases "vec_n v + n \<ge> vec_m v")
    case True
    let ?m = "2 * vec_m v + n"
    let ?v = "v\<lparr>vec_m := ?m, vec_a := take (nat ?m) (vec_a v @ replicate (nat ?m) junk)\<rparr>"
    have len: "length (vec_a v) \<le> nat ?m" using v assms(2) by (simp add: vec_ok_def)
    have "uu_vec_maybegrow esize junk a n = Some ?v" using True Some v assms(2,3)
      by (simp add: uu_vec_maybegrow_def uu_vec_needgrow_def uu_vec_growf_def room_def Let_def vec_ok_def)
    moreover have "contents (Some ?v) = contents a"
    proof -
      have "nat (vec_n v) \<le> length (vec_a v)" using v by (auto simp: vec_ok_def)
      moreover have "nat (vec_n v) \<le> nat ?m" using v assms(2) by (auto simp: vec_ok_def)
      ultimately show ?thesis using Some by (simp add: contents_def min_absorb1)
    qed
    moreover have "vec_ok ?v" "vec_n ?v = vec_size a" "vec_n ?v + n < vec_m ?v"
      using v Some assms(2) True by (simp_all add: vec_ok_def vec_size_def min_def)
    ultimately show ?thesis using that by blast
  next
    case False
    then have "uu_vec_maybegrow esize junk a n = Some v" "vec_n v = vec_size a" "vec_n v + n < vec_m v"
        "contents (Some v) = contents a"
      using Some by (simp_all add: uu_vec_maybegrow_def uu_vec_needgrow_def vec_size_def)
    then show ?thesis using that v by blast
  qed
qed

section \<open>Properties\<close>

definition ex_vec :: "nat vec" where
  "ex_vec = \<lparr>vec_m = 4, vec_n = 3, vec_a = [10, 11, 12, 0]\<rparr>"

text \<open>
  C40: as long as the sizes fit an int, vec_push appends its element, growing the block when it
  is needed; vec_last then returns it, and vec_pop removes it again but returns the count.
\<close>

theorem vec_push_pop:
  assumes "\<And>v. a = Some v \<Longrightarrow> vec_ok v" and "room esize a 1"
  shows "\<exists>v. vec_push esize junk a x = Some v \<and> vec_ok v \<and> contents (Some v) = contents a @ [x] \<and>
    vec_n v = vec_size a + 1 \<and> vec_last (Some v) = Some x \<and>
    fst (vec_pop (Some v)) = vec_size a + 1 \<and> contents (snd (vec_pop (Some v))) = contents a"
proof -
  obtain v where v: "uu_vec_maybegrow esize junk a 1 = Some v" "vec_ok v" "vec_n v = vec_size a"
      "vec_n v + 1 < vec_m v" "contents (Some v) = contents a"
    using maybegrow_spec [of a 1 esize junk] assms by auto
  define w where "w = v\<lparr>vec_a := (vec_a v)[nat (vec_n v) := x], vec_n := vec_n v + 1\<rparr>"
  have n: "0 \<le> vec_n v" "nat (vec_n v) < length (vec_a v)" using v(2,4) by (auto simp: vec_ok_def)
  then have "vec_push esize junk a x = Some w" using v(1) by (simp add: vec_push_def elem_set_def w_def)
  moreover have "vec_ok w" using v(2,4) by (auto simp: vec_ok_def w_def)
  moreover have "contents (Some w) = contents a @ [x]" using v(5) n
    by (simp add: contents_def w_def nat_add_distrib take_Suc_conv_app_nth)
  moreover have "vec_last (Some w) = Some x" using n by (simp add: vec_last_def elem_get_def w_def)
  moreover have "contents (snd (vec_pop (Some w))) = contents a" using v(5) n by (simp add: contents_def w_def vec_pop_def)
  ultimately show ?thesis using v(3) by (intro exI [of _ w]) (simp add: w_def vec_pop_def)
qed

theorem vec_push_pop_witness:
  "\<exists>v. vec_push 8 0 (Some ex_vec) 13 = Some v \<and> contents (Some v) = [10, 11, 12, 13 :: nat]"
  using vec_push_pop [of "Some ex_vec" 8 0 13] by (auto simp: ex_vec_def vec_ok_def room_def cint_def contents_def)

text \<open>
  vec_erase removes the element at an index. vec_insert at an index below the count does
  not insert there: it repeats the element at the index, loses the last element and stores the new
  one at the end; only an insertion at the end is right.
\<close>

theorem vec_insert_erase:
  assumes "vec_ok v" and "0 \<le> i" and "i < vec_n v" and "room esize (Some v) 1"
  shows "(\<exists>w. vec_erase (Some v) i = Some (Some w) \<and> vec_ok w \<and>
      contents (Some w) = take (nat i) (contents (Some v)) @ drop (Suc (nat i)) (contents (Some v))) \<and>
    (\<exists>w. vec_insert esize junk (Some v) i x = Some w \<and> vec_ok w \<and>
      contents (Some w) = take (Suc (nat i)) (contents (Some v)) @ drop (nat i) (butlast (contents (Some v))) @ [x])"
proof
  obtain k j where kj: "vec_n v = int k" "i = int j" using assms(2,3) by (metis int_nat_eq nonneg_int_cases order.strict_trans1 order_less_imp_le)
  then obtain q where q: "k = Suc q" using assms(3) by (cases k) auto
  have n: "Suc q \<le> length (vec_a v)" "j \<le> q" using assms(1,3) kj q by (auto simp: vec_ok_def)
  define w where "w = v\<lparr>vec_n := int q, vec_a := take j (vec_a v) @
    take (q - j) (drop (Suc j) (vec_a v)) @ drop q (vec_a v)\<rparr>"
  have e: "int (Suc q) - 1 = int q" "int q - int j = int (q - j)" "int j + 1 = int (Suc j)"
      "int j + int (q - j) = int q" "int (Suc j) + int (q - j) = int (Suc q)"
    using n(2) by simp_all
  have "vec_erase (Some v) i = Some (Some w)" using n
    by (simp add: vec_erase_def elem_move_def w_def Let_def kj q e del: of_nat_Suc of_nat_diff)
  moreover have "vec_ok w" using assms(1) n kj q by (auto simp: vec_ok_def w_def)
  moreover have "contents (Some w) = take (nat i) (contents (Some v)) @ drop (Suc (nat i)) (contents (Some v))"
    using n by (auto simp: contents_def w_def min_def drop_take kj q simp del: of_nat_Suc)
  ultimately show "\<exists>w. vec_erase (Some v) i = Some (Some w) \<and> vec_ok w \<and>
      contents (Some w) = take (nat i) (contents (Some v)) @ drop (Suc (nat i)) (contents (Some v))" by blast
next
  obtain u where u: "uu_vec_maybegrow esize junk (Some v) 1 = Some u" "vec_ok u" "vec_n u = vec_n v"
      "vec_n u + 1 < vec_m u" "contents (Some u) = contents (Some v)"
    using maybegrow_spec [of "Some v" 1 esize junk] assms(1,4) by (auto simp: vec_size_def)
  obtain k j where kj: "vec_n u = int k" "i = int j" using assms(2,3) u(3) by (metis int_nat_eq nonneg_int_cases order.strict_trans1 order_less_imp_le)
  have n: "Suc k < length (vec_a u)" "j < k" using assms(3) u(2-4) kj by (auto simp: vec_ok_def)
  define a where "a = take (Suc j) (vec_a u) @ take (k - j) (drop j (vec_a u)) @ drop (Suc k) (vec_a u)"
  have la: "length a = length (vec_a u)" using n by (simp add: a_def)
  have e: "int k - int j = int (k - j)" "int j + 1 = int (Suc j)" "int (Suc j) + int (k - j) = int (Suc k)"
      "int j + int (k - j) = int k" using n(2) by simp_all
  have "elem_move u (i + 1) i (vec_n u - i) = Some (u\<lparr>vec_a := a\<rparr>)"
    using n by (simp add: elem_move_def a_def kj e del: of_nat_Suc of_nat_diff)
  then have "vec_insert esize junk (Some v) i x = Some (u\<lparr>vec_a := a[k := x], vec_n := vec_n u + 1\<rparr>)"
    using u(1) n la kj by (simp add: vec_insert_def elem_set_def)
  moreover have "vec_ok (u\<lparr>vec_a := a[k := x], vec_n := vec_n u + 1\<rparr>)" using u(2,4) la by (auto simp: vec_ok_def)
  moreover have "contents (Some (u\<lparr>vec_a := a[k := x], vec_n := vec_n u + 1\<rparr>)) =
      take (Suc (nat i)) (contents (Some v)) @ drop (nat i) (butlast (contents (Some v))) @ [x]"
  proof -
    have "take k a = take (Suc j) (contents (Some u)) @ drop j (butlast (contents (Some u)))"
      using n kj by (cases "k = Suc j") (auto simp: a_def contents_def butlast_take drop_take min_def)
    moreover have "nat (vec_n u + 1) = Suc k" using kj by simp
    then have "contents (Some (u\<lparr>vec_a := a[k := x], vec_n := vec_n u + 1\<rparr>)) = take k a @ [x]"
      using n la by (simp add: contents_def take_Suc_conv_app_nth)
    ultimately show ?thesis using u(5) kj(2) by simp
  qed
  ultimately show "\<exists>w. vec_insert esize junk (Some v) i x = Some w \<and> vec_ok w \<and>
      contents (Some w) = take (Suc (nat i)) (contents (Some v)) @ drop (nat i) (butlast (contents (Some v))) @ [x]" by blast
qed

theorem vec_insert_erase_witness:
  "\<exists>w. vec_insert 8 0 (Some ex_vec) 1 13 = Some w \<and> contents (Some w) = [10, 11, 11, 13 :: nat]"
  using vec_insert_erase [of ex_vec 1 8 0 13] by (auto simp: ex_vec_def vec_ok_def room_def cint_def contents_def)

end
