(* ===== verification/Htable_Iter.thy ===== *)
theory Htable_Iter
  imports Htable_Props
begin

text \<open>
  Iteration over a hash table: the macros of \<^verbatim>\<open>htable.h\<close> run their body once for every entry, bucket by bucket, and
  \<^verbatim>\<open>htable_for_each_safe\<close> tolerates a body that removes the entry from the table.
\<close>

section \<open>All entries\<close>

lemma for_each_buckets:
  assumes inv: "table_inv t s xss" and body: "\<And>e d. e \<in> set (concat xss) \<Longrightarrow> body e (ht_lists s, d) = Some (ht_lists s, f e d)"
  shows "buckets_loop t (hlist_loop body) (ht_lists s, d) = Some (ht_lists s, fold f (concat xss) d)"
proof -
  let ?l = "ht_lists s"
  let ?P = "\<lambda>k st. st = (?l, fold f (concat (take k xss)) d)"
  have len: "length xss = unat (size t)" using inv by (simp add: table_inv_def hl.repr_all_def heads_def)
  have "\<exists>st. buckets_loop t (hlist_loop body) (?l, d) = Some st \<and> ?P (unat (size t)) st"
    unfolding buckets_loop_def
  proof (rule for_up_inv [where P = ?P])
    fix k st assume k: "k < unat (size t)" and st: "?P k st"
    have h: "hlist ?l (buck_addr t k) (xss ! k)" using inv k by (rule inv_bucket)
    have "hlist_loop body (first_of (xss ! k)) (?l, d') = Some (?l, fold f (xss ! k) d')" for d'
      using h by (rule hlist_loop_visits) (use body k len in force)
    moreover have "ptr_get (buck_addr t k) ?l = Some (first_of (xss ! k))" using hlist_first [OF h] hlist_dom(1) [OF h] by (simp add: heap_simps)
    ultimately show "\<exists>st'. (do { g \<leftarrow> ptr_get (buck_addr t k) (fst st); hlist_loop body (hlist_entry g 0) st }) = Some st' \<and> ?P (Suc k) st'"
      using st k len by (simp add: hlist_entry_def take_Suc_conv_app_nth)
  qed auto
  then show ?thesis using len by simp
qed

section \<open>Removing every entry\<close>

text \<open>A client that removes the entry it is given from the table.\<close>

definition drop_entry :: "addr \<Rightarrow> hlist_mem \<times> htable \<times> ht_state \<Rightarrow> (hlist_mem \<times> htable \<times> ht_state) option" where
  "drop_entry pos st = (case st of (l, t, s) \<Rightarrow> do {
     (e, t, s) \<leftarrow> htable_del_entry t pos (s\<lparr>ht_lists := l\<rparr>);
     Some (ht_lists s, t, s) })"

definition unique_keys :: "ht_state \<Rightarrow> addr list list \<Rightarrow> bool" where
  "unique_keys s xss \<longleftrightarrow> distinct (map (key_at s) (concat xss))"

lemma only_match:
  assumes "distinct (map f xs)" and "x \<in> set xs"
  shows "filter (\<lambda>e. f e = f x) xs = [x]"
  using assms by (induction xs) (auto simp: filter_empty_conv image_iff)

text \<open>One bucket: the first entry is removed again and again, while the next one is read before.\<close>

lemma drop_first:
  assumes inv: "table_inv t s xss" and u: "unique_keys s xss" and i: "i < length xss" "xss ! i = y # ys"
  shows "\<exists>t' s'. drop_entry y (ht_lists s, t, s) = Some (ht_lists s', t', s') \<and> t' = t\<lparr>count := count t - 1\<rparr> \<and>
    table_inv t' s' (xss[i := ys]) \<and> key_at s' = key_at s"
proof -
  have y: "y \<in> set (xss ! i)" using i(2) by simp
  then have yc: "y \<in> set (concat xss)" using nth_mem [OF i(1)] by auto
  have ok: "entry_ok t s i y" using inv i(1) y by (simp add: table_inv_def)
  then obtain r kb where r: "ht_entries s y = Some r" "read_key (key r) (len r) s = Some kb" "key_at s y = Some kb"
    using entry_key [OF ok] by (auto simp: entry_ok_def key_at_def split: option.splits)
  have f: "filter (\<lambda>e. key_at s e = Some kb) (concat xss) = [y]"
    using only_match [of "key_at s" "concat xss" y] u yc r(3) by (simp add: unique_keys_def)
  obtain t' s' j vs zs where d: "htable_del_key t (key r) (len r) s = Some (y, t', s')" "t' = t\<lparr>count := count t - 1\<rparr>"
      "j < length xss" "xss ! j = vs @ y # zs" "table_inv t' s' (xss[j := vs @ zs])" "key_at s' = key_at s"
    using del_key_spec [OF inv r(2) f] by blast
  have ra: "hl.repr_all (ht_lists s) (heads t) xss" using inv by (simp add: table_inv_def)
  have "j = i"
  proof (rule ccontr)
    assume "j \<noteq> i"
    moreover have "i < length (heads t)" "j < length (heads t)" using ra d(3) i(1) by (simp_all add: hl.repr_all_def)
    ultimately have "set (heads t ! i # xss ! i) \<inter> set (heads t ! j # xss ! j) = {}" using ra unfolding hl.repr_all_def by simp
    then show False using y d(4) by auto
  qed
  moreover have "distinct (xss ! i)" using u nth_mem [OF i(1)] by (simp add: unique_keys_def distinct_map distinct_concat_iff)
  ultimately have "vs = []" "zs = ys" using d(4) i(2) by (auto simp: Cons_eq_append_conv)
  moreover have "y \<noteq> NULL"
  proof -
    have "i < unat (size t)" using ra i(1) by (simp add: hl.repr_all_def heads_def)
    then show ?thesis using hlist_dom(3) [OF inv_bucket(1) [OF inv]] y by blast
  qed
  ultimately show ?thesis using d \<open>j = i\<close> r(1) by (auto simp: drop_entry_def htable_del_entry_def deref_def)
qed

lemma drop_bucket:
  assumes "table_inv t s xss" and "unique_keys s xss" and "i < length xss" and "xss ! i = ys"
  shows "\<exists>t' s'. hlist_safe_loop drop_entry (first_of ys) (ht_lists s, t, s) = Some (ht_lists s', t', s') \<and>
    heads t' = heads t \<and> table_inv t' s' (xss[i := []]) \<and> unique_keys s' (xss[i := []])"
  using assms
proof (induction ys arbitrary: t s xss)
  case Nil
  then have "xss[i := []] = xss" by (metis list_update_id)
  then show ?case using Nil by (subst hlist_safe_loop.simps) simp
next
  case (Cons y ys)
  obtain t1 s1 where d: "drop_entry y (ht_lists s, t, s) = Some (ht_lists s1, t1, s1)" "t1 = t\<lparr>count := count t - 1\<rparr>"
      "table_inv t1 s1 (xss[i := ys])" "key_at s1 = key_at s" using drop_first [OF Cons.prems] by blast
  have u1: "unique_keys s1 (xss[i := ys])"
  proof -
    define as bs where "as = take i xss" and "bs = drop (Suc i) xss"
    have "xss = as @ (y # ys) # bs" "xss[i := ys] = as @ ys # bs"
      using id_take_nth_drop [OF Cons.prems(3)] upd_conv_take_nth_drop [OF Cons.prems(3)] Cons.prems(4) by (simp_all add: as_def bs_def)
    then show ?thesis using Cons.prems(2) d(4) by (auto simp: unique_keys_def)
  qed
  have "hlist (ht_lists s) (buck_addr t i) (y # ys)"
    using inv_bucket [OF Cons.prems(1), of i] Cons.prems(1,3,4) by (simp add: table_inv_def hl.repr_all_def heads_def)
  then have n: "y \<noteq> NULL" "hl_ptr (ht_lists s) y = Some (first_of ys)"
    using hlist_dom(3) [of "ht_lists s" "buck_addr t i" "y # ys" y] hlist_first [OF hlist_tl] by auto
  obtain t' s' where "hlist_safe_loop drop_entry (first_of ys) (ht_lists s1, t1, s1) = Some (ht_lists s', t', s')"
      "heads t' = heads t1" "table_inv t' s' (xss[i := []])" "unique_keys s' (xss[i := []])"
    using Cons.IH [OF d(3) u1] Cons.prems(3) by auto
  moreover have "heads t1 = heads t" using d(2) by (simp add: heads_def buck_addr_def)
  ultimately show ?case using n d(1) by (subst hlist_safe_loop.simps) (simp add: heap_simps)
qed

lemma drop_all:
  assumes inv: "table_inv t s xss" and u: "unique_keys s xss"
  shows "\<exists>t' s'. htable_for_each_safe t drop_entry (ht_lists s, t, s) = Some (ht_lists s', t', s') \<and>
    table_inv t' s' (replicate (length xss) [])"
proof -
  let ?P = "\<lambda>k st. \<exists>t' s'. st = (ht_lists s', t', s') \<and> heads t' = heads t \<and>
    table_inv t' s' (replicate k [] @ drop k xss) \<and> unique_keys s' (replicate k [] @ drop k xss)"
  have len: "length xss = unat (size t)" using inv by (simp add: table_inv_def hl.repr_all_def heads_def)
  have "\<exists>st. htable_for_each_safe t drop_entry (ht_lists s, t, s) = Some st \<and> ?P (unat (size t)) st"
    unfolding htable_for_each_safe_def buckets_loop_def
  proof (rule for_up_inv [where P = ?P])
    fix k st assume k: "k < unat (size t)" and "?P k st"
    then obtain t1 s1 where s1: "st = (ht_lists s1, t1, s1)" "heads t1 = heads t"
        "table_inv t1 s1 (replicate k [] @ drop k xss)" "unique_keys s1 (replicate k [] @ drop k xss)" by blast
    let ?y = "replicate k [] @ drop k xss"
    have ky: "k < length ?y" "?y ! k = xss ! k" "?y[k := []] = replicate (Suc k) [] @ drop (Suc k) xss"
      using k len by (simp_all add: nth_append list_update_append replicate_append_same [symmetric] Cons_nth_drop_Suc [symmetric])
    have "hlist (ht_lists s1) (heads t ! k) (xss ! k)"
      using s1(2,3) ky(1,2) by (auto simp: table_inv_def hl.repr_all_def)
    then have h: "hlist (ht_lists s1) (buck_addr t k) (xss ! k)" using k by (simp add: heads_def)
    obtain t2 s2 where s2: "hlist_safe_loop drop_entry (first_of (xss ! k)) (ht_lists s1, t1, s1) = Some (ht_lists s2, t2, s2)"
        "heads t2 = heads t1" "table_inv t2 s2 (?y[k := []])" "unique_keys s2 (?y[k := []])"
      using drop_bucket [OF s1(3,4) ky(1,2)] by blast
    have "ptr_get (buck_addr t k) (ht_lists s1) = Some (first_of (xss ! k))" using hlist_first [OF h] hlist_dom(1) [OF h] by (simp add: heap_simps)
    then show "\<exists>st'. (do { g \<leftarrow> ptr_get (buck_addr t k) (fst st); hlist_safe_loop drop_entry (hlist_entry g 0) st }) = Some st' \<and> ?P (Suc k) st'"
      using s1(1,2) s2 unfolding ky(3) by (auto simp: hlist_entry_def)
  qed (use inv u in auto)
  then show ?thesis using len by auto
qed

section \<open>Properties\<close>

text \<open>The table of the examples with one entry added.\<close>

lemma ex_one_entry: "\<exists>t s. htable_add ex_table 0x4000 0x3000 3 ex_ht = Some (t, s) \<and> table_inv t s [[0x4000]] \<and> unique_keys s [[0x4000]]"
proof -
  obtain t s i where "htable_add ex_table 0x4000 0x3000 3 ex_ht = Some (t, s)" "i < length [[] :: addr list]"
      "table_inv t s ([[]][i := 0x4000 # [[]] ! i])"
    using add_spec [OF ex_table_inv ex_key ex_entry] by auto
  then show ?thesis by (simp add: unique_keys_def)
qed

text \<open>
  htable_for_each and htable_for_each_entry terminate and run a body that leaves the lists alone once for every
  entry of the table, bucket by bucket; htable_for_each_entry gives it the enclosing struct.
\<close>

theorem htable_for_each_visits:
  assumes "table_inv t s xss"
  shows "htable_for_each t (\<lambda>e (l, d). Some (l, f e d)) (ht_lists s, d) = Some (ht_lists s, fold f (concat xss) d) \<and>
    htable_for_each_entry t off (\<lambda>e (l, d). Some (l, f e d)) (ht_lists s, d) =
      Some (ht_lists s, fold f (map (\<lambda>e. hash_entry e off) (concat xss)) d)"
  unfolding htable_for_each_def htable_for_each_entry_def
  using for_each_buckets [OF assms, of "\<lambda>e (l, d). Some (l, f e d)" f d]
    for_each_buckets [OF assms, of "\<lambda>e (l, d). Some (l, f (hash_entry e off) d)" "\<lambda>e. f (hash_entry e off)" d]
  by (simp add: fold_map comp_def)

theorem htable_for_each_visits_witness:
  "\<exists>t s. htable_add ex_table 0x4000 0x3000 3 ex_ht = Some (t, s) \<and>
    htable_for_each t (\<lambda>e (l, d). Some (l, e # d)) (ht_lists s, []) = Some (ht_lists s, [0x4000])"
proof -
  obtain t s where t: "htable_add ex_table 0x4000 0x3000 3 ex_ht = Some (t, s)" "table_inv t s [[0x4000]]" using ex_one_entry by blast
  show ?thesis using t(1) htable_for_each_visits [OF t(2), of "(#)" "[]"] by auto
qed

text \<open>
  C35: htable_for_each_safe with a body that deletes the current entry from the table, whose keys are distinct, visits
  every entry, terminates, and leaves a valid table that is empty: all buckets are, and the count is zero.
\<close>

theorem htable_for_each_safe_empties:
  assumes "table_inv t s xss" and "unique_keys s xss"
  shows "\<exists>t' s'. htable_for_each_safe t drop_entry (ht_lists s, t, s) = Some (ht_lists s', t', s') \<and>
    table_inv t' s' (replicate (length xss) []) \<and> count t' = 0"
  using drop_all [OF assms] by (auto simp: table_inv_def)

theorem htable_for_each_safe_empties_witness:
  "\<exists>t s t' s'. htable_add ex_table 0x4000 0x3000 3 ex_ht = Some (t, s) \<and>
    htable_for_each_safe t drop_entry (ht_lists s, t, s) = Some (ht_lists s', t', s') \<and> count t' = 0"
proof -
  obtain t s where t: "htable_add ex_table 0x4000 0x3000 3 ex_ht = Some (t, s)" "table_inv t s [[0x4000]]" "unique_keys s [[0x4000]]"
    using ex_one_entry by blast
  show ?thesis using t(1) htable_for_each_safe_empties [OF t(2,3)] by blast
qed

end
