(* ===== verification/Bitmap_Parse_Exact.thy ===== *)
theory Bitmap_Parse_Exact
  imports Bitmap_Text_Props
begin

text \<open>
  Texts of sets that need not fit the bitmap: each parser accepts the text exactly when the set fits, and returns its
  error code otherwise.
\<close>

section \<open>Hexadecimal\<close>

lemma parse_fits:
  assumes "0 < n" and "0 < k" and "A \<subseteq> {..<n}" and "A \<subseteq> {..<k}" and "has_bits m p n"
  shows "\<exists>m'. uu_bitmap_parse (hex_text k A @ NUL # rest) (length (hex_text k A) + Suc l) p n m = Some (Inr (), m') \<and>
    has_bits m' p n \<and> bitset m' p n = A \<and> (\<forall>x. x \<noteq> p \<longrightarrow> m' x = m x)"
proof -
  define j where "j = (k - 1) div 32"
  obtain m1 where m1: "bitmap_zero False p n m = Some m1" "has_bits m1 p n" "bitset m1 p n = {}" "\<forall>x. x \<noteq> p \<longrightarrow> m1 x = m x"
    using inline_zero [OF assms(1,5), of False] by blast
  have "k \<le> 32 * Suc j" using last_chunk [OF assms(2)] unfolding j_def mult_Suc_right by linarith
  then have "i + 32 * Suc j \<notin> A" for i using assms(4) by auto
  then have "chunks_read A m p n (Suc j) 0 0 m1" using m1 by (auto simp: chunks_read_def)
  then obtain m' nc nb where "parse_loop p n (hex_text k A @ NUL # rest) (length (hex_text k A) + Suc l) NUL 0 0 0 m1 = Some (Inr (), m')"
      "chunks_read A m p n 0 nc nb m'"
    using parse_chunks [OF assms(1,3), of m p j 0 0 m1 NUL] separators unfolding hex_text_def j_def by fastforce
  then show ?thesis using m1(1) by (auto simp: uu_bitmap_parse_def chunks_read_def)
qed

text \<open>The bits counted so far reach from the greatest element to the chunks that are still to be read.\<close>

definition bits_counted :: "nat set \<Rightarrow> nat \<Rightarrow> nat \<Rightarrow> nat \<Rightarrow> int \<Rightarrow> bool" where
  "bits_counted A tp j nchunks nbits \<longleftrightarrow>
     (if nchunks = 0 then nbits = 0 \<and> (\<forall>b \<in> A. b < 32 * j) else nbits + 32 * int j = int tp + 1)"

lemma count_chunk:
  assumes top: "tp \<in> A" "\<forall>b \<in> A. b \<le> tp" and inv: "bits_counted A tp (Suc j) nchunks nbits"
    and ch: "ch = of_nat (chunk_val A j)" and nz: "\<not> (nchunks = 0 \<and> ch = (0 :: u32))"
  shows "bits_counted A tp j (nchunks + 1) (nbits + (if nchunks + 1 = 1 then fls ch else 32))"
proof (cases "nchunks = 0")
  case True
  then obtain i where i: "fls ch = int (Suc i)" "bit ch i" "\<forall>k > i. \<not> bit ch k" using nz fls_last [of ch] by auto
  have b: "32 * j + i \<in> A" "i < 32" using i(2) by (auto simp: ch bit_chunk_word)
  define q where "q = tp - 32 * j"
  have q: "tp = 32 * j + q" "q < 32" using inv True top b(1) unfolding bits_counted_def q_def by fastforce+
  then have "bit ch q" using top(1) by (simp add: ch bit_chunk_word)
  then have "q \<le> i" using i(3) by (meson not_le)
  moreover have "i \<le> q" using top(2) b(1) q(1) by auto
  ultimately show ?thesis using True inv i(1) q(1) by (simp add: bits_counted_def)
qed (use inv in \<open>simp add: bits_counted_def\<close>)

lemma skip_count:
  assumes "bits_counted A tp (Suc j) 0 nbits" and "(of_nat (chunk_val A j) :: u32) = 0"
  shows "bits_counted A tp j 0 nbits"
proof -
  have "b < 32 * j" if "b \<in> A" for b
  proof (rule ccontr)
    assume "\<not> b < 32 * j"
    moreover have "b < 32 * Suc j" using assms(1) that by (simp add: bits_counted_def)
    ultimately have "bit (of_nat (chunk_val A j) :: u32) (b - 32 * j)" using that by (simp add: bit_chunk_word)
    then show False using assms(2) by simp
  qed
  then show ?thesis using assms(1) by (simp add: bits_counted_def)
qed

lemma parse_overflow:
  assumes n: "0 < n" and top: "tp \<in> A" "\<forall>b \<in> A. b \<le> tp" "n \<le> tp"
  shows "has_bits m p n \<Longrightarrow> bits_counted A tp (Suc j) nchunks nbits \<Longrightarrow> \<not> isspace c \<Longrightarrow> x = hex_padded w (chunk_val A j) \<Longrightarrow>
    \<exists>m'. parse_loop p n (x @ hex_tail A j @ NUL # rest) (length x + length (hex_tail A j) + Suc l) c td nchunks nbits m = Some (Inl EOVERFLOW, m')"
proof (induction j arbitrary: m c w x td nchunks nbits)
  case 0
  let ?ch = "of_nat (chunk_val A 0) :: u32"
  obtain nd td' where c: "chunk_loop (x @ NUL # rest) (length x + Suc l) c td 0 0 = Some (Inr (rest, l, NUL, td', ?ch, nd))" "nd \<noteq> 0"
    using hex_chunk [of NUL c x w A 0 rest l td] 0 by blast
  have nz: "\<not> (nchunks = 0 \<and> ?ch = 0)" using skip_count [of A tp 0 nbits] 0(2) top(1) by (auto simp: bits_counted_def)
  obtain m1 v m2 where m2: "uu_bitmap_shift_left p p 32 n m = Some m1" "aget m1 p 0 = Some v" "aset m1 p 0 (v OR ucast ?ch) = Some m2"
    by (rule append_chunk_safe [OF n 0(1), of ?ch])
  have "nbits + (if nchunks + 1 = 1 then fls ?ch else 32) > int n"
    using count_chunk [OF top(1,2) 0(2) refl nz] top(3) by (simp add: bits_counted_def)
  then show ?case by (subst parse_loop.simps) (use c nz m2 in \<open>auto simp: Let_def\<close>)
next
  case (Suc j)
  let ?ch = "of_nat (chunk_val A (Suc j)) :: u32"
  define y where "y = hex_padded 8 (chunk_val A j)"
  obtain nd td' where c: "chunk_loop (x @ CHR '','' # y @ hex_tail A j @ NUL # rest) (length x + Suc (length y + length (hex_tail A j) + Suc l)) c td 0 0 =
      Some (Inr (y @ hex_tail A j @ NUL # rest, length y + length (hex_tail A j) + Suc l, CHR '','', td', ?ch, nd))" "nd \<noteq> 0"
    using hex_chunk [of "CHR '',''" c x w A "Suc j" "y @ hex_tail A j @ NUL # rest" "length y + length (hex_tail A j) + Suc l" td] Suc.prems by blast
  have t: "x @ hex_tail A (Suc j) @ NUL # rest = x @ CHR '','' # y @ hex_tail A j @ NUL # rest"
      "length x + length (hex_tail A (Suc j)) + Suc l = length x + Suc (length y + length (hex_tail A j) + Suc l)" by (simp_all add: y_def)
  note IH = Suc.IH [OF _ _ _ y_def, of _ _ _ "CHR '',''" td', unfolded separators, simplified]
  show ?case
  proof (cases "nchunks = 0 \<and> ?ch = 0")
    case True
    then show ?thesis using IH [of m 0 nbits] skip_count [of A tp "Suc j" nbits] Suc.prems(1,2) c
      unfolding t by (subst parse_loop.simps) auto
  next
    case False
    obtain m1 v m2 where m2: "uu_bitmap_shift_left p p 32 n m = Some m1" "aget m1 p 0 = Some v" "aset m1 p 0 (v OR ucast ?ch) = Some m2" "has_bits m2 p n"
      by (rule append_chunk_safe [OF n Suc.prems(1), of ?ch])
    show ?thesis using IH [OF m2(4) count_chunk [OF top(1,2) Suc.prems(2) refl False]] unfolding t
      by (subst parse_loop.simps) (use c False m2(1-3) in \<open>auto simp: Let_def\<close>)
  qed
qed

lemma parse_too_big:
  assumes "0 < n" and "0 < k" and "A \<subseteq> {..<k}" and "\<not> A \<subseteq> {..<n}" and "has_bits m p n"
  shows "\<exists>m'. uu_bitmap_parse (hex_text k A @ NUL # rest) (length (hex_text k A) + Suc l) p n m = Some (Inl EOVERFLOW, m')"
proof -
  define j where "j = (k - 1) div 32"
  obtain m1 where m1: "bitmap_zero False p n m = Some m1" "has_bits m1 p n" using inline_zero [OF assms(1,5), of False] by blast
  have fin: "finite A" using assms(3) finite_subset by blast
  obtain a where a: "a \<in> A" "n \<le> a" using assms(4) by (metis lessThan_iff not_le subsetI)
  have "A \<noteq> {}" using a(1) by auto
  then have top: "Max A \<in> A" "\<forall>b \<in> A. b \<le> Max A" using fin by simp_all
  then have "n \<le> Max A" using a le_trans by blast
  note top = top this
  have "k \<le> 32 * Suc j" using last_chunk [OF assms(2)] unfolding j_def mult_Suc_right by linarith
  then have "bits_counted A (Max A) (Suc j) 0 0" using assms(3) by (auto simp: bits_counted_def)
  then have "\<exists>m'. parse_loop p n (hex_text k A @ NUL # rest) (length (hex_text k A) + Suc l) NUL 0 0 0 m1 = Some (Inl EOVERFLOW, m')"
    using parse_overflow [OF assms(1) top m1(2), of j 0 0 NUL] separators unfolding hex_text_def j_def by fastforce
  then show ?thesis using m1(1) by (auto simp: uu_bitmap_parse_def)
qed

section \<open>Lists of ranges\<close>

lemma range_out:
  assumes "a \<le> b" and "b < 2 ^ 31" and "n \<le> b" and "\<not> isdigit c" and "c \<noteq> CHR ''-''"
  shows "parselist_loop p n (range_text (a, b) @ c # rest) m = Some (Inl ERANGE, m)"
proof -
  have "unat (of_nat a :: u32) = a" "unat (of_nat b :: u32) = b" "unat (of_nat n :: u32) = n" using assms(1-3) by (simp_all add: unat_of_nat)
  then show ?thesis using parse_range_text [OF assms(1,2,4,5), of rest] assms(1,3) by (subst parselist_loop.simps) (simp add: word_le_nat_alt)
qed

lemma range_in:
  assumes "a \<le> b" and "b < n" and "n < 2 ^ 31" and "has_bits m p n"
  obtains m1 where "parselist_loop p n (range_text (a, b) @ CHR '','' # range_text r @ rest) m = parselist_loop p n (range_text r @ rest) m1"
    and "has_bits m1 p n"
proof -
  obtain m1 where m1: "for_up a (b + 1) (\<lambda>i m. set_bit (int i) p m) m = Some m1" "has_bits m1 p n" using set_range [OF assms(4,1,2)] by blast
  have "parse_range (range_text (a, b) @ CHR '','' # range_text r @ rest) = Some (Inr (of_nat a, of_nat b, CHR '','' # range_text r @ rest))"
    using assms separators by (intro parse_range_text) simp_all
  moreover have "unat (of_nat a :: u32) = a" "unat (of_nat b :: u32) = b" "unat (of_nat n :: u32) = n" using assms by (simp_all add: unat_of_nat)
  moreover obtain c cs where c: "range_text r = c # cs" "isdigit c" using range_text_head by blast
  moreover have "c \<noteq> NUL" "c \<noteq> CHR 0x0A" using c(2) by (auto simp: isdigit_def code_def)
  ultimately have "parselist_loop p n (range_text (a, b) @ CHR '','' # range_text r @ rest) m = parselist_loop p n (range_text r @ rest) m1"
    using m1(1) assms(1,2) by (subst parselist_loop.simps) (simp add: word_le_nat_alt)
  then show thesis using that m1(2) by blast
qed

lemma parselist_over:
  assumes "n < 2 ^ 31"
  shows "has_bits m p n \<Longrightarrow> \<forall>(a, b) \<in> set (r # rs). a \<le> b \<and> b < 2 ^ 31 \<Longrightarrow> \<exists>(a, b) \<in> set (r # rs). n \<le> b \<Longrightarrow>
    \<exists>m'. parselist_loop p n (range_text r @ concat (map (\<lambda>r. CHR '','' # range_text r) rs) @ NUL # rest) m = Some (Inl ERANGE, m')"
proof (induction rs arbitrary: r m)
  case Nil
  then show ?case using range_out [of "fst r" "snd r" n NUL] separators by (cases r) auto
next
  case (Cons r' rs)
  obtain a b where r: "r = (a, b)" "a \<le> b" "b < 2 ^ 31" using Cons.prems(2) by (cases r) auto
  let ?t = "range_text r' @ concat (map (\<lambda>r. CHR '','' # range_text r) rs) @ NUL # rest"
  show ?case
  proof (cases "n \<le> b")
    case True
    then show ?thesis using range_out [OF r(2,3) True, of "CHR '',''" p ?t m] separators r(1) by simp
  next
    case False
    then obtain m1 where m1: "parselist_loop p n (range_text (a, b) @ CHR '','' # ?t) m = parselist_loop p n ?t m1" "has_bits m1 p n"
      using range_in [OF r(2) _ assms Cons.prems(1), of r' "concat (map (\<lambda>r. CHR '','' # range_text r) rs) @ NUL # rest"] by auto
    then show ?thesis using Cons.IH [OF m1(2), of r'] Cons.prems(2,3) False r(1) by auto
  qed
qed

lemma parselist_too_big:
  assumes "0 < n" and "n < 2 ^ 31" and "A \<subseteq> {..<2 ^ 31}" and "\<not> A \<subseteq> {..<n}" and "has_bits m p n"
  shows "\<exists>m'. bitmap_parselist (list_text (ranges (sorted_list_of_set A)) @ NUL # rest) p n m = Some (Inl ERANGE, m')"
proof -
  have fin: "finite A" using assms(3) finite_subset by blast
  have "A \<noteq> {}" using assms(4) by auto
  then obtain x xs where x: "sorted_list_of_set A = x # xs" using fin by (cases "sorted_list_of_set A") auto
  have s: "sorted_wrt (<) (x # xs)" "set (x # xs) = A" using fin by (simp_all flip: x)
  obtain r rs where r: "ranges_from x x xs = r # rs" using ranges_from_nonempty by (cases "ranges_from x x xs") auto
  have "\<forall>x \<in> set (x # xs). x < 2 ^ 31" using s(2) assms(3) by blast
  then have b: "\<forall>(a, b) \<in> set (r # rs). a \<le> b \<and> b < 2 ^ 31" using ranges_from_bounded [OF s(1), of "2 ^ 31" x] unfolding r by blast
  have cov: "(\<Union>(a, b) \<in> set (r # rs). {a..b}) = A" using ranges_from_covers [OF s(1), of x] s(2) by (simp add: r)
  obtain i where "i \<in> A" "n \<le> i" using assms(4) by (metis lessThan_iff not_le subsetI)
  then obtain a b where "(a, b) \<in> set (r # rs)" "i \<le> b" unfolding cov [symmetric] by (auto simp del: set_simps)
  then have o: "\<exists>(a, b) \<in> set (r # rs). n \<le> b" using \<open>n \<le> i\<close> le_trans by blast
  obtain m1 where m1: "bitmap_zero False p n m = Some m1" "has_bits m1 p n" using inline_zero [OF assms(1,5), of False] by blast
  show ?thesis using parselist_over [OF assms(2) m1(2) b o, of rest] m1(1) r x by (simp add: bitmap_parselist_def list_text_Cons)
qed

section \<open>The parsers\<close>

text \<open>
  C30: bitmap_parse of the hexadecimal text of a set, of any number of groups, into a bitmap of n bits succeeds with that
  set when all its elements are below n, and fails with EOVERFLOW otherwise; bitmap_parselist of the list text of a set
  that is not empty does the same with ERANGE.
\<close>

theorem bitmap_parse_exact:
  assumes "0 < n" and "n < 2 ^ 31" and "0 < k" and "A \<subseteq> {..<k}" and "k \<le> 2 ^ 31" and "A \<noteq> {}" and "has_bits m p n"
    and "length (hex_text k A) < buflen"
  shows "(if A \<subseteq> {..<n}
      then \<exists>m'. bitmap_parse (hex_text k A @ NUL # rest) buflen p n m = Some (Inr (), m') \<and> bitset m' p n = A
      else \<exists>m'. bitmap_parse (hex_text k A @ NUL # rest) buflen p n m = Some (Inl EOVERFLOW, m')) \<and>
    (if A \<subseteq> {..<n}
      then \<exists>m'. bitmap_parselist (list_text (ranges (sorted_list_of_set A)) @ NUL # rest) p n m = Some (Inr (), m') \<and> bitset m' p n = A
      else \<exists>m'. bitmap_parselist (list_text (ranges (sorted_list_of_set A)) @ NUL # rest) p n m = Some (Inl ERANGE, m'))"
proof -
  obtain l where l: "buflen = length (hex_text k A) + Suc l" using assms(8) less_imp_Suc_add by fastforce
  have big: "A \<subseteq> {..<2 ^ 31}" using assms(4,5) by auto
  show ?thesis
  proof (cases "A \<subseteq> {..<n}")
    case True
    then show ?thesis using parse_fits [OF assms(1,3) True assms(4,7)] parselist_text [OF assms(1,2) True assms(6,7)]
      unfolding l bitmap_parse_def by (simp, blast)
  next
    case False
    then show ?thesis using parse_too_big [OF assms(1,3,4) False assms(7)] parselist_too_big [OF assms(1,2) big False assms(7)]
      unfolding l bitmap_parse_def by simp
  qed
qed

theorem bitmap_parse_exact_witness:
  "\<exists>m'. bitmap_parse (hex_text 40 {35} @ NUL # []) 20 128 35 ex_texts = Some (Inl EOVERFLOW, m')"
proof -
  have "length (hex_text 40 {35}) < 20" using hex_text_length [of 40 "{35}"] by (simp add: hex_size_def chunk_size_def)
  then show ?thesis using bitmap_parse_exact [of 35 40 "{35}" ex_texts 128 20 "[]"] ex_texts_bits(2) [of 35] by simp
qed

end
