(* ===== verification/Atomic_Gnuc.thy ===== *)
theory Atomic_Gnuc
  imports Atomic_Props
begin

text \<open>
  The other path of \<^verbatim>\<open>include/atomic.h\<close>, selected by \<^verbatim>\<open>__GNUC_ATOMICS\<close>: the same macros over the \<^verbatim>\<open>__atomic\<close> builtins of
  the compiler, with the fences of both paths. Every builtin is one indivisible step, and steps of several threads are
  interleaved, so a fence has no effect of its own. A weak compare-and-exchange may fail spuriously: \<open>spurious\<close> says whether it does.
\<close>

section \<open>Memory orders and fences\<close>

definition memory_order_value :: "memory_order \<Rightarrow> u32" where
  "memory_order_value order = (case order of
     memory_order_relaxed \<Rightarrow> 0 | memory_order_consume \<Rightarrow> 1 | memory_order_acquire \<Rightarrow> 2
   | memory_order_release \<Rightarrow> 3 | memory_order_acq_rel \<Rightarrow> 4 | memory_order_seq_cst \<Rightarrow> 5)"

definition atomic_thread_fence :: "memory_order \<Rightarrow> 'w::len cells \<Rightarrow> 'w cells" where
  "atomic_thread_fence order h = h"

definition atomic_signal_fence :: "memory_order \<Rightarrow> 'w::len cells \<Rightarrow> 'w cells" where
  "atomic_signal_fence order h = h"

section \<open>Builtins\<close>





section \<open>Operations\<close>













section \<open>The two paths\<close>






end
