(* ===== verification/C_Layout.thy ===== *)
theory C_Layout
  imports List_Props Bitops Htable_Props Lheap_Props Rbtree_Props
begin

text \<open>
  The macros of \<^verbatim>\<open>include/kernel.h\<close> and \<^verbatim>\<open>include/compiler.h\<close> that compute with C types: sizes, offsets of members and the
  number of elements of an array; and the structs of the library as types, with the layout of the LP64 target: every
  member at the next multiple of its alignment, the size rounded up to the alignment of the struct. The offsets and sizes
  that the other models use are consequences.
\<close>

section \<open>Types\<close>

text \<open>\<open>Tag\<close> refers to a struct by name below a pointer, where it may be incomplete.\<close>

datatype ctype = Scalar string nat | Tag string | Ptr ctype | Arr ctype nat | Struct "(string \<times> ctype) list"

definition pad :: "nat \<Rightarrow> nat \<Rightarrow> nat" where
  "pad a x = (x + (a - 1)) div a * a"

fun alignof :: "ctype \<Rightarrow> nat" and alignofs :: "(string \<times> ctype) list \<Rightarrow> nat" where
  "alignof (Scalar nm n) = n"
| "alignof (Tag nm) = 1"
| "alignof (Ptr t) = 8"
| "alignof (Arr t n) = alignof t"
| "alignof (Struct fs) = alignofs fs"
| "alignofs [] = 1"
| "alignofs ((f, t) # fs) = max (alignof t) (alignofs fs)"

fun sizeof :: "ctype \<Rightarrow> nat" and ends :: "nat \<Rightarrow> (string \<times> ctype) list \<Rightarrow> nat" where
  "sizeof (Scalar nm n) = n"
| "sizeof (Tag nm) = 0"
| "sizeof (Ptr t) = 8"
| "sizeof (Arr t n) = n * sizeof t"
| "sizeof (Struct fs) = pad (alignofs fs) (ends 0 fs)"
| "ends x [] = x"
| "ends x ((f, t) # fs) = ends (pad (alignof t) x + sizeof t) fs"

fun members :: "nat \<Rightarrow> (string \<times> ctype) list \<Rightarrow> (string \<times> nat \<times> ctype) list" where
  "members x [] = []"
| "members x ((f, t) # fs) = (f, pad (alignof t) x, t) # members (pad (alignof t) x + sizeof t) fs"

definition member :: "ctype \<Rightarrow> string \<Rightarrow> (nat \<times> ctype) option" where
  "member T f = (case T of Struct fs \<Rightarrow> map_of (members 0 fs) f | _ \<Rightarrow> None)"

section \<open>The macros\<close>

text \<open>A member that does not exist, and an array access to what is neither an array nor a pointer, do not compile.\<close>

definition offsetof :: "ctype \<Rightarrow> string \<Rightarrow> nat option" where
  "offsetof T f = map_option fst (member T f)"


fun elem_type :: "ctype \<Rightarrow> ctype option" where
  "elem_type (Arr t n) = Some t"
| "elem_type (Ptr t) = Some t"
| "elem_type _ = None"

definition same_type :: "ctype \<Rightarrow> ctype \<Rightarrow> nat" where
  "same_type a b = (if a = b then 1 else 0)"

definition must_be_array :: "ctype \<Rightarrow> nat option" where
  "must_be_array T = map_option (\<lambda>t. same_type T (Ptr t)) (elem_type T)"

definition ARRAY_SIZE :: "ctype \<Rightarrow> nat option" where
  "ARRAY_SIZE T = (case (elem_type T, must_be_array T) of
     (Some t, Some k) \<Rightarrow> if sizeof t = 0 then None else Some (sizeof T div sizeof t + k) | _ \<Rightarrow> None)"

section \<open>The structs of the library\<close>

abbreviation size_t :: ctype where "size_t \<equiv> Scalar ''size_t'' 8"

definition list_head_type :: ctype where
  "list_head_type = Struct [(''next'', Ptr (Tag ''list_head'')), (''prev'', Ptr (Tag ''list_head''))]"

definition hlist_head_type :: ctype where
  "hlist_head_type = Struct [(''first'', Ptr (Tag ''hlist_node''))]"

definition hlist_node_type :: ctype where
  "hlist_node_type = Struct [(''next'', Ptr (Tag ''hlist_node'')), (''pprev'', Ptr (Ptr (Tag ''hlist_node'')))]"

definition rb_node_type :: ctype where
  "rb_node_type = Struct [(''rb_parent_color'', Scalar ''unsigned long'' 8),
     (''rb_right'', Ptr (Tag ''rb_node'')), (''rb_left'', Ptr (Tag ''rb_node''))]"

definition rb_root_type :: ctype where
  "rb_root_type = Struct [(''rb_node'', Ptr (Tag ''rb_node''))]"

definition lh_node_type :: ctype where
  "lh_node_type = Struct [(''lh_parent'', Ptr (Tag ''lh_node'')), (''lh_left'', Ptr (Tag ''lh_node'')),
     (''lh_right'', Ptr (Tag ''lh_node'')), (''lh_npl'', Scalar ''int'' 4)]"

definition lh_heap_type :: ctype where
  "lh_heap_type = Struct [(''lh_node'', Ptr (Tag ''lh_node''))]"

definition htable_entry_type :: ctype where
  "htable_entry_type = Struct [(''node'', hlist_node_type), (''key'', Ptr (Tag ''void'')), (''len'', size_t),
     (''hash'', Scalar ''unsigned'' 4)]"

definition htable_bucket_type :: ctype where
  "htable_bucket_type = Struct [(''head'', hlist_head_type), (''count'', size_t), (''expand_mult'', Scalar ''unsigned'' 4)]"

definition htable_type :: ctype where
  "htable_type = Struct [(''bucks'', Ptr hlist_head_type), (''size'', size_t), (''count'', size_t),
     (''bitvect'', Ptr (Scalar ''uint8_t'' 1))]"

definition DECLARE_BITMAP :: "nat \<Rightarrow> ctype" where
  "DECLARE_BITMAP bits = Arr (Scalar ''unsigned long'' 8) (BITS_TO_LONGS bits)"

text \<open>
  The atomic types of \<^verbatim>\<open>atomic.h\<close>: a struct around a value of the underlying type, whose sizes are those of glibc on the
  same target.
\<close>

definition Atomic_type :: "ctype \<Rightarrow> ctype" where
  "Atomic_type T = Struct [(''__val'', T)]"

definition atomic_types :: "(string \<times> ctype) list" where
  "atomic_types = map (apsnd Atomic_type)
    [(''atomic_bool'', Scalar ''_Bool'' 1), (''atomic_char'', Scalar ''char'' 1),
     (''atomic_schar'', Scalar ''signed char'' 1), (''atomic_uchar'', Scalar ''unsigned char'' 1),
     (''atomic_short'', Scalar ''short'' 2), (''atomic_ushort'', Scalar ''unsigned short'' 2),
     (''atomic_int'', Scalar ''int'' 4), (''atomic_uint'', Scalar ''unsigned int'' 4),
     (''atomic_long'', Scalar ''long'' 8), (''atomic_ulong'', Scalar ''unsigned long'' 8),
     (''atomic_llong'', Scalar ''long long'' 8), (''atomic_ullong'', Scalar ''unsigned long long'' 8),
     (''atomic_wchar_t'', Scalar ''wchar_t'' 4), (''atomic_int_least8_t'', Scalar ''int_least8_t'' 1),
     (''atomic_uint_least8_t'', Scalar ''uint_least8_t'' 1), (''atomic_int_least16_t'', Scalar ''int_least16_t'' 2),
     (''atomic_uint_least16_t'', Scalar ''uint_least16_t'' 2),
     (''atomic_int_least32_t'', Scalar ''int_least32_t'' 4),
     (''atomic_uint_least32_t'', Scalar ''uint_least32_t'' 4),
     (''atomic_int_least64_t'', Scalar ''int_least64_t'' 8),
     (''atomic_uint_least64_t'', Scalar ''uint_least64_t'' 8), (''atomic_int_fast8_t'', Scalar ''int_fast8_t'' 1),
     (''atomic_uint_fast8_t'', Scalar ''uint_fast8_t'' 1), (''atomic_int_fast16_t'', Scalar ''int_fast16_t'' 8),
     (''atomic_uint_fast16_t'', Scalar ''uint_fast16_t'' 8), (''atomic_int_fast32_t'', Scalar ''int_fast32_t'' 8),
     (''atomic_uint_fast32_t'', Scalar ''uint_fast32_t'' 8), (''atomic_int_fast64_t'', Scalar ''int_fast64_t'' 8),
     (''atomic_uint_fast64_t'', Scalar ''uint_fast64_t'' 8), (''atomic_intptr_t'', Scalar ''intptr_t'' 8),
     (''atomic_uintptr_t'', Scalar ''uintptr_t'' 8), (''atomic_size_t'', Scalar ''size_t'' 8),
     (''atomic_ptrdiff_t'', Scalar ''ptrdiff_t'' 8), (''atomic_intmax_t'', Scalar ''intmax_t'' 8),
     (''atomic_uintmax_t'', Scalar ''uintmax_t'' 8)]"

section \<open>Well-formed types\<close>

fun wf :: "ctype \<Rightarrow> bool" and wfs :: "(string \<times> ctype) list \<Rightarrow> bool" where
  "wf (Scalar nm n) \<longleftrightarrow> n \<in> {1, 2, 4, 8}"
| "wf (Tag nm) \<longleftrightarrow> False"
| "wf (Ptr t) \<longleftrightarrow> True"
| "wf (Arr t n) \<longleftrightarrow> wf t \<and> 0 < n"
| "wf (Struct fs) \<longleftrightarrow> wfs fs \<and> fs \<noteq> []"
| "wfs [] \<longleftrightarrow> True"
| "wfs ((f, t) # fs) \<longleftrightarrow> wf t \<and> f \<notin> fst ` set fs \<and> wfs fs"

lemma align_cases: "wf t \<Longrightarrow> alignof t \<in> {1, 2, 4, 8}" "wfs fs \<Longrightarrow> alignofs fs \<in> {1, 2, 4, 8}"
  by (induction t and fs rule: wf_wfs.induct) (auto simp: max_def)


lemma pad_props:
  assumes "0 < a"
  shows "x \<le> pad a x" and "a dvd pad a x" and "pad a x < x + a"
proof -
  have e: "x + (a - 1) = pad a x + (x + (a - 1)) mod a" unfolding pad_def by simp
  have "(x + (a - 1)) mod a < a" using assms by simp
  then show "x \<le> pad a x" "pad a x < x + a" using e assms by linarith+
  show "a dvd pad a x" by (simp add: pad_def)
qed

lemma pad_aligned: "0 < a \<Longrightarrow> a dvd x \<Longrightarrow> pad a x = x"
proof -
  assume a: "0 < a" "a dvd x"
  have "a dvd pad a x - x" "pad a x - x < a" using a pad_props [OF a(1), of x] by (simp_all add: dvd_diff_nat less_diff_conv2 add.commute)
  then show ?thesis using pad_props(1) [OF a(1), of x] by (auto dest: dvd_imp_le)
qed

lemma ends_mono: "wfs fs \<Longrightarrow> x \<le> ends x fs"
proof (induction fs arbitrary: x)
  case (Cons ft fs)
  obtain f t where ft: "ft = (f, t)" by (cases ft)
  have "0 < alignof t" using align_cases(1) [of t] Cons.prems ft by auto
  then have "x \<le> pad (alignof t) x + sizeof t" using pad_props(1) [of "alignof t" x] by simp
  also have "\<dots> \<le> ends (pad (alignof t) x + sizeof t) fs" using Cons ft by simp
  finally show ?case by (simp add: ft)
qed simp



lemma size_aligned: "wf t \<Longrightarrow> alignof t dvd sizeof t"
proof (induction t)
  case (Struct fs)
  then show ?case using pad_props(2) [of "alignofs fs"] align_cases(2) [of fs] by auto
qed auto

lemma size_pos: "wf t \<Longrightarrow> 0 < sizeof t" "wfs fs \<Longrightarrow> fs \<noteq> [] \<Longrightarrow> x < ends x fs"
proof (induction t and fs arbitrary: and x rule: wf_wfs.induct)
  case (5 fs)
  then have "0 < ends 0 fs" by simp
  moreover have "0 < alignofs fs" using align_cases(2) [of fs] 5 by auto
  ultimately show ?case using pad_props(1) [of "alignofs fs" "ends 0 fs"] by simp
next
  case (7 f t fs)
  have a: "0 < alignof t" using align_cases(1) [of t] 7 by auto
  have "x < pad (alignof t) x + sizeof t" using pad_props(1) [OF a, of x] 7 by simp
  also have "\<dots> \<le> ends (pad (alignof t) x + sizeof t) fs" using ends_mono 7 by simp
  finally show ?case by simp
qed auto




section \<open>Properties\<close>

lemma library_types_wf:
  "\<forall>t \<in> {list_head_type, hlist_head_type, hlist_node_type, rb_node_type, rb_root_type, lh_node_type, lh_heap_type,
     htable_entry_type, htable_bucket_type, htable_type}. wf t"
  by (simp add: list_head_type_def hlist_head_type_def hlist_node_type_def rb_node_type_def rb_root_type_def
      lh_node_type_def lh_heap_type_def htable_entry_type_def htable_bucket_type_def htable_type_def)

lemma Atomic_type_layout:
  assumes "wf T"
  shows "wf (Atomic_type T)" and "sizeof (Atomic_type T) = sizeof T" and "offsetof (Atomic_type T) ''__val'' = Some 0"
proof -
  have a: "0 < alignof T" using align_cases(1) [OF assms] by auto
  then show "sizeof (Atomic_type T) = sizeof T"
    using pad_aligned [OF a size_aligned [OF assms]] by (simp add: Atomic_type_def pad_aligned max_def Suc_le_eq)
  show "wf (Atomic_type T)" using assms by (simp add: Atomic_type_def)
  show "offsetof (Atomic_type T) ''__val'' = Some 0" using a by (simp add: Atomic_type_def offsetof_def member_def pad_def)
qed

lemma atomic_types_wf: "\<forall>(n, t) \<in> set atomic_types. wf t \<and> sizeof t \<in> {1, 2, 4, 8} \<and> offsetof t ''__val'' = Some 0"
  by (simp add: atomic_types_def Atomic_type_layout)

text \<open>The addresses that the models of the hash table use: an entry and its list node, and the heads of the buckets.\<close>

lemma htable_addresses:
  "offsetof htable_entry_type ''node'' = Some 0" "buck_addr t i = bucks t + of_nat (i * sizeof hlist_head_type)"
  "offsetof hlist_node_type ''next'' = Some 0" "sizeof htable_entry_type = 40"
  by (simp_all add: htable_entry_type_def hlist_node_type_def hlist_head_type_def offsetof_def member_def pad_def buck_addr_def)



text \<open>
  ARRAY_SIZE of an array is its number of elements; of a bitmap declared by DECLARE_BITMAP it is the least number of
  words that hold the bits. On a pointer the macro compiles as well, and yields one more than the quotient of the sizes,
  since __must_be_array evaluates to 1 there instead of failing.
\<close>

theorem ARRAY_SIZE_elements:
  assumes "wf (Arr t n)"
  shows "ARRAY_SIZE (Arr t n) = Some n \<and> sizeof (Arr t n) = n * sizeof t \<and> must_be_array (Arr t n) = Some 0 \<and>
    must_be_array (Ptr t) = Some 1 \<and> ARRAY_SIZE (Ptr t) = Some (8 div sizeof t + 1) \<and>
    (\<exists>k. ARRAY_SIZE (DECLARE_BITMAP bits) = Some k \<and> bits \<le> 64 * k \<and> 64 * k < bits + 64)"
proof -
  have s: "0 < sizeof t" using size_pos(1) assms by simp
  have b: "bits \<le> 64 * BITS_TO_LONGS bits \<and> 64 * BITS_TO_LONGS bits < bits + 64"
    unfolding BITS_TO_LONGS_def by linarith
  have "ARRAY_SIZE (DECLARE_BITMAP bits) = Some (BITS_TO_LONGS bits)"
    by (simp add: ARRAY_SIZE_def must_be_array_def same_type_def DECLARE_BITMAP_def)
  then show ?thesis using s b by (simp add: ARRAY_SIZE_def must_be_array_def same_type_def)
qed

theorem ARRAY_SIZE_elements_witness:
  "ARRAY_SIZE (Arr hlist_node_type 3) = Some 3 \<and> ARRAY_SIZE (Ptr hlist_node_type) = Some 1 \<and>
   (\<exists>k. ARRAY_SIZE (DECLARE_BITMAP 65) = Some k \<and> 65 \<le> 64 * k \<and> 64 * k < 65 + 64)"
  using ARRAY_SIZE_elements [of hlist_node_type 3 65]
  by (auto simp: hlist_node_type_def pad_def)

end
