(* ===== verification/Compiler.thy ===== *)
theory Compiler
  imports List_Head Kernel_Macros Hash_Props
begin

text \<open>
  What has a value or an effect in \<^verbatim>\<open>include/compiler.h\<close> and \<^verbatim>\<open>include/debug.h\<close>: the branch hints, the hidden pointer
  arithmetic, the single access, the unreachable statement, and the levelled debug output. Scalars are words.
\<close>

section \<open>Hints and accesses\<close>

text \<open>\<^verbatim>\<open>__builtin_expect(v, c)\<close> has the value \<open>v\<close>; the hint \<open>c\<close> is for the optimiser.\<close>

definition builtin_expect :: "int \<Rightarrow> int \<Rightarrow> int" where
  "builtin_expect v c = v"

definition not_not :: "u64 \<Rightarrow> int" where
  "not_not x = (if x = 0 then 0 else 1)"

definition likely :: "u64 \<Rightarrow> int" where
  "likely x = builtin_expect (not_not x) 1"

definition unlikely :: "u64 \<Rightarrow> int" where
  "unlikely x = builtin_expect (not_not x) 0"

definition RELOC_HIDE :: "addr \<Rightarrow> u64 \<Rightarrow> addr" where
  "RELOC_HIDE ptr off = (let p = ptr in p + off)"

definition ACCESS_ONCE_load :: "'a heap \<Rightarrow> addr \<Rightarrow> 'a option" where
  "ACCESS_ONCE_load h x = deref h x"

definition ACCESS_ONCE_store :: "addr \<Rightarrow> 'a \<Rightarrow> 'a heap \<Rightarrow> 'a heap option" where
  "ACCESS_ONCE_store x v h = modf (\<lambda>_. v) x h"

text \<open>The loop \<^verbatim>\<open>do { } while (1)\<close> never returns.\<close>

partial_function (option) unreachable_loop :: "unit \<Rightarrow> unit option" where
  "unreachable_loop u = unreachable_loop u"

lemma branch_hints: "likely x = unlikely x" "likely x \<noteq> 0 \<longleftrightarrow> x \<noteq> 0"
  by (simp_all add: likely_def unlikely_def builtin_expect_def not_not_def)

lemma RELOC_HIDE_container_of: "container_of (RELOC_HIDE p off) off = p"
  by (simp add: RELOC_HIDE_def container_of_def Let_def)

lemma ACCESS_ONCE_store_load:
  assumes "valid h x"
  shows "\<exists>h'. ACCESS_ONCE_store x v h = Some h' \<and> ACCESS_ONCE_load h' x = Some v \<and>
    (\<forall>y. y \<noteq> x \<longrightarrow> ACCESS_ONCE_load h' y = ACCESS_ONCE_load h y)"
  using assms by (auto simp: valid_deref ACCESS_ONCE_store_def ACCESS_ONCE_load_def modf_def deref_def)

lemma unreachable_never_returns: "unreachable_loop u = None"
proof -
  have "False" if "unreachable_loop u = Some r" for r
    using that by (rule unreachable_loop.raw_induct [of "\<lambda>_ _. False", rotated])
  then show ?thesis by (cases "unreachable_loop u") auto
qed

section \<open>Debug output\<close>

text \<open>
  The configuration of a build is the value of \<^verbatim>\<open>DEBUG_LEVEL\<close>, when it is given, and whether \<^verbatim>\<open>DEBUG\<close> is defined by itself. The
  stream \<^verbatim>\<open>stderr\<close> is the text written so far; \<open>msg\<close> is the text of the format with its arguments, \<open>file\<close> and \<open>line\<close> the place of the
  macro with the line number in decimal.
\<close>

record debug_config =
  level_given :: "int option"
  debug_defined :: bool

definition DLVL_ALL :: int where "DLVL_ALL = 7"

definition DLVL_TRACE :: int where "DLVL_TRACE = 6"

definition DLVL_DEBUG :: int where "DLVL_DEBUG = 5"

definition DLVL_INFO :: int where "DLVL_INFO = 4"

definition DLVL_WARN :: int where "DLVL_WARN = 3"

definition DLVL_ERROR :: int where "DLVL_ERROR = 2"

definition DLVL_FATAL :: int where "DLVL_FATAL = 1"

definition DEBUG :: "debug_config \<Rightarrow> bool" where
  "DEBUG c \<longleftrightarrow> level_given c \<noteq> None \<or> debug_defined c"

definition DEBUG_LEVEL :: "debug_config \<Rightarrow> int" where
  "DEBUG_LEVEL c = (case level_given c of Some l \<Rightarrow> l | None \<Rightarrow> DLVL_INFO)"

definition DPRINTF :: "debug_config \<Rightarrow> int \<Rightarrow> string \<Rightarrow> string \<Rightarrow> string \<Rightarrow> string \<Rightarrow> string" where
  "DPRINTF c lvl file line msg out = (if DEBUG c then
     (if lvl \<le> DEBUG_LEVEL c then out @ file @ '':'' @ line @ '' '' @ msg else out) else out)"

lemma DPRINTF_silent: "level_given c = None \<Longrightarrow> \<not> debug_defined c \<Longrightarrow> DPRINTF c lvl file line msg out = out"
  by (simp add: DPRINTF_def DEBUG_def)

lemma DPRINTF_levels:
  assumes "DPRINTF c lvl file line msg out \<noteq> out" and "lvl' \<le> lvl" and "level_given c = Some l" and "l \<le> l'"
  shows "DPRINTF (c\<lparr>level_given := Some l'\<rparr>) lvl' file line msg out = out @ file @ '':'' @ line @ '' '' @ msg"
  using assms by (auto simp: DPRINTF_def DEBUG_def DEBUG_LEVEL_def split: if_splits)

lemma DPRINTF_default:
  assumes "level_given c = None" and "debug_defined c"
  shows "(DPRINTF c lvl file line msg out \<noteq> out) \<longleftrightarrow> lvl \<le> DLVL_INFO"
  using assms by (auto simp: DPRINTF_def DEBUG_def DEBUG_LEVEL_def)

end
