(* ===== verification/Target32.thy ===== *)
theory Target32
  imports Bitops_Props Hash_Props
begin

text \<open>
  The conditional code of \<^verbatim>\<open>include/bitops.h\<close> and \<^verbatim>\<open>include/hash.h\<close> for \<^verbatim>\<open>__WORDSIZE == 32\<close>, where \<^verbatim>\<open>unsigned long\<close> is a 32-bit
  word. \<^verbatim>\<open>ffs\<close> is the function of the C library, which counts bits from 1.
\<close>

section \<open>The 32-bit variants\<close>

definition ffs_step_ilp32 :: "u32 \<Rightarrow> nat \<Rightarrow> int \<times> u32 \<Rightarrow> int \<times> u32" where
  "ffs_step_ilp32 msk k st = (case st of (num, word) \<Rightarrow>
     if word AND msk = 0 then (num + int k, drop_bit k word) else (num, word))"

definition ffs_ilp32 :: "u32 \<Rightarrow> u32" where
  "ffs_ilp32 word = (let
       st = ffs_step_ilp32 0xffff 16 (0, word);
       st = ffs_step_ilp32 0xff 8 st;
       st = ffs_step_ilp32 0xf 4 st;
       st = ffs_step_ilp32 0x3 2 st;
       num = (if snd st AND 1 = 0 then fst st + 1 else fst st)
     in word_of_int num)"

definition libc_ffs :: "u32 \<Rightarrow> int" where
  "libc_ffs w = (case filter (bit w) [0..<32] of [] \<Rightarrow> 0 | n # ns \<Rightarrow> int n + 1)"

definition ffs64_ilp32 :: "u64 \<Rightarrow> u32" where
  "ffs64_ilp32 word = (if (ucast word :: u32) = 0 then word_of_int (libc_ffs (ucast (drop_bit 32 word)) + 32)
     else ffs_ilp32 (ucast word))"

definition fls64_ilp32 :: "u64 \<Rightarrow> int" where
  "fls64_ilp32 x = (let h = ucast (drop_bit 32 x) in if h \<noteq> 0 then fls h + 32 else fls (ucast x))"

definition hash_long_ilp32 :: "u32 \<Rightarrow> u32 \<Rightarrow> u32 option" where
  "hash_long_ilp32 val bits = hash_32 val bits"

section \<open>Agreement with the 64-bit search\<close>

lemma ffs_step_up:
  "k \<le> 32 \<Longrightarrow> ffs_step (mask k) k (n, ucast w) = apsnd ucast (ffs_step_ilp32 (mask k) k (n, w))"
proof -
  assume k: "k \<le> 32"
  have "(ucast w :: u64) AND mask k = 0 \<longleftrightarrow> w AND mask k = 0"
    using k by (auto simp: and_mask_zero bit_simps)
  moreover have "drop_bit k (ucast w :: u64) = ucast (drop_bit k w)" 
    by (rule bit_word_eqI) (auto simp: bit_simps dest: bit_imp_le_length)
  ultimately show ?thesis by (simp add: ffs_step_def ffs_step_ilp32_def)
qed

lemma masks: "(0xffffffff :: u64) = mask 32" "(0xffff :: 'a::len word) = mask 16" "(0xff :: 'a word) = mask 8"
  "(0xf :: 'a word) = mask 4" "(3 :: 'a word) = mask 2"
  by (simp_all add: mask_eq_exp_minus_1)

lemma ucast_small: "0 \<le> n \<Longrightarrow> n < 2 ^ 32 \<Longrightarrow> ucast (word_of_int n :: u32) = (word_of_int n :: u64)"
  by (simp add: unsigned_of_int take_bit_int_eq_self flip: word_of_int_uint)

lemma ucast_back: "ucast (ucast w :: u64) = w" for w :: u32
  by (rule bit_word_eqI) (auto simp: bit_simps)

lemma ffs_up:
  assumes "w \<noteq> 0"
  shows "uu_ffs (ucast w) = ucast (ffs_ilp32 w)"
proof -
  define s where "s = ffs_step_ilp32 (mask 2) 2 (ffs_step_ilp32 (mask 4) 4 (ffs_step_ilp32 (mask 8) 8
    (ffs_step_ilp32 (mask 16) 16 (0, w))))"
  have up: "ffs_step (mask k) k (apsnd ucast st) = apsnd ucast (ffs_step_ilp32 (mask k) k st)" if "k \<le> 32" for k st
    using ffs_step_up [OF that, of "fst st" "snd st"] by (cases st) simp
  have "ucast w AND mask 32 \<noteq> (0 :: u64)" using assms by (auto simp: and_mask_zero word_neq0_bit bit_simps)
  then have z: "ffs_step (mask 32) 32 (0, ucast w) = apsnd ucast (0, w)" by (simp add: ffs_step_def)
  have "ffs_step (mask 2) 2 (ffs_step (mask 4) 4 (ffs_step (mask 8) 8 (ffs_step (mask 16) 16
      (ffs_step (mask 32) 32 (0, ucast w))))) = apsnd ucast s"
    unfolding z s_def by (simp add: up del: apsnd_conv)
  moreover have "(ucast (snd s) :: u64) AND 1 = 0 \<longleftrightarrow> snd s AND 1 = 0"
    using and_mask_zero [of "ucast (snd s) :: u64" 1] and_mask_zero [of "snd s" 1] by (simp add: bit_simps)
  moreover have "fst s \<in> {0..30}" unfolding s_def by (auto simp: ffs_step_ilp32_def)
  ultimately show ?thesis
    unfolding uu_ffs_def ffs_ilp32_def masks Let_def s_def [symmetric] by (simp add: ucast_small)
qed

lemma libc_ffs_first:
  assumes "w \<noteq> 0"
  obtains n where "libc_ffs w = int n + 1" and "n < 32" and "bit w n" and "\<forall>i < n. \<not> bit w i"
proof -
  define n where "n = (LEAST i. bit w i)"
  have b: "bit w n" unfolding n_def using assms by (meson LeastI bit_eq_iff bit_0_eq word_neq0_bit)
  have m: "\<forall>i < n. \<not> bit w i" unfolding n_def using not_less_Least by blast
  have l: "n < 32" using bit_imp_le_length [OF b] by simp
  have "[0..<32] = [0..<n] @ n # [Suc n..<32]" using l by (metis upt_conv_Cons less_imp_le upt_add_eq_append le_add_diff_inverse zero_le)
  moreover have "filter (bit w) [0..<n] = []" using m by simp
  ultimately have "libc_ffs w = int n + 1" using b by (simp add: libc_ffs_def)
  then show thesis using that b m l by blast
qed

lemma halves:
  "bit (ucast x :: u32) i \<longleftrightarrow> i < 32 \<and> bit x i" "bit (ucast (drop_bit 32 x) :: u32) i \<longleftrightarrow> bit x (32 + i)" for x :: u64
  by (auto simp: bit_simps dest: bit_imp_le_length)

lemma fls64_ilp32_last:
  assumes "x \<noteq> 0"
  obtains n where "fls64_ilp32 x = int (Suc n)" and "bit x n" and "\<forall>i > n. \<not> bit x i"
proof (cases "(ucast (drop_bit 32 x) :: u32) = 0")
  case True
  then have h: "\<not> bit x i" if "i \<ge> 32" for i using that halves(2) [of x "i - 32"] by simp
  moreover obtain i where "bit x i" using assms by (rule uu_ffs_first)
  ultimately have "bit (ucast x :: u32) i" by (auto simp: halves not_le [symmetric])
  then have "(ucast x :: u32) \<noteq> 0" by auto
  then obtain n where "fls (ucast x) = int (Suc n)" "bit (ucast x :: u32) n" "\<forall>i > n. \<not> bit (ucast x :: u32) i"
    by (rule fls_last)
  then show thesis using that [of n] True h by (auto simp: fls64_ilp32_def halves not_less)
next
  case False
  then obtain n where n: "fls (ucast (drop_bit 32 x)) = int (Suc n)" "bit x (32 + n)" "\<forall>i > n. \<not> bit x (32 + i)"
    unfolding halves(2) [symmetric] by (rule fls_last)
  have "\<not> bit x i" if "i > 32 + n" for i using n(3) [rule_format, of "i - 32"] that by simp
  then show thesis using that [of "32 + n"] n False by (simp add: fls64_ilp32_def)
qed

lemma ffs64_ilp32_value:
  assumes "x \<noteq> 0"
  shows "ffs64_ilp32 x = ucast (uu_ffs64 x) + (if (ucast x :: u32) = 0 then 1 else 0)"
proof -
  obtain n where n: "uu_ffs x = of_nat n" "n < 64" "bit x n" "\<forall>i < n. \<not> bit x i" using assms by (rule uu_ffs_first)
  show ?thesis
  proof (cases "(ucast x :: u32) = 0")
    case True
    then have z: "\<not> bit x i" if "i < 32" for i using that halves(1) [of x i] by simp
    have "32 \<le> n" using n(3) z by (meson not_le)
    then have "bit (ucast (drop_bit 32 x) :: u32) (n - 32)" using n(3) halves(2) [of x "n - 32"] by simp
    then have "(ucast (drop_bit 32 x) :: u32) \<noteq> 0" by auto
    then obtain m where m: "libc_ffs (ucast (drop_bit 32 x)) = int m + 1" "bit x (32 + m)" "\<forall>i < m. \<not> bit x (32 + i)"
      unfolding halves(2) [symmetric] by (rule libc_ffs_first)
    have "n = 32 + m"
    proof (rule antisym)
      show "n \<le> 32 + m" using n(4) m(2) by (meson not_le)
      show "32 + m \<le> n" using m(3) [rule_format, of "n - 32"] n(3) \<open>32 \<le> n\<close> by (cases "n - 32 < m") auto
    qed
    then have "libc_ffs (ucast (drop_bit 32 x)) + 32 = int (Suc n)" using m(1) by simp
    then have "ffs64_ilp32 x = of_nat (Suc n)" using True by (simp only: ffs64_ilp32_def refl if_True of_int_of_nat_eq)
    moreover have "(ucast (of_nat n :: u64) :: u32) = of_nat n"
      by (rule bit_word_eqI) (simp add: bit_simps)
    ultimately show ?thesis using True n(1) by (simp add: uu_ffs64_def)
  next
    case False
    then have "(ucast (ucast x :: u32) :: u64) \<noteq> 0" using ucast_back [of "ucast x"] by force
    then obtain m where m: "uu_ffs (ucast (ucast x :: u32)) = of_nat m" "bit (ucast (ucast x :: u32) :: u64) m"
        "\<forall>i < m. \<not> bit (ucast (ucast x :: u32) :: u64) i" by (rule uu_ffs_first)
    have "bit (ucast (ucast x :: u32) :: u64) i \<longleftrightarrow> i < 32 \<and> bit x i" for i by (auto simp: bit_simps)
    then have "bit x m" "m < 32" "\<forall>i < m. \<not> bit x i" using m(2,3) by auto
    then have "m = n" using n(3,4) by (meson linorder_neqE_nat)
    then have "uu_ffs (ucast (ucast x :: u32)) = of_nat n" using m(1) by simp
    then have "ffs_ilp32 (ucast x) = ucast (uu_ffs x)" using ffs_up [OF False] ucast_back n(1) by metis
    then show ?thesis using False by (simp add: ffs64_ilp32_def uu_ffs64_def)
  qed
qed

section \<open>Properties\<close>

text \<open>
  the 32-bit variants against what the functions promise. fls64 finds the last set bit, as it does not on the 64-bit target.
  __ffs64 agrees with the 64-bit target when the low half is not zero, and otherwise is one too large, because
  ffs of the C library counts from 1 and __ffs from 0.
\<close>

theorem ilp32_searches:
  assumes "x \<noteq> 0"
  shows "0 < fls64_ilp32 x \<and> bit x (nat (fls64_ilp32 x - 1)) \<and> (\<forall>i \<ge> nat (fls64_ilp32 x). \<not> bit x i) \<and>
    ffs64_ilp32 x = ucast (uu_ffs64 x) + (if (ucast x :: u32) = 0 then 1 else 0)"
proof -
  obtain n where "fls64_ilp32 x = int (Suc n)" "bit x n" "\<forall>i > n. \<not> bit x i" using assms by (rule fls64_ilp32_last)
  then show ?thesis using ffs64_ilp32_value [OF assms] by simp
qed

theorem ilp32_searches_witness:
  "0 < fls64_ilp32 (3 * 2 ^ 40) \<and> bit (3 * 2 ^ 40 :: u64) (nat (fls64_ilp32 (3 * 2 ^ 40) - 1)) \<and>
   ffs64_ilp32 (3 * 2 ^ 40) = ucast (uu_ffs64 (3 * 2 ^ 40)) + 1"
  using ilp32_searches [of "3 * 2 ^ 40"] by simp

end
