(* ===== verification/Spec2Isabelle.thy ===== *)
theory Spec2Isabelle
  imports List_Props Rbtree_Props Lheap_Props Atomic_Props Bitops_Props Bitmap_Props Bitmap_Area Bitmap_Map_Props Bitmap_Text_Props Log2 Hash_Props Hlist_Props Htable_Props Vec
    Htable_Iter Bitmap_Parse_Exact Atomic_Gnuc C_Layout Compiler Target32
begin

text \<open>
  A verification library for libkern, the kernel-style C library of intrusive data structures and
  bit operations under \<^verbatim>\<open>src/\<close>, on its 64-bit (LP64) target. This theory collects the others; each of them opens with
  what it holds.

  \<^bold>\<open>The program.\<close> libkern is a set of headers, most of whose code is inline functions and macros, and three C files.
  It has two kinds of parts. The intrusive data structures keep their links inside the structs of their clients:
  the circular list (\<^verbatim>\<open>list.h\<close>), the list with a one-pointer head (\<^verbatim>\<open>hlist.h\<close>), the red-black tree (\<^verbatim>\<open>rbtree.h\<close>,
  \<^verbatim>\<open>lib/rbtree.c\<close>), the leftist heap (\<^verbatim>\<open>lheap.h\<close>), and the hash table with a Bloom filter (\<^verbatim>\<open>htable.h\<close>), which is built on
  \<^verbatim>\<open>hlist.h\<close>, \<^verbatim>\<open>jhash.h\<close> and \<^verbatim>\<open>log2.h\<close>. The routines on words and arrays of words are \<^verbatim>\<open>bitops.h\<close> with \<^verbatim>\<open>lib/bitops.c\<close>,
  \<^verbatim>\<open>bitmap.h\<close> with \<^verbatim>\<open>lib/bitmap.c\<close>, which searches with bitops, \<^verbatim>\<open>log2.h\<close>, \<^verbatim>\<open>hash.h\<close>, \<^verbatim>\<open>jhash.h\<close>, the macros of \<^verbatim>\<open>kernel.h\<close>,
  the growable array of \<^verbatim>\<open>vec.h\<close> and the operations of \<^verbatim>\<open>atomic.h\<close>.

  \<^bold>\<open>Conventions of the models\<close> (\<open>Libkern_Prelude\<close>). Machine integers are words of their width, and wrap around where
  the C code does; an \<^verbatim>\<open>int\<close> is an integer where the code cannot leave its range. Memory of one struct type is a partial map
  from addresses to records; arrays of words, for the bit routines, are a store from addresses to lists. A read or a
  write of memory that is not there is a fault, the value \<^const>\<open>None\<close>, so every theorem that gives a result \<^const>\<open>Some\<close>
  also says that the code stays within its memory. Error codes are values of the datatype \<open>errno\<close> in a sum. A member of a struct
  is reached from its node by an offset (\<open>container_of\<close>). An iteration macro is a function of its
  body; the comparison and the key function of a macro, and what the C library does for \<^verbatim>\<open>malloc\<close>, are parameters or
  written out where the code uses them. Loops over pointers are partial functions into \<^typ>\<open>'a option\<close>, so that running
  forever is also \<^const>\<open>None\<close> and a result \<^const>\<open>Some\<close> includes termination; loops over counters have
  termination proofs. Nothing is bounded by fuel. Where a C \<^verbatim>\<open>int\<close> counts bits, the theorems assume a size below
  \<open>2 ^ 31\<close>.

  \<^bold>\<open>Lists.\<close> \<open>List_Head\<close> models \<^verbatim>\<open>list.h\<close> over the heap of \<^verbatim>\<open>struct list_head\<close>; \<open>clist h a xs\<close> says that the circle at
  \<open>a\<close> is the sequence \<open>xs\<close>. \<open>Hlist\<close> models \<^verbatim>\<open>hlist.h\<close> with its pointers to pointers. Both interpret the
  contract \<open>linked_seq\<close> of \<open>Linked_Seq\<close>: a sequence, with insertion at the front, removal and the test for emptiness.
  \<open>List_Props\<close> and \<open>Hlist_Props\<close> show what each operation does to the sequence and that it touches nothing else, that
  splicing undoes cutting, and that the safe iteration tolerates removal of the cursor.

  \<^bold>\<open>Red-black trees.\<close> \<open>Rbtree\<close> translates \<^verbatim>\<open>rbtree.h\<close> and \<^verbatim>\<open>rbtree.c\<close> statement by statement, with the colour in the low
  bits of the parent word. \<open>Rbtree_Zipper\<close> relates the heap to a tree at a position and gives the
  effect of the single writes and of the rotations; \<open>Rbtree_Insert\<close>, \<open>Rbtree_Erase_Color\<close>, \<open>Rbtree_Erase\<close>,
  \<open>Rbtree_Search\<close> and \<open>Rbtree_Traverse\<close> follow the loops of the code over positions. \<open>Ordered_Index\<close> is the contract for clients, which
  \<open>Rbtree_Props\<close> interprets; its properties are insertion, removal, lookup, deletion by key,
  replacement, iteration in both directions, also while erasing, the logarithmic bound of the augmentation walk, and
  sorting. The key order of the macros is descending: the code goes left for greater keys.

  \<^bold>\<open>Leftist heaps.\<close> \<open>Lheap\<close> models \<^verbatim>\<open>lheap.h\<close>; \<open>Lheap_Zipper\<close> and \<open>Lheap_Merge\<close> show that the two pointer loops
  of \<^verbatim>\<open>lh_merge\<close> compute the recursive merge, \<open>Lheap_Del\<close> treats insertion and removal, and \<open>Lheap_Props\<close> interprets the
  contract \<open>priority_queue\<close> of \<open>Priority_Queue\<close>, whose client lemma is that draining yields the keys in descending order.

  \<^bold>\<open>Hash tables.\<close> \<open>Hash\<close> and \<open>Hash_Props\<close> are \<^verbatim>\<open>hash.h\<close> and \<^verbatim>\<open>jhash.h\<close>: equivalence of word and byte hashing, of the shift
  sequence with the multiplication. \<open>Htable\<close> models \<^verbatim>\<open>htable.h\<close>, and \<open>Htable_Props\<close> its invariant (every
  entry in the bucket of its hash, every key in the Bloom filter, the count) and what initialisation, insertion, lookup
  and removal do; the bucket lists are used through \<open>linked_seq\<close>. \<open>Htable_Iter\<close> adds the iterations: every entry is visited once, and
  the safe iteration may delete the entry it is at.

  \<^bold>\<open>Bits.\<close> \<open>Kernel_Macros\<close>, \<open>Bitops\<close> and \<open>Log2\<close> are the models; \<open>Bit_Search\<close> proves the searches against \<open>is_next\<close> and
  has the contract \<open>bit_search\<close> of a search for set or clear bits, interpreted on both pairs of functions;
  \<open>Hweight\<close> proves the parallel population count; \<open>Bitops_Props\<close> and the end of \<open>Log2\<close> hold the properties.

  \<^bold>\<open>Bitmaps.\<close> \<open>Bitmap\<close>, \<open>Bitmap_Map\<close> and \<open>Bitmap_Text\<close> model \<^verbatim>\<open>bitmap.h\<close> and \<^verbatim>\<open>bitmap.c\<close> completely, with both paths of the
  inline functions. The abstraction of a bitmap is the set of its bits (\<open>Bitmap_Ops\<close>), and every routine is shown to compute
  an operation on sets: \<open>Bitmap_Ops\<close>, \<open>Bitmap_Inline\<close>, \<open>Bitmap_Shift\<close>, \<open>Bitmap_Range\<close>, \<open>Bitmap_Weight\<close> and \<open>Bitmap_Bits\<close> do so for
  groups of routines (setting and clearing a range are two interpretations of one locale, \<open>range_loop\<close>), \<open>Bitmap_Region\<close> for the aligned regions, and \<open>Bitmap_Props\<close> has the properties and the contract
  \<open>region_allocator\<close> with its interpretation. \<open>Bitmap_Area\<close> treats the search for an aligned clear area,
  \<open>Bitmap_Map_Props\<close> ordinals, \<^verbatim>\<open>bitmap_remap\<close>,
  \<^verbatim>\<open>bitmap_onto\<close> and \<^verbatim>\<open>bitmap_fold\<close>. For the text formats, \<open>Bitmap_Codec\<close> is the contract of a printer with its parser;
  \<open>Bitmap_Hex\<close> and \<open>Bitmap_List\<close>, over the digits of \<open>Text_Digits\<close>, interpret it on the hexadecimal and the list format, and
  \<open>Bitmap_Text_Props\<close> has the round trips, the safety of the parsers on arbitrary input, and the overrun of a small buffer; \<open>Bitmap_Parse_Exact\<close> says exactly when a text is too
  large for a bitmap.

  \<^bold>\<open>Atomic operations.\<close> \<open>Atomic\<close> models the operations of \<^verbatim>\<open>atomic.h\<close> on a cell of any width; \<open>Atomic_Props\<close> gives their
  effects and, for step relations of threads whose steps are these operations, mutual exclusion of a lock and the total of
  a shared counter, over all interleavings. \<open>Atomic_Gnuc\<close> is the path over the compiler's own atomics (\<^verbatim>\<open>__GNUC_ATOMICS\<close>, never
  defined in the repository), and shows that the two paths agree unless the expected value is inside the object.

  \<^bold>\<open>Vectors.\<close> \<open>Vec\<close> models \<^verbatim>\<open>vec.h\<close>, with the growth policy, and proves that \<^verbatim>\<open>vec_pop\<close> undoes \<^verbatim>\<open>vec_push\<close>.

  \<^bold>\<open>Types and the compiler.\<close> \<open>C_Layout\<close> has the C types of the library and the macros that compute with them (\<^verbatim>\<open>offsetof\<close>,
  \<^verbatim>\<open>FIELD_SIZEOF\<close>, \<^verbatim>\<open>ARRAY_SIZE\<close>, \<^verbatim>\<open>DECLARE_BITMAP\<close>); its theorem on layouts justifies the offsets of the other models and the clear low
  bits of the addresses of \<^verbatim>\<open>struct rb_node\<close>. \<open>Compiler\<close> has what yields a value or an effect in \<^verbatim>\<open>compiler.h\<close>, and the
  levels of \<^verbatim>\<open>debug.h\<close>. \<open>Target32\<close> has the variants of \<^verbatim>\<open>bitops.h\<close> and \<^verbatim>\<open>hash.h\<close> for 32-bit words, and shows
  where they differ from the 64-bit ones. \<^verbatim>\<open>do_div\<close>, which the repository does not define, is a parameter of
  \<open>DIV_ROUND_UP_ULL\<close> in \<open>Kernel_Macros\<close>.

  \<^bold>\<open>What is modelled without a general theorem.\<close> \<^verbatim>\<open>find_last_bit\<close> (two results show that it is wrong) and some
  macros of \<^verbatim>\<open>kernel.h\<close>.

  \<^bold>\<open>Not modelled.\<close> The attributes and barriers of \<^verbatim>\<open>compiler.h\<close> and the type names and keywords of \<^verbatim>\<open>common.h\<close>, which have no behaviour
  of their own; \<^verbatim>\<open>config.h.in\<close>, a template of the build; weak memory: an atomic operation takes effect at once for
  every thread, whatever its memory order, and a fence does nothing; signals; and the macros that do not
  compile, \<^verbatim>\<open>hlist_first_entry\<close> and the declaration macro of \<^verbatim>\<open>lheap.h\<close>. What is left of the lines without a definition is comments,
  prototypes and preprocessor directives.
\<close>

end
